(* ===== verification/Prelude.thy ===== *)
theory Prelude
  imports Main "HOL-Library.Word"
begin

text \<open>
  Shared ground of the development: byte strings, the exceptions of the C++ code, the state and
  exception monad every effectful operation is written in, the decimal and hexadecimal printing
  that \<open>snprintf\<close> and \<open>std::to_string\<close> do, and the model of a formatted fixed-size
  buffer that is then handed on with the length \<open>snprintf\<close> returned.

  The collections \<open>run_simps\<close> (evaluation of the monad) and \<open>wf_intros\<close> (preservation of
  invariants) are filled by the component theories.
\<close>

named_theorems run_simps
named_theorems wf_intros

section \<open>Bytes and machine integers\<close>

type_synonym bytes = "char list"
type_synonym u64 = "64 word"

abbreviation CR :: char where "CR \<equiv> CHR 0x0D"
abbreviation LF :: char where "LF \<equiv> CHR 0x0A"
abbreviation NUL :: char where "NUL \<equiv> CHR 0x00"
abbreviation CRLF :: bytes where "CRLF \<equiv> [CR, LF]"

section \<open>Exceptions\<close>

text \<open>
  A \<open>Sys_error\<close> is a \<open>std::system_error\<close> with its code, a \<open>Std_exception\<close> one of the
  standard library's exceptions, \<open>Undefined\<close> marks a path on which the C++ standard gives
  no behaviour at all (an out-of-bounds access, a null dereference), and \<open>Diverges\<close> a call that
  does not return.
\<close>

datatype exn =
    Sys_error int
  | Std_exception string
  | Undefined string
  | Diverges

section \<open>The state and exception monad\<close>

type_synonym ('s, 'a) action = "'s \<Rightarrow> (exn + 'a) \<times> 's"

definition ret :: "'a \<Rightarrow> ('s, 'a) action" where
  "ret x s = (Inr x, s)"

definition throw :: "exn \<Rightarrow> ('s, 'a) action" where
  "throw e s = (Inl e, s)"

definition bindE :: "('s, 'a) action \<Rightarrow> ('a \<Rightarrow> ('s, 'b) action) \<Rightarrow> ('s, 'b) action" where
  "bindE m f s = (case m s of (Inl e, s') \<Rightarrow> (Inl e, s') | (Inr x, s') \<Rightarrow> f x s')"

definition seqE :: "('s, 'a) action \<Rightarrow> ('s, 'b) action \<Rightarrow> ('s, 'b) action" where
  "seqE m k = bindE m (\<lambda>_. k)"

lemma ret_run [run_simps]: "ret x s = (Inr x, s)"
  by (simp add: ret_def)

lemma throw_run [run_simps]: "throw e s = (Inl e, s)"
  by (simp add: throw_def)

lemma bindE_ok: "m s = (Inr x, s') \<Longrightarrow> bindE m f s = f x s'"
  by (simp add: bindE_def)

lemma bindE_err: "m s = (Inl e, s') \<Longrightarrow> bindE m f s = (Inl e, s')"
  by (simp add: bindE_def)

lemma bindE_ret [simp]: "bindE (ret x) f = f x"
  by (rule ext) (simp add: bindE_def ret_def)

lemma bindE_throw [simp]: "bindE (throw e) f = throw e"
  by (rule ext) (simp add: bindE_def throw_def)

lemma bindE_assoc: "bindE (bindE m f) g = bindE m (\<lambda>x. bindE (f x) g)"
  by (rule ext) (simp add: bindE_def split: prod.splits sum.splits)

lemma bindE_eq_Inr:
  "bindE m f s = (Inr y, s'') \<longleftrightarrow> (\<exists>x s'. m s = (Inr x, s') \<and> f x s' = (Inr y, s''))"
  by (auto simp: bindE_def split: prod.splits sum.splits)

lemma bindE_eq_Inl:
  "bindE m f s = (Inl e, s'') \<longleftrightarrow>
     m s = (Inl e, s'') \<or> (\<exists>x s'. m s = (Inr x, s') \<and> f x s' = (Inl e, s''))"
  by (auto simp: bindE_def split: prod.splits sum.splits)

lemma seqE_eq_Inr:
  "seqE m k s = (Inr y, s'') \<longleftrightarrow> (\<exists>x s'. m s = (Inr x, s') \<and> k s' = (Inr y, s''))"
  by (simp add: seqE_def bindE_eq_Inr)

section \<open>Printing numbers\<close>

definition digit_char :: "nat \<Rightarrow> char" where
  "digit_char d = (if d < 10 then char_of (48 + d) else char_of (87 + d))"

definition digit_val :: "char \<Rightarrow> nat option" where
  "digit_val c =
     (let k = of_char c :: nat in
      if 48 \<le> k \<and> k \<le> 57 then Some (k - 48)
      else if 97 \<le> k \<and> k \<le> 122 then Some (k - 87)
      else if 65 \<le> k \<and> k \<le> 90 then Some (k - 55)
      else None)"

function print_base :: "nat \<Rightarrow> nat \<Rightarrow> string" where
  "print_base b n =
     (if n < b \<or> b < 2 then [digit_char n]
      else print_base b (n div b) @ [digit_char (n mod b)])"
  by pat_completeness auto
termination
  by (relation "measure snd") auto

declare print_base.simps [simp del]

definition dec :: "nat \<Rightarrow> string" where
  "dec n = print_base 10 n"

definition hex :: "nat \<Rightarrow> string" where
  "hex n = print_base 16 n"

definition dec_int :: "int \<Rightarrow> string" where
  "dec_int i = (if i < 0 then CHR ''-'' # dec (nat (- i)) else dec (nat i))"

text \<open>The reading direction: the value of a string of digits, leading digit first.\<close>

fun read_base :: "nat \<Rightarrow> nat \<Rightarrow> string \<Rightarrow> nat option" where
  "read_base b acc [] = Some acc"
| "read_base b acc (c # cs) =
     (case digit_val c of
        None \<Rightarrow> None
      | Some d \<Rightarrow> if d < b then read_base b (acc * b + d) cs else None)"

lemma digit_val_char [simp]: "d < 16 \<Longrightarrow> digit_val (digit_char d) = Some d"
  by (simp add: digit_val_def digit_char_def Let_def)

lemma read_base_append:
  "read_base b acc (xs @ ys) =
     (case read_base b acc xs of None \<Rightarrow> None | Some a \<Rightarrow> read_base b a ys)"
  by (induction xs arbitrary: acc) (auto split: option.splits)

lemma read_print_base:
  assumes "2 \<le> b" and "b \<le> 16"
  shows "read_base b 0 (print_base b n) = Some n"
  using assms
proof (induction b n rule: print_base.induct)
  case (1 b n)
  show ?case
  proof (cases "n < b")
    case True
    with 1 show ?thesis by (subst print_base.simps) simp
  next
    case False
    with 1 have IH: "read_base b 0 (print_base b (n div b)) = Some (n div b)" by simp
    have "n mod b < b" using 1(2) by simp
    moreover from this 1(3) have "digit_val (digit_char (n mod b)) = Some (n mod b)" by simp
    ultimately show ?thesis using False IH 1(2)
      by (subst print_base.simps) (simp add: read_base_append)
  qed
qed

lemma print_base_length:
  assumes "2 \<le> b" and "n < b ^ k" and "0 < k"
  shows "length (print_base b n) \<le> k"
  using assms
proof (induction k arbitrary: n)
  case 0
  then show ?case by simp
next
  case (Suc k)
  show ?case
  proof (cases "n < b")
    case True
    then show ?thesis by (subst print_base.simps) simp
  next
    case False
    with Suc.prems have "0 < k" by (cases k) auto
    moreover have "n div b < b ^ k"
      using Suc.prems(1,2) by (simp add: less_mult_imp_div_less mult.commute)
    ultimately have "length (print_base b (n div b)) \<le> k"
      using Suc.IH Suc.prems(1) by blast
    with False Suc.prems(1) show ?thesis by (subst print_base.simps) simp
  qed
qed

lemma print_base_nonempty [simp]: "print_base b n \<noteq> []"
  by (subst print_base.simps) simp

lemma dec_nonempty [simp]: "dec n \<noteq> []"
  by (simp add: dec_def)

lemma hex_nonempty [simp]: "hex n \<noteq> []"
  by (simp add: hex_def)

lemma read_dec: "read_base 10 0 (dec n) = Some n"
  by (simp add: dec_def read_print_base)

lemma read_hex: "read_base 16 0 (hex n) = Some n"
  by (simp add: hex_def read_print_base)

lemma print_base_digits:
  assumes "2 \<le> b"
  shows "set (print_base b n) \<subseteq> digit_char ` {..<b}"
  using assms
proof (induction b n rule: print_base.induct)
  case (1 b n)
  then show ?case by (subst print_base.simps) auto
qed

section \<open>Computations without state\<close>

definition bindS :: "exn + 'a \<Rightarrow> ('a \<Rightarrow> exn + 'b) \<Rightarrow> exn + 'b" where
  "bindS m f = (case m of Inl e \<Rightarrow> Inl e | Inr x \<Rightarrow> f x)"

lemma bindS_simps [simp]: "bindS (Inl e) f = Inl e" "bindS (Inr x) f = f x"
  by (simp_all add: bindS_def)

lemma bindS_eq_Inr: "bindS m f = Inr y \<longleftrightarrow> (\<exists>x. m = Inr x \<and> f x = Inr y)"
  by (cases m) auto

text \<open>An element of an array or vector, by an index of the source's type.\<close>

definition at :: "'a list \<Rightarrow> int \<Rightarrow> exn + 'a" where
  "at xs i = (if 0 \<le> i \<and> i < int (length xs) then Inr (xs ! nat i)
              else Inl (Undefined ''index out of range''))"

lemma at_nat [simp]: "k < length xs \<Longrightarrow> at xs (int k) = Inr (xs ! k)"
  by (simp add: at_def)

text \<open>The result of an \<open>int\<close> operation, undefined when it does not fit 32 bits.\<close>

definition fits_int :: "int \<Rightarrow> bool" where
  "fits_int v \<longleftrightarrow> - 2147483648 \<le> v \<and> v \<le> 2147483647"

definition as_int :: "int \<Rightarrow> exn + int" where
  "as_int v = (if fits_int v then Inr v else Inl (Undefined ''signed overflow''))"

lemma as_int_fits [simp]: "fits_int v \<Longrightarrow> as_int v = Inr v"
  by (simp add: as_int_def)

section \<open>Formatted output through a fixed buffer\<close>

text \<open>
  The code formats into a local array of \<open>N\<close> bytes and then passes the array on together with
  the value \<open>snprintf\<close> returned, which is the length the text would have had without
  truncation. \<open>formatted N full\<close> is the byte sequence the receiver then reads: the text itself
  while it fits with its terminator, the truncated text with the terminating NUL when it is one
  byte too long, and a read past the end of the array beyond that.
\<close>

definition formatted :: "nat \<Rightarrow> string \<Rightarrow> exn + bytes" where
  "formatted N full =
     (if length full < N then Inr full
      else if length full = N then Inr (take (N - 1) full @ [NUL])
      else Inl (Undefined ''read past the formatting buffer''))"

definition formatE :: "nat \<Rightarrow> string \<Rightarrow> ('s, bytes) action" where
  "formatE N full s = (formatted N full, s)"

lemma formatE_fits [simp]: "length full < N \<Longrightarrow> formatE N full = ret full"
  by (rule ext) (simp add: formatE_def formatted_def ret_def)

lemma formatted_fits [simp]: "length full < N \<Longrightarrow> formatted N full = Inr full"
  by (simp add: formatted_def)

section \<open>Classes of characters and the range of int\<close>

definition is_space :: "char \<Rightarrow> bool" where
  "is_space c \<longleftrightarrow> c \<in> {CHR '' '', CHR 0x09, CHR 0x0A, CHR 0x0B, CHR 0x0C, CHR 0x0D}"

definition is_digit :: "char \<Rightarrow> bool" where
  "is_digit c \<longleftrightarrow> 48 \<le> (of_char c :: nat) \<and> (of_char c :: nat) \<le> 57"

definition INT_MAX :: int where
  "INT_MAX = 2147483647"

definition INT_MIN :: int where
  "INT_MIN = - 2147483648"

lemma is_digit_char: "d < 10 \<Longrightarrow> is_digit (digit_char d)"
  by (simp add: is_digit_def digit_char_def)

lemma dec_digits: "\<forall>c \<in> set (dec n). is_digit c"
  using print_base_digits [of 10 n] is_digit_char unfolding dec_def by fastforce

lemma digit_not_space: "is_digit c \<Longrightarrow> \<not> is_space c"
  by (auto simp: is_digit_def is_space_def)

lemma digit_not_sign: "is_digit c \<Longrightarrow> c \<noteq> CHR ''-'' \<and> c \<noteq> CHR ''+''"
  by (auto simp: is_digit_def)

section \<open>Systems whose runs end\<close>

text \<open>A system whose steps keep an invariant and descend in a well-founded order.\<close>

locale ranked_system =
  fixes step :: "'s \<Rightarrow> 's \<Rightarrow> bool" and inv :: "'s \<Rightarrow> bool" and less :: "('s \<times> 's) set"
  assumes less_wf: "wf less"
    and inv_step: "inv s \<Longrightarrow> step s s' \<Longrightarrow> inv s'"
    and step_less: "inv s \<Longrightarrow> step s s' \<Longrightarrow> (s', s) \<in> less"
begin

lemma run_inv: "step\<^sup>*\<^sup>* s s' \<Longrightarrow> inv s \<Longrightarrow> inv s'"
  by (induction rule: rtranclp_induct) (auto intro: inv_step)

lemma no_infinite_run:
  assumes "inv (f 0)"
  shows "\<exists>n. \<not> step (f n) (f (Suc n))"
proof (rule ccontr)
  assume "\<nexists>n. \<not> step (f n) (f (Suc n))"
  then have step: "step (f n) (f (Suc n))" for n by blast
  have "inv (f n)" for n by (induction n) (auto intro: assms inv_step step)
  then have "(f (Suc n), f n) \<in> less" for n using step step_less by blast
  with less_wf show False unfolding wf_iff_no_infinite_down_chain by blast
qed

lemma run_ends:
  assumes "inv s"
  shows "\<exists>t. step\<^sup>*\<^sup>* s t \<and> (\<forall>u. \<not> step t u)"
  using less_wf assms
proof (induction s rule: wf_induct_rule)
  case (less s)
  show ?case
  proof (cases "\<exists>u. step s u")
    case True
    then obtain u where u: "step s u" by blast
    with less obtain t where "step\<^sup>*\<^sup>* u t" "\<forall>v. \<not> step t v" using step_less inv_step by blast
    with u show ?thesis by (meson converse_rtranclp_into_rtranclp)
  qed blast
qed

end

end
