(* ===== verification/BeastEnv.thy ===== *)
theory BeastEnv
  imports Prelude
begin

text \<open>
  The third-party side of the HTTP front end. Boost.Asio, Boost.Beast and the clock are not part
  of the repository: they are one record \<open>'w boost\<close> of operations on an abstract world \<open>'w\<close>
  (socket, parser and clock together), which every definition of the front end takes as its
  first argument. What the code relies on is stated by the predicates at the end (documented
  behaviour of \<open>async_write\<close> and of the parser); they are hypotheses of the theorems that need
  them.
\<close>

section \<open>Error codes\<close>

datatype ec_kind =
    Success
  | Broken_pipe
  | Connection_reset
  | Bad_descriptor
  | Operation_aborted
  | Address_family_not_supported
  | No_such_file
  | End_of_stream
  | Need_buffer
  | Other_error

text \<open>An \<open>error_code\<close>: which constant it compares equal to, and its numeric \<open>value()\<close>.\<close>

record error_code =
  ec_is :: ec_kind
  ec_value :: int

definition no_error :: error_code where
  "no_error = \<lparr>ec_is = Success, ec_value = 0\<rparr>"

definition failed :: "error_code \<Rightarrow> bool" where
  "failed ec \<longleftrightarrow> ec_is ec \<noteq> Success"

lemma not_failed_no_error [simp]: "\<not> failed no_error"
  by (simp add: failed_def no_error_def)

section \<open>Requests\<close>

datatype verb = Put | Post | Get | Head | Other_verb

datatype field =
    Content_length
  | Content_type
  | Referer
  | User_agent
  | Range
  | Keep_alive_field
  | Other_field

text \<open>One header field: the enumerator Beast knows it by, its name as sent, its value.\<close>

type_synonym header = "field \<times> string \<times> string"

record request =
  rq_verb :: verb
  rq_method_string :: string
  rq_target :: string
  rq_version :: nat
  rq_fields :: "header list"

text \<open>The broken-down time that \<open>gmtime_r\<close> fills in.\<close>

record tm =
  tm_sec :: nat
  tm_min :: nat
  tm_hour :: nat
  tm_mday :: nat
  tm_mon :: nat
  tm_year :: nat
  tm_wday :: nat

section \<open>The operations of Boost the front end calls\<close>

text \<open>
  \<^item> \<open>b_async_write w bs\<close>: write \<open>bs\<close>, with the error code and the count;
  \<^item> \<open>b_shutdown w\<close>: shut the socket down both ways;
  \<^item> \<open>b_read_header w\<close>: a fresh parser reads the next header;
  \<^item> \<open>b_read_some w k\<close>: the parser reads some body into a buffer of \<open>k\<close> bytes and delivers the
    bytes it put there;
  \<^item> \<open>b_is_done\<close>, \<open>b_keep_alive\<close>: questions to the parser;
  \<^item> \<open>b_local_port\<close>, \<open>b_remote_addr\<close>: the two endpoints of the socket, each with its error code;
  \<^item> \<open>b_write_response w status version\<close>: write a response with an empty body;
  \<^item> \<open>b_read_waits w\<close>, \<open>b_write_waits w\<close>: a read, or a write, that is started in \<open>w\<close> never completes,
    because the peer stays connected and sends nothing more, or takes nothing more (no operation of
    the front end has a timeout); what the operation itself gives is then how it leaves the world;
  \<^item> \<open>b_now\<close>: \<open>time\<close> followed by \<open>gmtime_r\<close>, \<open>None\<close> when the latter returns NULL.
\<close>

record 'w boost =
  b_async_write :: "'w \<Rightarrow> bytes \<Rightarrow> (error_code \<times> nat) \<times> 'w"
  b_shutdown :: "'w \<Rightarrow> 'w"
  b_read_header :: "'w \<Rightarrow> (error_code \<times> request) \<times> 'w"
  b_read_some :: "'w \<Rightarrow> nat \<Rightarrow> (error_code \<times> bytes) \<times> 'w"
  b_is_done :: "'w \<Rightarrow> bool"
  b_keep_alive :: "'w \<Rightarrow> bool"
  b_local_port :: "'w \<Rightarrow> error_code \<times> nat"
  b_remote_addr :: "'w \<Rightarrow> error_code \<times> string"
  b_write_response :: "'w \<Rightarrow> nat \<Rightarrow> nat \<Rightarrow> error_code \<times> 'w"
  b_now :: "'w \<Rightarrow> tm option \<times> 'w"
  b_read_waits :: "'w \<Rightarrow> bool"
  b_write_waits :: "'w \<Rightarrow> bool"

section \<open>What the code relies on\<close>

text \<open>
  \<open>async_write\<close> completes without error only after all the bytes are written; when it fails, or does
  not complete, some prefix of them has been.
\<close>

definition write_contract :: "'w boost \<Rightarrow> ('w \<Rightarrow> bytes) \<Rightarrow> bool" where
  "write_contract B wire \<longleftrightarrow>
     (\<forall>w bs ec n w'. b_async_write B w bs = ((ec, n), w') \<longrightarrow>
        (if failed ec \<or> b_write_waits B w then \<exists>k. wire w' = wire w @ take k bs
         else n = length bs \<and> wire w' = wire w @ bs))"

text \<open>The same for a response without a body; \<open>resp\<close> is how it looks for a status and a version.\<close>

definition response_contract :: "'w boost \<Rightarrow> ('w \<Rightarrow> bytes) \<Rightarrow> (nat \<Rightarrow> nat \<Rightarrow> bytes) \<Rightarrow> bool" where
  "response_contract B wire resp \<longleftrightarrow>
     (\<forall>w status version ec w'. b_write_response B w status version = (ec, w') \<longrightarrow>
        (if failed ec \<or> b_write_waits B w then \<exists>k. wire w' = wire w @ take k (resp status version)
         else wire w' = wire w @ resp status version))"

text \<open>Every read and every write completes at some time.\<close>

definition completes :: "'w boost \<Rightarrow> bool" where
  "completes B \<longleftrightarrow> (\<forall>w. \<not> b_read_waits B w \<and> \<not> b_write_waits B w)"

lemma completesD [simp]:
  assumes "completes B"
  shows "\<not> b_read_waits B w" and "\<not> b_write_waits B w"
  using assms by (simp_all add: completes_def)

text \<open>The clock, the parser and a shutdown put nothing on the wire.\<close>

definition quiet_contract :: "'w boost \<Rightarrow> ('w \<Rightarrow> bytes) \<Rightarrow> bool" where
  "quiet_contract B wire \<longleftrightarrow>
     (\<forall>w. wire (b_shutdown B w) = wire w) \<and>
     (\<forall>w. wire (snd (b_read_header B w)) = wire w) \<and>
     (\<forall>w k. wire (snd (b_read_some B w k)) = wire w) \<and>
     (\<forall>w. wire (snd (b_now B w)) = wire w)"

text \<open>The parser never delivers more bytes than the buffer it was given holds.\<close>

definition read_contract :: "'w boost \<Rightarrow> bool" where
  "read_contract B \<longleftrightarrow> (\<forall>w k ec bs w'. b_read_some B w k = ((ec, bs), w') \<longrightarrow> length bs \<le> k)"

text \<open>A read that succeeds while the message is incomplete delivers a byte or completes it.\<close>

definition progress_contract :: "'w boost \<Rightarrow> bool" where
  "progress_contract B \<longleftrightarrow>
     (\<forall>w k ec bs w'. 0 < k \<longrightarrow> \<not> b_is_done B w \<longrightarrow> b_read_some B w k = ((ec, bs), w') \<longrightarrow>
        \<not> failed ec \<longrightarrow> bs \<noteq> [] \<or> b_is_done B w')"

definition transport_contract :: "'w boost \<Rightarrow> ('w \<Rightarrow> bytes) \<Rightarrow> bool" where
  "transport_contract B wire \<longleftrightarrow> write_contract B wire \<and> quiet_contract B wire"

lemma write_contract_ok:
  assumes "write_contract B wire" and "b_async_write B w bs = ((ec, n), w')" and "\<not> failed ec"
    and "\<not> b_write_waits B w"
  shows "n = length bs" and "wire w' = wire w @ bs"
  using assms unfolding write_contract_def by (metis (full_types))+

lemma write_contract_err:
  assumes "write_contract B wire" and "b_async_write B w bs = ((ec, n), w')"
    and "failed ec \<or> b_write_waits B w"
  shows "\<exists>k. wire w' = wire w @ take k bs"
  using assms unfolding write_contract_def by (metis (full_types))

lemma write_contract_any:
  assumes "write_contract B wire" and "b_async_write B w bs = ((ec, n), w')"
  shows "\<exists>k. wire w' = wire w @ take k bs"
  using write_contract_ok [OF assms] write_contract_err [OF assms] by (metis take_all_iff le_refl)

lemma response_contractD:
  assumes "response_contract B wire resp" and "b_write_response B w status version = (ec, w')"
  shows "\<exists>k. wire w' = wire w @ take k (resp status version)"
  using assms unfolding response_contract_def by (metis (full_types) take_all_iff le_refl)

lemma transport_contractD:
  assumes "transport_contract B wire"
  shows "write_contract B wire" and "wire (b_shutdown B w) = wire w"
    and "wire (snd (b_now B w)) = wire w" and "wire (snd (b_read_some B w k)) = wire w"
    and "wire (snd (b_read_header B w)) = wire w"
  using assms by (simp_all add: transport_contract_def quiet_contract_def)

lemma transportD_read: "transport_contract B wire \<Longrightarrow> wire (snd (b_read_some B w k)) = wire w"
  by (simp add: transport_contract_def quiet_contract_def)

end
