(* ===== verification/Bufferer.thy ===== *)
theory Bufferer
  imports BeastEnv "HOL-Library.Sublist"
begin

text \<open>
  \<open>boost_cpp/httpserver/client.hpp\<close>, the classes \<open>BuffererSink\<close> and
  \<open>StaticOutputBufferer\<close>, and the sink the front end provides, \<open>StreamIO::write_data\<close> of
  \<open>boost_cpp/httpserver/asio_frontend.cc\<close>. The buffer is a \<open>std::streambuf\<close> whose put area is
  all but the last byte of a 4096-byte array; \<open>overflow\<close> puts the next character in the byte
  held back and hands the whole array to the sink. The locale \<open>bufferer_sink\<close> states what a sink
  promises; under it the buffer is shown to be a first-in first-out stage that neither loses nor
  reorders a byte and never writes outside its array.
\<close>

section \<open>The buffer\<close>

text \<open>The array, the index \<open>pptr() - pbase()\<close>, and the state of the sink.\<close>

record 'w obuf =
  ob_buf :: "char list"
  ob_pptr :: nat
  ob_sink :: 'w

definition BufferSizeV :: nat where
  "BufferSizeV = 4096"

text \<open>\<open>epptr() - pbase()\<close>: \<open>sizeof(buffer) - sizeof(char_type)\<close>.\<close>

definition put_area :: nat where
  "put_area = BufferSizeV - 1"

definition bufferer_init :: "char list \<Rightarrow> 'w \<Rightarrow> 'w obuf" where
  "bufferer_init garbage w = \<lparr>ob_buf = garbage, ob_pptr = 0, ob_sink = w\<rparr>"

type_synonym 'w sink = "bytes \<Rightarrow> ('w, nat) action"

definition ob_sync :: "'w sink \<Rightarrow> (('w, 'z) obuf_scheme, int) action" where
  "ob_sync write_data s =
     (let len = ob_pptr s;
          s1 = s\<lparr>ob_pptr := 0\<rparr>
      in case write_data (take len (ob_buf s)) (ob_sink s) of
           (Inl e, w) \<Rightarrow> (Inl e, s1\<lparr>ob_sink := w\<rparr>)
         | (Inr n, w) \<Rightarrow> (Inr 0, s1\<lparr>ob_sink := w\<rparr>))"

definition ob_store :: "char \<Rightarrow> (('w, 'z) obuf_scheme, unit) action" where
  "ob_store c s =
     (if ob_pptr s < length (ob_buf s)
      then (Inr (), s\<lparr>ob_buf := (ob_buf s)[ob_pptr s := c], ob_pptr := Suc (ob_pptr s)\<rparr>)
      else (Inl (Undefined ''store past the buffer''), s))"

text \<open>The result is the character, or \<open>None\<close> for \<open>traits_type::eof()\<close>.\<close>

definition ob_overflow :: "'w sink \<Rightarrow> char \<Rightarrow> (('w, 'z) obuf_scheme, char option) action" where
  "ob_overflow write_data c =
     bindE (ob_store c) (\<lambda>_.
     bindE (ob_sync write_data) (\<lambda>r.
       ret (if r = 0 then Some c else None)))"

text \<open>The standard library's \<open>sputc\<close>, and \<open>sputn\<close> as repeated \<open>sputc\<close>.\<close>

definition sputc :: "'w sink \<Rightarrow> char \<Rightarrow> (('w, 'z) obuf_scheme, char option) action" where
  "sputc write_data c s =
     (if ob_pptr s < put_area
      then bindE (ob_store c) (\<lambda>_. ret (Some c)) s
      else ob_overflow write_data c s)"

fun sputn :: "'w sink \<Rightarrow> bytes \<Rightarrow> (('w, 'z) obuf_scheme, nat) action" where
  "sputn write_data [] = ret 0"
| "sputn write_data (c # cs) =
     bindE (sputc write_data c) (\<lambda>r.
       case r of
         None \<Rightarrow> ret 0
       | Some _ \<Rightarrow> bindE (sputn write_data cs) (\<lambda>n. ret (Suc n)))"

section \<open>Well-formedness and the abstraction\<close>

definition ob_wf :: "('w, 'z) obuf_scheme \<Rightarrow> bool" where
  "ob_wf s \<longleftrightarrow> length (ob_buf s) = BufferSizeV \<and> ob_pptr s \<le> put_area"

text \<open>The bytes accepted and not yet handed to the sink.\<close>

definition pending :: "('w, 'z) obuf_scheme \<Rightarrow> bytes" where
  "pending s = take (ob_pptr s) (ob_buf s)"

lemma ob_wf_init: "length garbage = BufferSizeV \<Longrightarrow> ob_wf (bufferer_init garbage w)"
  by (simp add: ob_wf_def bufferer_init_def)

lemma pending_init [simp]: "pending (bufferer_init garbage w) = []"
  by (simp add: pending_def bufferer_init_def)

lemma put_area_less: "put_area < BufferSizeV"
  by (simp add: put_area_def BufferSizeV_def)

lemma ob_store_run:
  assumes "ob_wf s"
  shows "\<exists>s1. ob_store c s = (Inr (), s1) \<and> pending s1 = pending s @ [c] \<and>
           ob_sink s1 = ob_sink s \<and> length (ob_buf s1) = BufferSizeV \<and>
           ob_pptr s1 = Suc (ob_pptr s) \<and> obuf.more s1 = obuf.more s"
proof -
  from assms have "ob_pptr s < length (ob_buf s)"
    using put_area_less by (simp add: ob_wf_def)
  with assms show ?thesis
    by (simp add: ob_store_def pending_def ob_wf_def take_Suc_conv_app_nth)
qed

lemma ob_sync_only_sink_throws:
  assumes "ob_sync write_data s = (Inl e, s')"
  shows "\<exists>w w'. write_data (pending s) w = (Inl e, w')"
  using assms by (fastforce simp: ob_sync_def Let_def pending_def split: prod.splits sum.splits)

lemma ob_sync_length:
  "ob_sync write_data s = (Inr r, s') \<Longrightarrow>
     ob_buf s' = ob_buf s \<and> ob_pptr s' = 0 \<and> r = 0"
  by (auto simp: ob_sync_def Let_def split: prod.splits sum.splits)

text \<open>No store of the buffer is ever out of bounds: an error can only be one the sink threw.\<close>

lemma sputc_step:
  assumes "ob_wf s" and "sputc write_data c s = (r, s')"
  shows "(r = Inr (Some c) \<and> ob_wf s') \<or>
         (\<exists>e data w w'. r = Inl e \<and> write_data data w = (Inl e, w') \<and> length data \<le> BufferSizeV)"
proof -
  obtain s1 where s1: "ob_store c s = (Inr (), s1)" "length (ob_buf s1) = BufferSizeV"
    "ob_pptr s1 = Suc (ob_pptr s)"
    using ob_store_run [OF assms(1)] by blast
  show ?thesis
  proof (cases "ob_pptr s < put_area")
    case True
    with assms(2) s1 show ?thesis by (auto simp: sputc_def bindE_def ret_def ob_wf_def)
  next
    case False
    show ?thesis
    proof (cases "ob_sync write_data s1")
      case (Pair q s2)
      show ?thesis
      proof (cases q)
        case (Inl e)
        with Pair obtain w w' where "write_data (pending s1) w = (Inl e, w')"
          using ob_sync_only_sink_throws by blast
        moreover have "length (pending s1) \<le> BufferSizeV"
          using s1(2) by (simp add: pending_def)
        ultimately show ?thesis
          using assms(2) False s1(1) Pair Inl
          by (auto simp: sputc_def ob_overflow_def bindE_def ret_def)
      next
        case (Inr x)
        with assms(2) False s1 Pair show ?thesis
          by (auto simp: sputc_def ob_overflow_def bindE_def ret_def ob_wf_def dest: ob_sync_length)
      qed
    qed
  qed
qed

lemma sputn_only_sink_throws:
  assumes "ob_wf s" and "sputn write_data bs s = (Inl e, s')"
  shows "\<exists>data w w'. write_data data w = (Inl e, w') \<and> length data \<le> BufferSizeV"
  using assms
proof (induction bs arbitrary: s)
  case Nil
  then show ?case by (simp add: ret_def)
next
  case (Cons c cs)
  obtain r s1 where r: "sputc write_data c s = (r, s1)" by fastforce
  from sputc_step [OF Cons.prems(1) r] show ?case
  proof
    assume ok: "r = Inr (Some c) \<and> ob_wf s1"
    with Cons.prems(2) r have "sputn write_data cs s1 = (Inl e, s')"
      by (auto simp: bindE_eq_Inl ret_def)
    with Cons.IH ok show ?thesis by blast
  next
    assume "\<exists>e data w w'. r = Inl e \<and> write_data data w = (Inl e, w') \<and> length data \<le> BufferSizeV"
    with Cons.prems(2) r show ?thesis by (fastforce simp: bindE_def)
  qed
qed

lemma sputn_wf:
  assumes "ob_wf s" and "sputn write_data bs s = (r, s')" and "\<not> isl r"
  shows "ob_wf s'"
  using assms
proof (induction bs arbitrary: s r)
  case Nil
  then show ?case by (simp add: ret_def)
next
  case (Cons c cs)
  obtain q s1 where q: "sputc write_data c s = (q, s1)" by fastforce
  from sputc_step [OF Cons.prems(1) q] Cons.prems(2,3) q have "q = Inr (Some c)" "ob_wf s1"
    by (auto simp: bindE_def)
  with Cons.prems(2,3) q obtain m where "sputn write_data cs s1 = (Inr m, s')"
    by (auto simp: bindE_def ret_def split: prod.splits sum.splits)
  with Cons.IH [OF \<open>ob_wf s1\<close>] show ?case by fastforce
qed

text \<open>Everything the buffer has accepted, in order: what is on the wire and what is still held.\<close>

definition accepted :: "('w \<Rightarrow> bytes) \<Rightarrow> ('w, 'z) obuf_scheme \<Rightarrow> bytes" where
  "accepted wire s = wire (ob_sink s) @ pending s"

section \<open>What a sink promises\<close>

text \<open>
  \<open>BuffererSink::write_data\<close>: "Send exactly @len bytes from the memory location pointed by @buf.
  On success returns @len. On failure throws". \<open>good\<close> is what the provider itself assumes.
\<close>

locale bufferer_sink =
  fixes write_data :: "'w sink"
    and wire :: "'w \<Rightarrow> bytes"
    and good :: bool
  assumes sink_ok:
      "good \<Longrightarrow> write_data bs w = (Inr n, w') \<Longrightarrow> n = length bs \<and> wire w' = wire w @ bs"
    and sink_err:
      "good \<Longrightarrow> write_data bs w = (Inl e, w') \<Longrightarrow> \<exists>k. wire w' = wire w @ take k bs"
begin

lemma ob_sync_ok:
  assumes good and "ob_wf s" and "ob_sync write_data s = (Inr r, s')"
  shows "r = 0 \<and> ob_wf s' \<and> pending s' = [] \<and> wire (ob_sink s') = accepted wire s \<and>
         obuf.more s' = obuf.more s"
  using assms sink_ok
  by (fastforce simp: ob_sync_def Let_def ob_wf_def pending_def accepted_def
        split: prod.splits sum.splits)

lemma ob_sync_err:
  assumes good and "ob_sync write_data s = (Inl e, s')"
  shows "\<exists>k. wire (ob_sink s') = wire (ob_sink s) @ take k (pending s)"
  using assms sink_err
  by (fastforce simp: ob_sync_def Let_def pending_def split: prod.splits sum.splits)

lemma sputc_ok:
  assumes g: good and wf: "ob_wf s" and run: "sputc write_data c s = (Inr r, s')"
  shows "r = Some c \<and> ob_wf s' \<and> accepted wire s' = accepted wire s @ [c] \<and> obuf.more s' = obuf.more s"
proof -
  obtain s1 where s1: "ob_store c s = (Inr (), s1)" "pending s1 = pending s @ [c]"
    "ob_sink s1 = ob_sink s" "length (ob_buf s1) = BufferSizeV" "ob_pptr s1 = Suc (ob_pptr s)"
    "obuf.more s1 = obuf.more s"
    using ob_store_run [OF wf] by blast
  show ?thesis
  proof (cases "ob_pptr s < put_area")
    case True
    with run s1 have "r = Some c" "s' = s1" by (auto simp: sputc_def bindE_def ret_def)
    with s1 True show ?thesis by (simp add: ob_wf_def accepted_def)
  next
    case False
    from run False s1 obtain r0 where sync: "ob_sync write_data s1 = (Inr r0, s')"
      and r: "r = (if r0 = 0 then Some c else None)"
      by (auto simp: sputc_def ob_overflow_def bindE_def ret_def split: prod.splits sum.splits)
    from sync obtain n where
      w: "write_data (pending s1) (ob_sink s1) = (Inr n, ob_sink s')"
      and s': "r0 = 0" "ob_pptr s' = 0" "ob_buf s' = ob_buf s1" "obuf.more s' = obuf.more s1"
      by (auto simp: ob_sync_def Let_def pending_def split: prod.splits sum.splits)
    from sink_ok [OF g w] s' s1 r show ?thesis
      by (simp add: ob_wf_def accepted_def pending_def)
  qed
qed

lemma sputn_ok:
  assumes good and "ob_wf s" and "sputn write_data bs s = (Inr n, s')"
  shows "n = length bs \<and> ob_wf s' \<and> accepted wire s' = accepted wire s @ bs \<and> obuf.more s' = obuf.more s"
  using assms
proof (induction bs arbitrary: s n)
  case Nil
  then show ?case by (simp add: ret_def)
next
  case (Cons c cs)
  from Cons.prems(3) obtain r s1 where c: "sputc write_data c s = (Inr r, s1)"
    and rest: "(case r of None \<Rightarrow> ret 0
                | Some _ \<Rightarrow> bindE (sputn write_data cs) (\<lambda>n. ret (Suc n))) s1 = (Inr n, s')"
    by (auto simp: bindE_eq_Inr)
  note sc = sputc_ok [OF Cons.prems(1,2) c]
  from rest sc obtain m where "sputn write_data cs s1 = (Inr m, s')" "n = Suc m"
    by (auto simp: bindE_eq_Inr ret_def)
  with Cons.IH [of s1 m] Cons.prems(1) sc show ?case by simp
qed

text \<open>When the sink throws, the wire holds a first part of what was accepted, and no other byte.\<close>

lemma ob_sync_err_prefix:
  assumes good and "ob_sync write_data s = (Inl e, s')"
  shows "prefix (wire (ob_sink s')) (accepted wire s)"
  using ob_sync_err [OF assms] by (auto simp: accepted_def take_is_prefix)

lemma sputc_err:
  assumes g: good and wf: "ob_wf s" and run: "sputc write_data c s = (Inl e, s')"
  shows "prefix (wire (ob_sink s')) (accepted wire s @ [c])"
proof -
  obtain s1 where s1: "ob_store c s = (Inr (), s1)" "pending s1 = pending s @ [c]" "ob_sink s1 = ob_sink s"
    using ob_store_run [OF wf] by blast
  with run have "ob_sync write_data s1 = (Inl e, s')"
    by (auto simp: sputc_def ob_overflow_def bindE_def ret_def split: if_splits prod.splits sum.splits)
  from ob_sync_err_prefix [OF g this] s1 show ?thesis by (simp add: accepted_def)
qed

lemma sputn_err:
  assumes good and "ob_wf s" and "sputn write_data bs s = (Inl e, s')"
  shows "prefix (wire (ob_sink s')) (accepted wire s @ bs)"
  using assms
proof (induction bs arbitrary: s)
  case Nil
  then show ?case by (simp add: ret_def)
next
  case (Cons c cs)
  obtain r s1 where c: "sputc write_data c s = (r, s1)" by fastforce
  show ?case
  proof (cases r)
    case (Inl e')
    with Cons.prems(3) c have "s' = s1" by (simp add: bindE_def)
    with sputc_err [OF Cons.prems(1,2) c [unfolded Inl]] prefix_prefix [of _ "accepted wire s @ [c]" cs]
    show ?thesis by simp
  next
    case (Inr q)
    note sc = sputc_ok [OF Cons.prems(1,2) c [unfolded Inr]]
    with Cons.prems(3) c Inr have "sputn write_data cs s1 = (Inl e, s')"
      by (auto simp: bindE_eq_Inl ret_def bindE_def split: sum.splits prod.splits)
    with Cons.IH [of s1] Cons.prems(1) sc show ?thesis by simp
  qed
qed

end

section \<open>The sink of the front end\<close>

text \<open>
  \<open>StreamIO::write_data\<close>: one \<open>async_write\<close>, for which the coroutine waits; on a broken pipe the
  socket is shut down before the exception leaves.
\<close>

definition write_data :: "'w boost \<Rightarrow> 'w sink" where
  "write_data B bs w =
     (case b_async_write B w bs of
        ((ec, n), w') \<Rightarrow>
          if b_write_waits B w then (Inl Diverges, w')
          else if failed ec
          then (Inl (Sys_error (ec_value ec)),
                if ec_is ec = Broken_pipe then b_shutdown B w' else w')
          else (Inr n, w'))"

interpretation stream_sink: bufferer_sink "write_data B" wire "transport_contract B wire"
  for B :: "'w boost" and wire :: "'w \<Rightarrow> bytes"
proof
  fix bs w n w'
  assume "transport_contract B wire" and "write_data B bs w = (Inr n, w')"
  then show "n = length bs \<and> wire w' = wire w @ bs"
    by (auto simp: write_data_def dest: transport_contractD(1) write_contract_ok
          split: prod.splits if_splits)
next
  fix bs w e w'
  assume t: "transport_contract B wire" and "write_data B bs w = (Inl e, w')"
  then obtain ec n v where v: "b_async_write B w bs = ((ec, n), v)" "failed ec \<or> b_write_waits B w"
    and w': "w' = v \<or> w' = b_shutdown B v"
    by (auto simp: write_data_def split: prod.splits if_splits)
  from w' have "wire w' = wire v" using transport_contractD(2) [OF t] by auto
  with write_contract_err [OF transport_contractD(1) [OF t] v]
  show "\<exists>k. wire w' = wire w @ take k bs"
    by simp
qed

end
