(* ===== verification/RestClient.thy ===== *)
theory RestClient
  imports Bufferer
begin

text \<open>
  \<open>boost_cpp/httpserver/client.hpp\<close>, the interface \<open>RestfulClient\<close> and the forwarding decorator
  \<open>DecoratedRestfulClient\<close>. The class with its virtual functions is a record of operations on
  the object's state \<open>'s\<close> (its virtual table); a decorator over it works on the pair of its
  own fields and the decoratee's state, and a filter class is the decorator's table with the
  functions it overrides replaced. The locale \<open>counted_client\<close> is the interface's promise on
  return values ("returns number of bytes generated for a direct client").
\<close>

section \<open>The interface\<close>

record 's restful_client =
  rc_send_100_continue :: "('s, u64) action"
  rc_send_status :: "int \<Rightarrow> string \<Rightarrow> ('s, u64) action"
  rc_send_header :: "string \<Rightarrow> string \<Rightarrow> ('s, u64) action"
  rc_send_content_length :: "u64 \<Rightarrow> ('s, u64) action"
  rc_send_chunked_transfer_encoding :: "('s, u64) action"
  rc_complete_header :: "('s, u64) action"
  rc_recv_body :: "nat \<Rightarrow> ('s, bytes) action"
  rc_send_body :: "bytes \<Rightarrow> ('s, u64) action"
  rc_flush :: "('s, unit) action"
  rc_complete_request :: "('s, u64) action"

text \<open>The base class's own \<open>send_chunked_transfer_encoding\<close>, a null implementation.\<close>

definition RestfulClient_send_chunked_transfer_encoding :: "('s, u64) action" where
  "RestfulClient_send_chunked_transfer_encoding = ret 0"

section \<open>The decorator\<close>

text \<open>A call on the decoratee, from the state of the decorator.\<close>

definition via :: "('s, 'a) action \<Rightarrow> ('f \<times> 's, 'a) action" where
  "via op fs = (case op (snd fs) of (r, s') \<Rightarrow> (r, (fst fs, s')))"

definition DecoratedRestfulClient :: "'s restful_client \<Rightarrow> ('f \<times> 's) restful_client" where
  "DecoratedRestfulClient c =
     \<lparr>rc_send_100_continue = via (rc_send_100_continue c),
      rc_send_status = (\<lambda>status status_name. via (rc_send_status c status status_name)),
      rc_send_header = (\<lambda>name value. via (rc_send_header c name value)),
      rc_send_content_length = (\<lambda>len. via (rc_send_content_length c len)),
      rc_send_chunked_transfer_encoding = via (rc_send_chunked_transfer_encoding c),
      rc_complete_header = via (rc_complete_header c),
      rc_recv_body = (\<lambda>len. via (rc_recv_body c len)),
      rc_send_body = (\<lambda>buf. via (rc_send_body c buf)),
      rc_flush = via (rc_flush c),
      rc_complete_request = via (rc_complete_request c)\<rparr>"

lemma via_run: "via op (f, s) = (fst (op s), (f, snd (op s)))"
  by (simp add: via_def split: prod.splits)

lemma via_Inr [simp]:
  "via op fs = (Inr x, fs') \<longleftrightarrow> fst fs' = fst fs \<and> op (snd fs) = (Inr x, snd fs')"
  by (cases fs') (auto simp: via_def split: prod.splits)

lemma via_Inl [simp]:
  "via op fs = (Inl e, fs') \<longleftrightarrow> fst fs' = fst fs \<and> op (snd fs) = (Inl e, snd fs')"
  by (cases fs') (auto simp: via_def split: prod.splits)

section \<open>The calls that produce output\<close>

datatype rcall =
    Send_100_continue
  | Send_status int string
  | Send_header string string
  | Send_content_length u64
  | Send_chunked_transfer_encoding
  | Complete_header
  | Send_body bytes
  | Complete_request

fun rc_send :: "'s restful_client \<Rightarrow> rcall \<Rightarrow> ('s, u64) action" where
  "rc_send c Send_100_continue = rc_send_100_continue c"
| "rc_send c (Send_status status status_name) = rc_send_status c status status_name"
| "rc_send c (Send_header name val) = rc_send_header c name val"
| "rc_send c (Send_content_length len) = rc_send_content_length c len"
| "rc_send c Send_chunked_transfer_encoding = rc_send_chunked_transfer_encoding c"
| "rc_send c Complete_header = rc_complete_header c"
| "rc_send c (Send_body buf) = rc_send_body c buf"
| "rc_send c Complete_request = rc_complete_request c"

text \<open>A sequence of calls, with what each returned; the first exception ends it.\<close>

fun rc_run :: "'s restful_client \<Rightarrow> rcall list \<Rightarrow> ('s, u64 list) action" where
  "rc_run c [] = ret []"
| "rc_run c (k # ks) =
     bindE (rc_send c k) (\<lambda>n. bindE (rc_run c ks) (\<lambda>ns. ret (n # ns)))"

lemma rc_run_Cons_ok:
  "rc_run c (k # ks) s = (Inr ms, s') \<longleftrightarrow>
     (\<exists>n s1 ns. rc_send c k s = (Inr n, s1) \<and> rc_run c ks s1 = (Inr ns, s') \<and> ms = n # ns)"
  by (auto simp: bindE_eq_Inr ret_def)

lemma rc_run_append:
  "rc_run c (ks @ ls) =
     bindE (rc_run c ks) (\<lambda>ns. bindE (rc_run c ls) (\<lambda>ms. ret (ns @ ms)))"
proof (induction ks)
  case Nil
  show ?case by (rule ext) (simp add: bindE_def ret_def split: prod.splits sum.splits)
next
  case (Cons k ks)
  then show ?case by (simp add: bindE_assoc)
qed

lemma rc_send_decorated: "rc_send (DecoratedRestfulClient c) k = via (rc_send c k)"
  by (cases k) (simp_all add: DecoratedRestfulClient_def)

section \<open>The promise on return values\<close>

text \<open>
  \<open>total s\<close> counts the bytes generated so far. A call that returns normally returns how many it
  added, as a \<open>size_t\<close>.
\<close>

locale counted_client =
  fixes c :: "'s restful_client"
    and total :: "'s \<Rightarrow> nat"
    and inv :: "'s \<Rightarrow> bool"
  assumes counts:
    "inv s \<Longrightarrow> rc_send c k s = (Inr n, s') \<Longrightarrow>
       inv s' \<and> total s \<le> total s' \<and> n = of_nat (total s' - total s)"
begin

lemma run_counts:
  "inv s \<Longrightarrow> rc_run c ks s = (Inr ns, s') \<Longrightarrow>
     inv s' \<and> total s \<le> total s' \<and> sum_list ns = of_nat (total s' - total s)"
proof (induction ks arbitrary: s ns)
  case Nil
  then show ?case by (simp add: ret_def)
next
  case (Cons k ks)
  from Cons.prems(2) obtain n s1 ms where
    k: "rc_send c k s = (Inr n, s1)" and ks: "rc_run c ks s1 = (Inr ms, s')" and "ns = n # ms"
    by (auto simp only: rc_run_Cons_ok)
  moreover note counts [OF Cons.prems(1) k]
  moreover from this Cons.IH [OF _ ks] have
    "inv s' \<and> total s1 \<le> total s' \<and> sum_list ms = of_nat (total s' - total s1)" by blast
  ultimately show ?case by (auto simp flip: of_nat_add)
qed

lemma decorated_counts:
  "counted_client (DecoratedRestfulClient c) (\<lambda>fs. total (snd fs)) (\<lambda>fs. inv (snd fs))"
  by unfold_locales (use counts in \<open>auto simp: rc_send_decorated\<close>)

end

section \<open>The promise of returning\<close>

text \<open>\<open>runs I m\<close>: from any state with \<open>I\<close> the action returns normally, and \<open>I\<close> holds again.\<close>

definition runs :: "('s \<Rightarrow> bool) \<Rightarrow> ('s, 'a) action \<Rightarrow> bool" where
  "runs I m \<longleftrightarrow> (\<forall>s. I s \<longrightarrow> (\<exists>r s'. m s = (Inr r, s') \<and> I s'))"

lemma runs_ret: "runs I (ret x)"
  by (simp add: runs_def ret_def)

lemma runs_bind: "runs I m \<Longrightarrow> (\<And>x. runs I (f x)) \<Longrightarrow> runs I (bindE m f)"
  unfolding runs_def bindE_def by fastforce

lemma runs_via: "runs I m \<Longrightarrow> runs (\<lambda>fs. I (snd fs)) (via m)"
  unfolding runs_def via_def by fastforce

lemma runs_pairI:
  assumes "\<And>f s. I s \<Longrightarrow> \<exists>r f' s'. m (f, s) = (Inr r, (f', s')) \<and> I s'"
  shows "runs (\<lambda>fs. I (snd fs)) m"
  unfolding runs_def
proof (intro allI impI)
  fix fs :: "'a \<times> 'b"
  assume i: "I (snd fs)"
  show "\<exists>r s'. m fs = (Inr r, s') \<and> I (snd s')"
    using assms [OF i, of "fst fs"] by auto
qed

lemma runs_pairD:
  assumes "runs (\<lambda>fs. I (snd fs)) m" and "I s"
  shows "\<exists>r f' s'. m (f, s) = (Inr r, (f', s')) \<and> I s'"
proof -
  from assms have "\<exists>r fs'. m (f, s) = (Inr r, fs') \<and> I (snd fs')" unfolding runs_def by simp
  then show ?thesis by (metis prod.collapse)
qed

lemma runs_state:
  assumes "runs (\<lambda>fs. I (snd fs)) m"
  shows "runs (\<lambda>fs. I (snd fs)) (\<lambda>fs. m (g fs, snd fs))"
  using runs_pairD [OF assms] by (intro runs_pairI) simp

lemma runs_cases:
  assumes "runs I m" and "runs I n"
  shows "runs I (\<lambda>s. if P s then m s else n s)"
  using assms unfolding runs_def by simp

text \<open>
  The calls with arguments within the code's own limits: a status line that fits its array, and
  a body whose length is a \<open>size_t\<close>.
\<close>

definition status_line :: "int \<Rightarrow> string \<Rightarrow> string" where
  "status_line status status_name = ''HTTP/1.1 '' @ dec_int status @ '' '' @ status_name @ CRLF"

definition STATUS_BUF_SIZE :: nat where
  "STATUS_BUF_SIZE = 128"

fun ok_call :: "rcall \<Rightarrow> bool" where
  "ok_call (Send_status status name) \<longleftrightarrow> length (status_line status name) < STATUS_BUF_SIZE"
| "ok_call (Send_body buf) \<longleftrightarrow> length buf < 2 ^ 64"
| "ok_call _ \<longleftrightarrow> True"

locale total_client =
  fixes c :: "'s restful_client"
    and I :: "'s \<Rightarrow> bool"
  assumes total: "ok_call k \<Longrightarrow> runs I (rc_send c k)"
begin

lemma run_total:
  "\<forall>k \<in> set ks. ok_call k \<Longrightarrow> I s \<Longrightarrow> \<exists>ns s'. rc_run c ks s = (Inr ns, s') \<and> I s'"
proof (induction ks arbitrary: s)
  case Nil
  then show ?case by (simp add: ret_def)
next
  case (Cons k ks)
  with total [of k] obtain n s1 where "rc_send c k s = (Inr n, s1)" and "I s1"
    unfolding runs_def by fastforce
  moreover have "\<exists>ns s'. rc_run c ks s1 = (Inr ns, s') \<and> I s'"
    using Cons.IH [OF _ \<open>I s1\<close>] Cons.prems(1) by simp
  ultimately show ?case by (auto simp: bindE_def ret_def)
qed

end

end
