(* ===== verification/ClientIO.thy ===== *)
theory ClientIO
  imports RestClient
begin

text \<open>
  \<open>boost_cpp/httpserver/asio_client.cc\<close> and \<open>asio_client.hpp\<close>: the class \<open>ClientIO\<close>, the
  lowest implementation of \<open>RestfulClient\<close>, with \<open>StreamIO\<close> of \<open>asio_frontend.cc\<close>, which
  completes it with the socket. The object is the output buffer \<open>txbuf\<close> extended by the
  CGI-style environment; the parser is part of the world. \<open>init_env\<close> builds the environment from
  the request, the \<open>send\<close> functions format a response into the buffer.
\<close>

section \<open>The object\<close>

record 'w clientio = "'w obuf" +
  cl_env_map :: "string \<rightharpoonup> string"
  cl_is_ssl :: bool
  cl_local_port :: nat
  cl_remote_addr :: string

definition ClientIO_new :: "char list \<Rightarrow> bool \<Rightarrow> nat \<Rightarrow> string \<Rightarrow> 'w \<Rightarrow> 'w clientio" where
  "ClientIO_new garbage is_ssl local_port remote_addr w =
     \<lparr>ob_buf = garbage, ob_pptr = 0, ob_sink = w,
      cl_env_map = Map.empty, cl_is_ssl = is_ssl, cl_local_port = local_port,
      cl_remote_addr = remote_addr\<rparr>"

section \<open>The environment\<close>

definition ascii_toupper :: "char \<Rightarrow> char" where
  "ascii_toupper c =
     (let k = of_char c :: nat in if 97 \<le> k \<and> k \<le> 122 then char_of (k - 32) else c)"

definition env_char :: "char \<Rightarrow> char" where
  "env_char c = (if c = CHR ''-'' then CHR ''_'' else ascii_toupper c)"

text \<open>The key of a header: \<open>buf\<close> is read as a C string, so up to its first NUL.\<close>

definition env_name :: "string \<Rightarrow> string" where
  "env_name name = takeWhile (\<lambda>c. c \<noteq> NUL) (''HTTP_'' @ map env_char name)"

definition env_header :: "(string \<rightharpoonup> string) \<Rightarrow> header \<Rightarrow> (string \<rightharpoonup> string)" where
  "env_header m h =
     (case h of (fld, name, val) \<Rightarrow>
        if fld = Content_length then m(''CONTENT_LENGTH'' \<mapsto> val)
        else if fld = Content_type then m(''CONTENT_TYPE'' \<mapsto> val)
        else m(env_name name \<mapsto> val))"

text \<open>\<open>uri.find('?')\<close>, \<open>uri.substr(0, pos)\<close> and \<open>uri.substr(pos + 1)\<close>.\<close>

fun find_char :: "char \<Rightarrow> string \<Rightarrow> nat option" where
  "find_char c [] = None"
| "find_char c (x # xs) = (if x = c then Some 0 else map_option Suc (find_char c xs))"

definition env_uri :: "string \<Rightarrow> (string \<rightharpoonup> string) \<Rightarrow> (string \<rightharpoonup> string)" where
  "env_uri target m =
     (case find_char CHR ''?'' target of
        None \<Rightarrow> m(''SCRIPT_URI'' \<mapsto> target)
      | Some pos \<Rightarrow> m(''QUERY_STRING'' \<mapsto> drop (pos + 1) target, ''SCRIPT_URI'' \<mapsto> take pos target))"

definition init_env :: "request \<Rightarrow> ('w clientio, int) action" where
  "init_env rq s =
     (let m0 = foldl env_header (cl_env_map s) (rq_fields rq);
          major = rq_version rq div 10;
          minor = rq_version rq mod 10;
          m1 = m0(''HTTP_VERSION'' \<mapsto> dec major @ ''.'' @ dec minor,
                  ''REQUEST_METHOD'' \<mapsto> rq_method_string rq);
          m2 = env_uri (rq_target rq) m1;
          m3 = m2(''REQUEST_URI'' \<mapsto> rq_target rq);
          port_buf = take 15 (dec (cl_local_port s));
          m4 = m3(''SERVER_PORT'' \<mapsto> port_buf);
          m5 = (if cl_is_ssl s then m4(''SERVER_PORT_SECURE'' \<mapsto> port_buf) else m4);
          m6 = m5(''REMOTE_ADDR'' \<mapsto> cl_remote_addr s)
      in (Inr 0, s\<lparr>cl_env_map := m6\<rparr>))"

definition get_val :: "string \<Rightarrow> 'w clientio \<Rightarrow> string option" where
  "get_val name s = cl_env_map s name"

section \<open>Sending\<close>

definition cl_sputn :: "'w boost \<Rightarrow> bytes \<Rightarrow> ('w clientio, u64) action" where
  "cl_sputn B bs = bindE (sputn (write_data B) bs) (\<lambda>n. ret (of_nat n))"

definition cl_flush :: "'w boost \<Rightarrow> ('w clientio, unit) action" where
  "cl_flush B = bindE (ob_sync (write_data B)) (\<lambda>_. ret ())"

definition cl_send_status :: "'w boost \<Rightarrow> int \<Rightarrow> string \<Rightarrow> ('w clientio, u64) action" where
  "cl_send_status B status status_name =
     bindE (formatE STATUS_BUF_SIZE (status_line status status_name)) (cl_sputn B)"

definition continue_line :: string where
  "continue_line = ''HTTP/1.1 100 CONTINUE'' @ CRLF @ CRLF"

definition cl_send_100_continue :: "'w boost \<Rightarrow> ('w clientio, u64) action" where
  "cl_send_100_continue B =
     bindE (cl_sputn B continue_line) (\<lambda>sent.
     bindE (cl_flush B) (\<lambda>_. ret sent))"

definition header_line :: "string \<Rightarrow> string \<Rightarrow> string" where
  "header_line name val = name @ '': '' @ val @ CRLF"

definition cl_send_header :: "'w boost \<Rightarrow> string \<Rightarrow> string \<Rightarrow> ('w clientio, u64) action" where
  "cl_send_header B name val =
     bindE (cl_sputn B name) (\<lambda>a.
     bindE (cl_sputn B '': '') (\<lambda>b.
     bindE (cl_sputn B val) (\<lambda>c.
     bindE (cl_sputn B CRLF) (\<lambda>d. ret (a + b + c + d)))))"

definition content_length_line :: "u64 \<Rightarrow> string" where
  "content_length_line len = ''Content-Length: '' @ dec (unat len) @ CRLF"

definition CONLEN_BUF_SIZE :: nat where
  "CONLEN_BUF_SIZE = 128"

definition cl_send_content_length :: "'w boost \<Rightarrow> u64 \<Rightarrow> ('w clientio, u64) action" where
  "cl_send_content_length B len =
     bindE (formatE CONLEN_BUF_SIZE (content_length_line len)) (cl_sputn B)"

text \<open>\<open>strftime\<close> with "Date: %a, %d %b %Y %H:%M:%S %Z" in the C locale, for a time in GMT.\<close>

definition name_of :: "string list \<Rightarrow> nat \<Rightarrow> string" where
  "name_of names k = (if k < length names then names ! k else ''?'')"

definition day_names :: "string list" where
  "day_names = [''Sun'', ''Mon'', ''Tue'', ''Wed'', ''Thu'', ''Fri'', ''Sat'']"

definition month_names :: "string list" where
  "month_names = [''Jan'', ''Feb'', ''Mar'', ''Apr'', ''May'', ''Jun'',
     ''Jul'', ''Aug'', ''Sep'', ''Oct'', ''Nov'', ''Dec'']"

definition two_digits :: "nat \<Rightarrow> string" where
  "two_digits n = (if n < 10 then CHR ''0'' # dec n else dec n)"

definition date_line :: "tm \<Rightarrow> string" where
  "date_line t =
     ''Date: '' @ name_of day_names (tm_wday t) @ '', '' @ two_digits (tm_mday t) @ '' '' @
     name_of month_names (tm_mon t) @ '' '' @ dec (tm_year t + 1900) @ '' '' @
     two_digits (tm_hour t) @ '':'' @ two_digits (tm_min t) @ '':'' @ two_digits (tm_sec t) @
     '' GMT'' @ CRLF"

definition TIME_BUF_SIZE :: nat where
  "TIME_BUF_SIZE = 128"

text \<open>\<open>None\<close> when the function returns 0: no time, or a text that does not fit.\<close>

definition dump_date_header :: "tm option \<Rightarrow> string option" where
  "dump_date_header now =
     (case now of
        None \<Rightarrow> None
      | Some t \<Rightarrow> if length (date_line t) < TIME_BUF_SIZE then Some (date_line t) else None)"

definition cl_now :: "'w boost \<Rightarrow> ('w clientio, tm option) action" where
  "cl_now B s = (case b_now B (ob_sink s) of (t, w) \<Rightarrow> (Inr t, s\<lparr>ob_sink := w\<rparr>))"

definition connection_line :: "bool \<Rightarrow> string" where
  "connection_line keep =
     (if keep then ''Connection: Keep-Alive'' @ CRLF else ''Connection: close'' @ CRLF)"

definition cl_keep_alive :: "'w boost \<Rightarrow> ('w clientio, bool) action" where
  "cl_keep_alive B s = (Inr (b_keep_alive B (ob_sink s)), s)"

definition cl_complete_header :: "'w boost \<Rightarrow> ('w clientio, u64) action" where
  "cl_complete_header B =
     bindE (cl_now B) (\<lambda>now.
     bindE (case dump_date_header now of None \<Rightarrow> ret 0 | Some l \<Rightarrow> cl_sputn B l) (\<lambda>a.
     bindE (cl_keep_alive B) (\<lambda>keep.
     bindE (cl_sputn B (connection_line keep)) (\<lambda>b.
     bindE (cl_sputn B CRLF) (\<lambda>c.
     bindE (cl_flush B) (\<lambda>_. ret (a + b + c)))))))"

text \<open>\<open>send_body\<close> goes to the socket directly, past the buffer.\<close>

definition cl_send_body :: "'w boost \<Rightarrow> bytes \<Rightarrow> ('w clientio, u64) action" where
  "cl_send_body B buf s =
     (case write_data B buf (ob_sink s) of
        (Inl e, w) \<Rightarrow> (Inl e, s\<lparr>ob_sink := w\<rparr>)
      | (Inr n, w) \<Rightarrow> (Inr (of_nat n), s\<lparr>ob_sink := w\<rparr>))"

definition cl_complete_request :: "('w clientio, u64) action" where
  "cl_complete_request = ret 0"

section \<open>Receiving\<close>

text \<open>
  The loop of \<open>StreamIO::recv_body\<close>, \<open>None\<close> when it never ends or waits for bytes that never come. \<open>got\<close> is what has been stored
  in the caller's buffer and \<open>remaining\<close> is \<open>body_remaining.size\<close>.
\<close>

partial_function (option) recv_loop ::
    "'w boost \<Rightarrow> bytes \<Rightarrow> nat \<Rightarrow> 'w \<Rightarrow> ((exn + bytes) \<times> 'w) option" where
  "recv_loop B got remaining w =
     (if 0 < remaining \<and> \<not> b_is_done B w then
        (case b_read_some B w remaining of
           ((ec, bs), w') \<Rightarrow>
             if b_read_waits B w then None
             else if ec_is ec = Need_buffer then Some (Inr (got @ bs), w')
             else if failed ec then Some (Inl (Sys_error (ec_value ec)), w')
             else recv_loop B (got @ bs) (remaining - length bs) w')
      else Some (Inr got, w))"

definition cl_recv_body :: "'w boost \<Rightarrow> nat \<Rightarrow> ('w clientio, bytes) action" where
  "cl_recv_body B len s =
     (case recv_loop B [] len (ob_sink s) of
        None \<Rightarrow> (Inl Diverges, s)
      | Some (r, w) \<Rightarrow> (r, s\<lparr>ob_sink := w\<rparr>))"

text \<open>
  The loop ends, on a parser that keeps to its documentation, and never stores more than the
  caller's buffer holds.
\<close>

lemma recv_loop_returns:
  assumes "read_contract B" and "progress_contract B" and c: "completes B"
  shows "\<exists>r w'. recv_loop B got k w = Some (r, w') \<and>
           (\<forall>bs. r = Inr bs \<longrightarrow> (\<exists>cs. bs = got @ cs \<and> length cs \<le> k))"
proof (induction "k + (if b_is_done B w then 0 else 1)" arbitrary: got k w rule: less_induct)
  case less
  show ?case
  proof (cases "0 < k \<and> \<not> b_is_done B w")
    case False
    then show ?thesis by (subst recv_loop.simps) auto
  next
    case True
    obtain ec bs w1 where rd: "b_read_some B w k = ((ec, bs), w1)" by (metis surj_pair)
    have len: "length bs \<le> k" using assms(1) rd unfolding read_contract_def by blast
    show ?thesis
    proof (cases "ec_is ec = Need_buffer \<or> failed ec")
      case True': True
      with True rd len c show ?thesis
        by (subst recv_loop.simps) auto
    next
      case ok: False
      with True rd assms(2) have "bs \<noteq> [] \<or> b_is_done B w1" unfolding progress_contract_def by blast
      with len True have dec: "k - length bs + (if b_is_done B w1 then 0 else 1) <
          k + (if b_is_done B w then 0 else 1)" by (cases bs) auto
      have "recv_loop B got k w = recv_loop B (got @ bs) (k - length bs) w1"
        using True rd ok c by (subst recv_loop.simps) simp
      moreover obtain r w' where r: "recv_loop B (got @ bs) (k - length bs) w1 = Some (r, w')"
        and b: "\<forall>ds. r = Inr ds \<longrightarrow> (\<exists>cs. ds = (got @ bs) @ cs \<and> length cs \<le> k - length bs)"
        using less.hyps [OF dec, of "got @ bs"] by blast
      moreover have "\<exists>cs. ds = got @ cs \<and> length cs \<le> k" if ds: "r = Inr ds" for ds
      proof -
        from b ds obtain cs where "ds = (got @ bs) @ cs" "length cs \<le> k - length bs" by blast
        with len show ?thesis by (intro exI [where x = "bs @ cs"]) simp
      qed
      ultimately show ?thesis by auto
    qed
  qed
qed

text \<open>Receiving puts nothing on the wire.\<close>

lemma recv_loop_wire:
  assumes t: "transport_contract B wire" and ret: "recv_loop B got k w = Some rw"
  shows "wire (snd rw) = wire w"
proof -
  have "transport_contract B wire \<longrightarrow> wire (snd rw) = wire w"
  proof (rule recv_loop.raw_induct [where P = "\<lambda>B got k w rw. transport_contract B wire \<longrightarrow>
      wire (snd rw) = wire w", OF _ ret], intro impI)
    fix f :: "'a boost \<Rightarrow> bytes \<Rightarrow> nat \<Rightarrow> 'a \<Rightarrow> ((exn + bytes) \<times> 'a) option" and B got k w y
    assume IH: "\<And>B got k w y. f B got k w = Some y \<Longrightarrow> transport_contract B wire \<longrightarrow> wire (snd y) = wire w"
      and eq: "(if 0 < k \<and> \<not> b_is_done B w then
            (case b_read_some B w k of
               ((ec, bs), w') \<Rightarrow>
                 if b_read_waits B w then None
                 else if ec_is ec = Need_buffer then Some (Inr (got @ bs), w')
                 else if failed ec then Some (Inl (Sys_error (ec_value ec)), w')
                 else f B (got @ bs) (k - length bs) w')
          else Some (Inr got, w)) = Some y"
      and t: "transport_contract B wire"
    obtain ec bs w1 where rd: "b_read_some B w k = ((ec, bs), w1)" by (metis surj_pair)
    with transportD_read [OF t, of w k] have w1: "wire w1 = wire w" by simp
    with eq rd IH [of B "got @ bs" "k - length bs" w1 y] t show "wire (snd y) = wire w"
      by (auto split: if_splits)
  qed
  with t show ?thesis by blast
qed

section \<open>The virtual table\<close>

definition ClientIO :: "'w boost \<Rightarrow> 'w clientio restful_client" where
  "ClientIO B =
     \<lparr>rc_send_100_continue = cl_send_100_continue B,
      rc_send_status = cl_send_status B,
      rc_send_header = cl_send_header B,
      rc_send_content_length = cl_send_content_length B,
      rc_send_chunked_transfer_encoding = RestfulClient_send_chunked_transfer_encoding,
      rc_complete_header = cl_complete_header B,
      rc_recv_body = cl_recv_body B,
      rc_send_body = cl_send_body B,
      rc_flush = cl_flush B,
      rc_complete_request = cl_complete_request\<rparr>"

section \<open>The environment, specified\<close>

definition env_binding :: "header \<Rightarrow> string \<times> string" where
  "env_binding h =
     (case h of (fld, name, val) \<Rightarrow>
        (if fld = Content_length then ''CONTENT_LENGTH''
         else if fld = Content_type then ''CONTENT_TYPE''
         else env_name name, val))"

lemma env_header_binding: "env_header m h = m(fst (env_binding h) \<mapsto> snd (env_binding h))"
  by (cases h) (simp add: env_header_def env_binding_def)

lemma env_headers_map: "foldl env_header m hs = m ++ map_of (rev (map env_binding hs))"
proof (induction hs arbitrary: m)
  case (Cons h hs)
  then show ?case by (auto simp: env_header_binding [of m h] fun_eq_iff map_add_def split: option.splits)
qed simp

lemma env_name_prefix: "take 5 (env_name name) = ''HTTP_''"
  by (simp add: env_name_def)

text \<open>No header reaches a key outside the two content keys and those that start with \<open>HTTP_\<close>.\<close>

lemma env_binding_key:
  assumes "k = fst (env_binding h)"
  shows "k = ''CONTENT_LENGTH'' \<or> k = ''CONTENT_TYPE'' \<or> take 5 k = ''HTTP_''"
  using assms by (cases h) (auto simp: env_binding_def env_name_prefix)

lemma env_headers_other:
  assumes "take 5 k \<noteq> ''HTTP_''" and "k \<noteq> ''CONTENT_LENGTH''" and "k \<noteq> ''CONTENT_TYPE''"
  shows "foldl env_header m hs k = m k"
proof -
  have "k \<notin> fst ` set (map env_binding hs)"
  proof
    assume "k \<in> fst ` set (map env_binding hs)"
    then obtain h where "k = fst (env_binding h)" by auto
    from env_binding_key [OF this] assms show False by blast
  qed
  then have "map_of (rev (map env_binding hs)) k = None"
    by (simp add: map_of_eq_None_iff)
  then show ?thesis by (simp add: env_headers_map map_add_def)
qed

lemma find_char_None: "find_char c xs = None \<longleftrightarrow> c \<notin> set xs"
  by (induction xs) auto

lemma find_char_Some:
  "find_char c xs = Some i \<Longrightarrow> i < length xs \<and> xs ! i = c \<and> c \<notin> set (take i xs)"
  by (induction xs arbitrary: i) (auto split: if_splits)

lemma find_char_split:
  assumes "find_char c xs = Some i"
  shows "xs = take i xs @ c # drop (i + 1) xs"
proof -
  from find_char_Some [OF assms] have "i < length xs" and "xs ! i = c" by auto
  with id_take_nth_drop [of i xs] show ?thesis by simp
qed

section \<open>What a send puts on the stream\<close>

text \<open>
  \<open>sends wire m P\<close>: when \<open>m\<close> returns normally, the buffer is still well-formed, the rest of
  the object unchanged, and the bytes it added to the stream are related to the result by \<open>P\<close>.
\<close>

definition sends ::
    "('w \<Rightarrow> bytes) \<Rightarrow> ('w clientio, 'a) action \<Rightarrow> ('a \<Rightarrow> bytes \<Rightarrow> bool) \<Rightarrow> bool" where
  "sends wire m P \<longleftrightarrow>
     (\<forall>s r s'. ob_wf s \<longrightarrow> m s = (Inr r, s') \<longrightarrow>
        ob_wf s' \<and> obuf.more s' = obuf.more s \<and>
        (\<exists>bs. accepted wire s' = accepted wire s @ bs \<and> P r bs))"

lemma sendsD:
  assumes "sends wire m P" and "ob_wf s" and "m s = (Inr r, s')"
  shows "ob_wf s'" and "obuf.more s' = obuf.more s"
    and "\<exists>bs. accepted wire s' = accepted wire s @ bs \<and> P r bs"
  using assms unfolding sends_def by blast+

lemma sends_ret: "P x [] \<Longrightarrow> sends wire (ret x) P"
  by (simp add: sends_def ret_def)

lemma sends_bind:
  assumes m: "sends wire m P" and f: "\<And>r bs. P r bs \<Longrightarrow> sends wire (f r) (\<lambda>q cs. Q q (bs @ cs))"
  shows "sends wire (bindE m f) Q"
  unfolding sends_def
proof (intro allI impI)
  fix s q s'
  assume wf: "ob_wf s" and "bindE m f s = (Inr q, s')"
  then obtain r s1 where r: "m s = (Inr r, s1)" and q: "f r s1 = (Inr q, s')"
    by (auto simp: bindE_eq_Inr)
  from sendsD [OF m wf r] obtain bs where s1: "ob_wf s1" "obuf.more s1 = obuf.more s"
    "accepted wire s1 = accepted wire s @ bs" "P r bs" by blast
  from sendsD [OF f [OF s1(4)] s1(1) q] obtain cs where "ob_wf s'" "obuf.more s' = obuf.more s1"
    "accepted wire s' = accepted wire s1 @ cs" "Q q (bs @ cs)" by blast
  with s1 show "ob_wf s' \<and> obuf.more s' = obuf.more s \<and>
      (\<exists>bs. accepted wire s' = accepted wire s @ bs \<and> Q q bs)" by simp
qed

lemma sends_mono: "sends wire m P \<Longrightarrow> (\<And>r bs. P r bs \<Longrightarrow> Q r bs) \<Longrightarrow> sends wire m Q"
  unfolding sends_def by blast

text \<open>The result of a send that returns the count of exactly the bytes \<open>bs\<close>.\<close>

definition exactly :: "bytes \<Rightarrow> u64 \<Rightarrow> bytes \<Rightarrow> bool" where
  "exactly bs n cs \<longleftrightarrow> cs = bs \<and> n = of_nat (length bs)"


lemma sends_cl_sputn:
  assumes "transport_contract B wire"
  shows "sends wire (cl_sputn B bs) (exactly bs)"
  unfolding sends_def cl_sputn_def
  by (auto simp: bindE_eq_Inr ret_def exactly_def dest: stream_sink.sputn_ok [OF assms])

lemma sends_cl_flush:
  assumes "transport_contract B wire"
  shows "sends wire (cl_flush B) (\<lambda>_ bs. bs = [])"
  unfolding sends_def cl_flush_def
  by (auto simp: bindE_eq_Inr ret_def accepted_def dest: stream_sink.ob_sync_ok [OF assms])

lemma cl_flush_empties:
  assumes "transport_contract B wire" and "ob_wf s" and "cl_flush B s = (Inr r, s')"
  shows "pending s' = [] \<and> wire (ob_sink s') = accepted wire s"
  using assms unfolding cl_flush_def
  by (auto simp: bindE_eq_Inr ret_def dest: stream_sink.ob_sync_ok [OF assms(1)])

lemma sends_recv_body:
  assumes "transport_contract B wire"
  shows "sends wire (cl_recv_body B k) (\<lambda>_ bs. bs = [])"
  unfolding sends_def cl_recv_body_def
  using recv_loop_wire [OF assms]
  by (fastforce simp: ob_wf_def accepted_def pending_def split: option.splits prod.splits)

lemma sends_cl_keep_alive: "sends wire (cl_keep_alive B) (\<lambda>_ bs. bs = [])"
  by (simp add: sends_def cl_keep_alive_def)

lemma sends_cl_now:
  assumes "transport_contract B wire"
  shows "sends wire (cl_now B) (\<lambda>_ bs. bs = [])"
  unfolding sends_def cl_now_def
  using transport_contractD(3) [OF assms]
  by (auto simp: ob_wf_def accepted_def pending_def split: prod.splits) (metis snd_conv)

lemma sends_formatE:
  assumes "\<And>bs. formatted N full = Inr bs \<Longrightarrow> sends wire (f bs) P"
  shows "sends wire (bindE (formatE N full) f) P"
  using assms unfolding sends_def
  by (auto simp: bindE_eq_Inr formatE_def)

lemma sends_send_status:
  assumes "transport_contract B wire"
  shows "sends wire (cl_send_status B status status_name)
           (\<lambda>n bs. \<exists>b. formatted STATUS_BUF_SIZE (status_line status status_name) = Inr b \<and> exactly b n bs)"
  unfolding cl_send_status_def
  by (rule sends_formatE) (rule sends_mono [OF sends_cl_sputn [OF assms]], blast)

lemma content_length_line_fits: "length (content_length_line len) < CONLEN_BUF_SIZE"
proof -
  have "unat len < 2 ^ 64" using unsigned_less [of len, where ?'a = nat] by simp
  then have "unat len < 10 ^ 20" by simp
  then have "length (dec (unat len)) \<le> 20" by (simp add: dec_def print_base_length)
  then show ?thesis by (simp add: content_length_line_def CONLEN_BUF_SIZE_def)
qed

lemma sends_send_content_length:
  assumes "transport_contract B wire"
  shows "sends wire (cl_send_content_length B len) (exactly (content_length_line len))"
  unfolding cl_send_content_length_def
  by (simp add: sends_cl_sputn [OF assms] content_length_line_fits)

lemma sends_send_header:
  assumes "transport_contract B wire"
  shows "sends wire (cl_send_header B name val) (exactly (header_line name val))"
  unfolding cl_send_header_def
  by (intro sends_bind [OF sends_cl_sputn [OF assms]] sends_ret)
     (simp add: exactly_def header_line_def)

lemma sends_send_100_continue:
  assumes "transport_contract B wire"
  shows "sends wire (cl_send_100_continue B) (exactly continue_line)"
  unfolding cl_send_100_continue_def
  by (rule sends_bind [OF sends_cl_sputn [OF assms]], rule sends_bind [OF sends_cl_flush [OF assms]],
      rule sends_ret) simp

text \<open>The end of the header block for the time and the connection mode at hand.\<close>

definition header_tail :: "tm option \<Rightarrow> bool \<Rightarrow> string" where
  "header_tail now keep =
     (case dump_date_header now of None \<Rightarrow> [] | Some l \<Rightarrow> l) @ connection_line keep @ CRLF"

lemma sends_date:
  assumes "transport_contract B wire"
  shows "sends wire (case d of None \<Rightarrow> ret 0 | Some l \<Rightarrow> cl_sputn B l)
           (exactly (case d of None \<Rightarrow> [] | Some l \<Rightarrow> l))"
  by (cases d) (simp_all add: sends_cl_sputn [OF assms] sends_ret exactly_def)

lemma sends_complete_header:
  assumes "transport_contract B wire"
  shows "sends wire (cl_complete_header B) (\<lambda>n bs. \<exists>now keep. exactly (header_tail now keep) n bs)"
  unfolding cl_complete_header_def
  apply (rule sends_bind [OF sends_cl_now [OF assms]])
  apply (rule sends_bind [OF sends_date [OF assms]])
  apply (rule sends_bind [OF sends_cl_keep_alive])
  apply (rule sends_bind [OF sends_cl_sputn [OF assms]])
  apply (rule sends_bind [OF sends_cl_sputn [OF assms]])
  apply (rule sends_bind [OF sends_cl_flush [OF assms]])
  apply (rule sends_ret)
  subgoal for now _ a _ keep
    by (rule exI [where x = now], rule exI [where x = keep]) (auto simp: exactly_def header_tail_def)
  done

section \<open>The client as a counting client\<close>

lemma cl_send_body_counts:
  assumes "transport_contract B wire" and "ob_wf s" and "cl_send_body B buf s = (Inr n, s')"
  shows "ob_wf s' \<and> obuf.more s' = obuf.more s \<and> pending s' = pending s \<and>
         wire (ob_sink s') = wire (ob_sink s) @ buf \<and> n = of_nat (length buf)"
proof -
  from assms(3) obtain k w where w: "write_data B buf (ob_sink s) = (Inr k, w)"
    and "n = of_nat k" and "s' = s\<lparr>ob_sink := w\<rparr>"
    by (auto simp: cl_send_body_def split: prod.splits sum.splits)
  with stream_sink.sink_ok [OF assms(1) w] assms(2) show ?thesis
    by (simp add: ob_wf_def pending_def)
qed

text \<open>Every output call but \<open>send_body\<close>, which bypasses the buffer.\<close>

lemma sends_rc_send:
  assumes t: "transport_contract B wire" and "\<And>b. k \<noteq> Send_body b"
  shows "sends wire (rc_send (ClientIO B) k) (\<lambda>n bs. n = of_nat (length bs))"
proof (cases k)
  case Send_100_continue
  then show ?thesis
    by (auto simp: ClientIO_def exactly_def intro: sends_mono [OF sends_send_100_continue [OF t]])
next
  case (Send_status status status_name)
  then show ?thesis
    by (auto simp: ClientIO_def exactly_def intro: sends_mono [OF sends_send_status [OF t]])
next
  case (Send_header name val)
  then show ?thesis
    by (auto simp: ClientIO_def exactly_def intro: sends_mono [OF sends_send_header [OF t]])
next
  case (Send_content_length len)
  then show ?thesis
    by (auto simp: ClientIO_def exactly_def intro: sends_mono [OF sends_send_content_length [OF t]])
next
  case Complete_header
  then show ?thesis
    by (auto simp: ClientIO_def exactly_def intro: sends_mono [OF sends_complete_header [OF t]])
qed (use assms in \<open>auto simp: ClientIO_def RestfulClient_send_chunked_transfer_encoding_def
       cl_complete_request_def intro: sends_ret\<close>)

interpretation client_counts:
  counted_client "ClientIO B" "\<lambda>s. length (accepted wire s)"
    "\<lambda>s. transport_contract B wire \<and> ob_wf s"
  for B :: "'w boost" and wire :: "'w \<Rightarrow> bytes"
proof
  fix s :: "'w clientio" and k n s'
  assume inv: "transport_contract B wire \<and> ob_wf s" and run: "rc_send (ClientIO B) k s = (Inr n, s')"
  show "(transport_contract B wire \<and> ob_wf s') \<and>
        length (accepted wire s) \<le> length (accepted wire s') \<and>
        n = of_nat (length (accepted wire s') - length (accepted wire s))"
  proof (cases "\<exists>b. k = Send_body b")
    case True
    with inv run show ?thesis
      by (auto simp: ClientIO_def accepted_def dest!: cl_send_body_counts)
  next
    case False
    with sendsD [OF sends_rc_send _ run] inv show ?thesis by fastforce
  qed
qed

lemma complete_header_flushes:
  assumes "transport_contract B wire" and "ob_wf s" and "cl_complete_header B s = (Inr n, s')"
  shows "\<exists>now keep. wire (ob_sink s') = accepted wire s @ header_tail now keep"
proof -
  note t = assms(1)
  from sendsD(3) [OF sends_complete_header [OF t] assms(2,3)]
  obtain now keep where acc: "accepted wire s' = accepted wire s @ header_tail now keep"
    by (auto simp: exactly_def)
  from assms(3) obtain s1 a b c keep0 s2 s3 s4 where 1: "cl_now B s = (Inr a, s1)"
    and 2: "(case dump_date_header a of None \<Rightarrow> ret 0 | Some l \<Rightarrow> cl_sputn B l) s1 = (Inr b, s2)"
    and 3: "cl_sputn B (connection_line keep0) s2 = (Inr c, s3)"
    and 4: "\<exists>d. cl_sputn B CRLF s3 = (Inr d, s4)" and 5: "cl_flush B s4 = (Inr (), s')"
    by (auto simp: cl_complete_header_def bindE_eq_Inr ret_def cl_keep_alive_def)
  from 4 obtain d where 4: "cl_sputn B CRLF s3 = (Inr d, s4)" by blast
  note w1 = sendsD(1) [OF sends_cl_now [OF t] assms(2) 1]
  note w2 = sendsD(1) [OF sends_date [OF t] w1 2]
  note w3 = sendsD(1) [OF sends_cl_sputn [OF t] w2 3]
  note w4 = sendsD(1) [OF sends_cl_sputn [OF t] w3 4]
  from cl_flush_empties [OF t w4 5] have "pending s' = []" by simp
  with acc show ?thesis by (auto simp: accepted_def)
qed

section \<open>The client as a total client\<close>

text \<open>A transport whose writes complete and never fail.\<close>

definition reliable :: "'w boost \<Rightarrow> bool" where
  "reliable B \<longleftrightarrow>
     (\<forall>w bs. \<not> failed (fst (fst (b_async_write B w bs))) \<and> \<not> b_write_waits B w)"

lemma reliable_write:
  assumes "reliable B"
  shows "\<exists>n w'. write_data B bs w = (Inr n, w')"
proof -
  obtain ec n w' where w: "b_async_write B w bs = ((ec, n), w')" by (metis surj_pair)
  with assms have "\<not> failed ec" "\<not> b_write_waits B w" unfolding reliable_def by (metis fst_conv)+
  with w show ?thesis by (simp add: write_data_def)
qed

text \<open>On a reliable transport every action below returns; \<open>ob_wf\<close> is all it needs.\<close>

abbreviation returns :: "'w boost \<Rightarrow> ('w clientio, 'a) action \<Rightarrow> bool" where
  "returns B m \<equiv> runs (\<lambda>s. reliable B \<and> ob_wf s) m"

lemma returns_sputn: "returns B (cl_sputn B bs)"
  unfolding runs_def
proof (intro allI impI)
  fix s :: "'a clientio"
  assume i: "reliable B \<and> ob_wf s"
  obtain r s1 where r: "sputn (write_data B) bs s = (r, s1)" by fastforce
  have "\<not> isl r"
  proof
    assume "isl r"
    then obtain e where e: "r = Inl e" by (cases r) auto
    from sputn_only_sink_throws [OF conjunct2 [OF i] r [unfolded e]] obtain data w w'
      where "write_data B data w = (Inl e, w')" by blast
    with i reliable_write [of B data w] show False by auto
  qed
  moreover have "ob_wf s1"
    using sputn_wf [OF conjunct2 [OF i] r] calculation by auto
  ultimately show "\<exists>r s'. cl_sputn B bs s = (Inr r, s') \<and> reliable B \<and> ob_wf s'"
    using i r by (cases r) (auto simp: cl_sputn_def bindE_def ret_def)
qed

lemma returns_flush: "returns B (cl_flush B)"
  unfolding runs_def
proof (intro allI impI)
  fix s :: "'a clientio"
  assume i: "reliable B \<and> ob_wf s"
  from reliable_write [OF conjunct1 [OF i]] obtain n w'
    where "write_data B (take (ob_pptr s) (ob_buf s)) (ob_sink s) = (Inr n, w')" by blast
  with i show "\<exists>r s'. cl_flush B s = (Inr r, s') \<and> reliable B \<and> ob_wf s'"
    by (auto simp: cl_flush_def bindE_def ret_def ob_sync_def Let_def ob_wf_def)
qed

lemma returns_formatE:
  "length full < N \<Longrightarrow> (\<And>b. returns B (f b)) \<Longrightarrow> returns B (bindE (formatE N full) f)"
  by simp

lemma returns_now: "returns B (cl_now B)"
  by (auto simp: runs_def cl_now_def ob_wf_def split: prod.splits)

lemma returns_keep_alive: "returns B (cl_keep_alive B)"
  by (simp add: runs_def cl_keep_alive_def)

lemma returns_send_body: "returns B (cl_send_body B buf)"
  unfolding runs_def
proof (intro allI impI)
  fix s :: "'a clientio"
  assume i: "reliable B \<and> ob_wf s"
  from reliable_write [OF conjunct1 [OF this]] obtain n w'
    where "write_data B buf (ob_sink s) = (Inr n, w')" by blast
  with i show "\<exists>r s'. cl_send_body B buf s = (Inr r, s') \<and> reliable B \<and> ob_wf s'"
    by (simp add: cl_send_body_def ob_wf_def)
qed

lemmas returns_rules =
  runs_bind runs_ret returns_sputn returns_flush returns_now returns_keep_alive returns_send_body

lemma returns_complete_header: "returns B (cl_complete_header B)"
  unfolding cl_complete_header_def by (intro returns_rules) (simp_all add: returns_rules split: option.split)

interpretation client_total: total_client "ClientIO B" "\<lambda>s. reliable B \<and> ob_wf s"
  for B :: "'w boost"
proof
  fix k
  assume "ok_call k"
  then show "returns B (rc_send (ClientIO B) k)"
    by (cases k)
       (simp_all add: ClientIO_def cl_send_100_continue_def cl_send_status_def cl_send_header_def
          cl_send_content_length_def content_length_line_fits cl_complete_request_def
          RestfulClient_send_chunked_transfer_encoding_def returns_complete_header returns_rules)
qed

section \<open>Properties\<close>

text \<open>The environment of a fresh object after \<open>init_env\<close>.\<close>

definition request_env :: "request \<Rightarrow> bool \<Rightarrow> nat \<Rightarrow> string \<Rightarrow> string \<rightharpoonup> string" where
  "request_env rq ssl port addr =
     (\<lambda>k. get_val k (snd (init_env rq (ClientIO_new [] ssl port addr ()))))"

lemmas request_env_simps =
  request_env_def init_env_def Let_def get_val_def ClientIO_new_def env_uri_def

text \<open>
  C24: The request environment cannot be forged by header fields. After \<open>init_env\<close> on a fresh
  object the method, the target, the protocol version, the port and the peer address are the
  ones of the request line and of the connection, whatever header fields the request carries;
  \<open>SERVER_PORT_SECURE\<close> is present only on TLS and \<open>QUERY_STRING\<close> only when the target has a
  question mark; every other variable a header can set is the value of the last header field that
  maps to it.
\<close>
theorem init_env_not_forgeable:
  "request_env rq ssl port addr ''REQUEST_METHOD'' = Some (rq_method_string rq) \<and>
   request_env rq ssl port addr ''REQUEST_URI'' = Some (rq_target rq) \<and>
   request_env rq ssl port addr ''HTTP_VERSION'' =
     Some (dec (rq_version rq div 10) @ ''.'' @ dec (rq_version rq mod 10)) \<and>
   request_env rq ssl port addr ''SERVER_PORT'' = Some (take 15 (dec port)) \<and>
   request_env rq ssl port addr ''SERVER_PORT_SECURE'' =
     (if ssl then Some (take 15 (dec port)) else None) \<and>
   request_env rq ssl port addr ''REMOTE_ADDR'' = Some addr \<and>
   (request_env rq ssl port addr ''QUERY_STRING'' = None) = (CHR ''?'' \<notin> set (rq_target rq)) \<and>
   (\<forall>k. k = ''CONTENT_LENGTH'' \<or> k = ''CONTENT_TYPE'' \<or> take 5 k = ''HTTP_'' \<and> k \<noteq> ''HTTP_VERSION'' \<longrightarrow>
      request_env rq ssl port addr k = map_of (rev (map env_binding (rq_fields rq))) k)"
proof (intro conjI allI impI)
  fix k
  assume "k = ''CONTENT_LENGTH'' \<or> k = ''CONTENT_TYPE'' \<or> take 5 k = ''HTTP_'' \<and> k \<noteq> ''HTTP_VERSION''"
  then have "k \<notin> {''HTTP_VERSION'', ''REQUEST_METHOD'', ''QUERY_STRING'', ''SCRIPT_URI'', ''REQUEST_URI'',
      ''SERVER_PORT'', ''SERVER_PORT_SECURE'', ''REMOTE_ADDR''}"
    by auto
  then show "request_env rq ssl port addr k = map_of (rev (map env_binding (rq_fields rq))) k"
    by (auto simp: request_env_simps env_headers_map map_add_def split: option.splits)
qed (auto simp: request_env_simps env_headers_other find_char_None [symmetric] split: option.splits)

text \<open>The witness: a request that tries to forge the peer address and the version.\<close>

definition forging_request :: request where
  "forging_request =
     \<lparr>rq_verb = Get, rq_method_string = ''GET'', rq_target = ''/a?b=1'', rq_version = 11,
      rq_fields = [(Other_field, ''Version'', ''9.9''), (Other_field, ''remote-addr'', ''1.2.3.4''),
                   (Other_field, ''X-Id'', ''1''), (Other_field, ''x-id'', ''2'')]\<rparr>"

theorem init_env_not_forgeable_witness:
  "request_env forging_request False 8888 ''10.0.0.1'' ''REMOTE_ADDR'' = Some ''10.0.0.1'' \<and>
   request_env forging_request False 8888 ''10.0.0.1'' ''HTTP_X_ID'' = Some ''2''"
proof -
  have "map_of (rev (map env_binding (rq_fields forging_request))) ''HTTP_X_ID'' = Some ''2''"
    by code_simp
  then show ?thesis
    using init_env_not_forgeable [of forging_request False 8888 "''10.0.0.1''"] by simp
qed

text \<open>
  The target is split without loss: when it has a question mark, \<open>SCRIPT_URI\<close>, the mark and
  \<open>QUERY_STRING\<close> are the target again and \<open>SCRIPT_URI\<close> has no question mark of its own; when it
  has none, \<open>SCRIPT_URI\<close> is the target.
\<close>
lemma init_env_splits_target:
  "\<exists>script. request_env rq ssl port addr ''SCRIPT_URI'' = Some script \<and>
     CHR ''?'' \<notin> set script \<and>
     rq_target rq = script @ (case request_env rq ssl port addr ''QUERY_STRING'' of
                                None \<Rightarrow> [] | Some q \<Rightarrow> CHR ''?'' # q)"
proof (cases "find_char CHR ''?'' (rq_target rq)")
  case None
  then have "request_env rq ssl port addr ''QUERY_STRING'' = None"
    and "request_env rq ssl port addr ''SCRIPT_URI'' = Some (rq_target rq)"
    by (simp_all add: request_env_simps env_headers_other)
  with None show ?thesis by (simp add: find_char_None)
next
  case (Some i)
  then have "request_env rq ssl port addr ''QUERY_STRING'' = Some (drop (i + 1) (rq_target rq))"
    and "request_env rq ssl port addr ''SCRIPT_URI'' = Some (take i (rq_target rq))"
    by (simp_all add: request_env_simps)
  with find_char_split [OF Some] find_char_Some [OF Some] show ?thesis by simp
qed

text \<open>
  C5: The buffered output path is first-in first-out and loses nothing: when a sequence of
  characters is accepted, the stream (the wire followed by the pending buffer) has grown by exactly
  those characters, the buffer is well-formed again and all were counted; and no store ever leaves
  the 4096-byte array, since the only exceptions are the ones the socket write raised, each on a
  block of at most the array's size.
\<close>
theorem bufferer_fifo:
  assumes "transport_contract B wire" and "ob_wf s" and "sputn (write_data B) bs s = (r, s')"
  shows "case r of
           Inr n \<Rightarrow> n = length bs \<and> ob_wf s' \<and> accepted wire s' = accepted wire s @ bs
         | Inl e \<Rightarrow> \<exists>data w w'. write_data B data w = (Inl e, w') \<and> length data \<le> BufferSizeV"
proof (cases r)
  case (Inl e)
  with assms(3) show ?thesis using sputn_only_sink_throws [OF assms(2)] by simp
next
  case (Inr n)
  with assms(3) show ?thesis using stream_sink.sputn_ok [OF assms(1,2)] by simp
qed

text \<open>A transport that always succeeds: the world is the list of bytes written.\<close>

definition demo_boost :: "bytes boost" where
  "demo_boost =
     \<lparr>b_async_write = (\<lambda>w bs. ((no_error, length bs), w @ bs)),
      b_shutdown = (\<lambda>w. w),
      b_read_header = (\<lambda>w. ((no_error, forging_request), w)),
      b_read_some = (\<lambda>w k. ((no_error, []), w)),
      b_is_done = (\<lambda>w. True),
      b_keep_alive = (\<lambda>w. True),
      b_local_port = (\<lambda>w. (no_error, 8888)),
      b_remote_addr = (\<lambda>w. (no_error, ''10.0.0.1'')),
      b_write_response = (\<lambda>w status version. (no_error, w)),
      b_now = (\<lambda>w. (None, w)), b_read_waits = (\<lambda>w. False), b_write_waits = (\<lambda>w. False)\<rparr>"

lemma demo_transport: "transport_contract demo_boost id"
  by (simp add: transport_contract_def write_contract_def quiet_contract_def demo_boost_def)

lemma demo_wf: "ob_wf (ClientIO_new (replicate BufferSizeV NUL) ssl port addr w)"
  by (simp add: ob_wf_def ClientIO_new_def)

theorem bufferer_fifo_witness:
  "case fst (sputn (write_data demo_boost) ''ab'' (ClientIO_new (replicate BufferSizeV NUL) False 0 [] [])) of
     Inr n \<Rightarrow> n = 2 | Inl e \<Rightarrow> (\<exists>data w w'. write_data demo_boost data w = (Inl e, w'))"
proof -
  let ?s = "ClientIO_new (replicate BufferSizeV NUL) False 0 [] []"
  obtain r s' where r: "sputn (write_data demo_boost) ''ab'' ?s = (r, s')" by fastforce
  from bufferer_fifo [OF demo_transport demo_wf r] show ?thesis
    by (cases r) (auto simp: r simp del: sputn.simps)
qed

text \<open>
  The return values of the \<open>ClientIO\<close> calls add up: over any sequence of output calls that
  returns normally, the values returned sum (as \<open>size_t\<close>) to the number of bytes the stream grew
  by.
\<close>
lemma client_returns_bytes_generated:
  assumes "transport_contract B wire" and "ob_wf s" and "rc_run (ClientIO B) ks s = (Inr ns, s')"
  shows "sum_list ns = of_nat (length (accepted wire s') - length (accepted wire s))"
  using client_counts.run_counts [OF _ assms(3)] assms(1,2) by blast

lemma client_returns_bytes_generated_example:
  "fst (rc_run (ClientIO demo_boost) [Send_chunked_transfer_encoding]
          (ClientIO_new (replicate BufferSizeV NUL) False 0 [] [])) = Inr [0] \<and> sum_list [0::u64] = 0"
proof -
  let ?s = "ClientIO_new (replicate BufferSizeV NUL) False 0 [] ([] :: bytes)"
  have r: "rc_run (ClientIO demo_boost) [Send_chunked_transfer_encoding] ?s = (Inr [0], ?s)"
    by (simp add: ClientIO_def RestfulClient_send_chunked_transfer_encoding_def ret_def bindE_def)
  from client_returns_bytes_generated [OF demo_transport demo_wf r] r show ?thesis by simp
qed

text \<open>
  C39: \<open>send_status\<close> is correct for a status line that fits its 128-byte array with the
  terminator, and only for those: such a line reaches the stream exactly and its length is
  returned; a line of exactly 128 characters is sent with its last character replaced by a NUL;
  and a longer one makes \<open>sputn\<close> read past the array, because the code passes on the
  untruncated length \<open>snprintf\<close> returned.
\<close>
theorem send_status_buffer:
  assumes "transport_contract B wire" and "ob_wf s"
  shows "if length (status_line status name) < 128
         then \<forall>n s'. cl_send_status B status name s = (Inr n, s') \<longrightarrow>
                n = of_nat (length (status_line status name)) \<and>
                accepted wire s' = accepted wire s @ status_line status name
         else if length (status_line status name) = 128
         then \<forall>n s'. cl_send_status B status name s = (Inr n, s') \<longrightarrow>
                accepted wire s' = accepted wire s @ take 127 (status_line status name) @ [NUL]
         else cl_send_status B status name s =
                (Inl (Undefined ''read past the formatting buffer''), s)"
proof -
  note sends = sendsD(3) [OF sends_cl_sputn [OF assms(1)] assms(2)]
  show ?thesis
    by (auto simp: STATUS_BUF_SIZE_def formatted_def exactly_def cl_send_status_def
          formatE_def bindE_def dest!: sends)
qed

text \<open>A status name of 200 characters, on a transport that works.\<close>

theorem send_status_buffer_witness:
  "fst (cl_send_status demo_boost 200 (replicate 200 CHR ''x'')
          (ClientIO_new (replicate BufferSizeV NUL) False 0 [] [])) =
     Inl (Undefined ''read past the formatting buffer'')"
  using send_status_buffer [OF demo_transport demo_wf, of 200 "replicate 200 CHR ''x''"]
  by (simp add: status_line_def)

end
