(* ===== verification/Filters.thy ===== *)
theory Filters
  imports ClientIO
begin

text \<open>
  \<open>boost_cpp/httpserver/client_io_filter.hpp\<close>: the four decorators of \<open>RestfulClient\<close>. Each is
  the forwarding table \<open>DecoratedRestfulClient\<close> with the functions the class overrides replaced.
  \<open>AccountingFilter\<close> counts the bytes of the calls it forwards, \<open>ChunkingFilter\<close> wraps the body in
  the chunked transfer coding, \<open>ConLenControllingFilter\<close> suppresses Content-Length where RFC 7230
  forbids it, and \<open>ReorderingFilter\<close> holds back header fields sent before the header block is
  complete.
\<close>

section \<open>AccountingFilter\<close>

record accounting =
  acc_enabled :: bool
  acc_total_sent :: u64
  acc_total_received :: u64

definition AccountingFilter_new :: accounting where
  "AccountingFilter_new = \<lparr>acc_enabled = False, acc_total_sent = 0, acc_total_received = 0\<rparr>"

text \<open>"if (enabled) total_sent += sent; return sent;", the end of every sending function.\<close>

definition acc_sent :: "u64 \<Rightarrow> (accounting \<times> 's, u64) action" where
  "acc_sent sent fs =
     (Inr sent,
      if acc_enabled (fst fs)
      then ((fst fs)\<lparr>acc_total_sent := acc_total_sent (fst fs) + sent\<rparr>, snd fs)
      else fs)"

definition acc_recv_body :: "'s restful_client \<Rightarrow> nat \<Rightarrow> (accounting \<times> 's, bytes) action" where
  "acc_recv_body c len =
     bindE (rc_recv_body (DecoratedRestfulClient c) len) (\<lambda>received fs.
       (Inr received,
        if acc_enabled (fst fs)
        then ((fst fs)\<lparr>acc_total_received :=
                acc_total_received (fst fs) + of_nat (length received)\<rparr>, snd fs)
        else fs))"

definition AccountingFilter :: "'s restful_client \<Rightarrow> (accounting \<times> 's) restful_client" where
  "AccountingFilter c =
     (let d = DecoratedRestfulClient c in
      d\<lparr>rc_send_status := (\<lambda>status name. bindE (rc_send_status d status name) acc_sent),
        rc_send_100_continue := bindE (rc_send_100_continue d) acc_sent,
        rc_send_header := (\<lambda>name val. bindE (rc_send_header d name val) acc_sent),
        rc_send_content_length := (\<lambda>len. bindE (rc_send_content_length d len) acc_sent),
        rc_send_chunked_transfer_encoding :=
          bindE (rc_send_chunked_transfer_encoding d) acc_sent,
        rc_complete_header := bindE (rc_complete_header d) acc_sent,
        rc_recv_body := acc_recv_body c,
        rc_send_body := (\<lambda>buf. bindE (rc_send_body d buf) acc_sent),
        rc_complete_request := bindE (rc_complete_request d) acc_sent\<rparr>)"

definition get_bytes_sent :: "accounting \<times> 's \<Rightarrow> u64" where
  "get_bytes_sent fs = acc_total_sent (fst fs)"

definition get_bytes_received :: "accounting \<times> 's \<Rightarrow> u64" where
  "get_bytes_received fs = acc_total_received (fst fs)"

definition set_account :: "bool \<Rightarrow> accounting \<times> 's \<Rightarrow> accounting \<times> 's" where
  "set_account enabled fs = ((fst fs)\<lparr>acc_enabled := enabled\<rparr>, snd fs)"

section \<open>ChunkingFilter\<close>

text \<open>The state is \<open>chunking_enabled\<close>, false in a new object.\<close>

definition chunk_size_line :: "nat \<Rightarrow> string" where
  "chunk_size_line len = hex len @ CRLF"

definition CHUNKED_RESP_END :: string where
  "CHUNKED_RESP_END = ''0'' @ CRLF @ CRLF"

definition chk_send_chunked_transfer_encoding ::
    "'s restful_client \<Rightarrow> (bool \<times> 's, u64) action" where
  "chk_send_chunked_transfer_encoding c fs =
     rc_send_header (DecoratedRestfulClient c) ''Transfer-Encoding'' ''chunked'' (True, snd fs)"

definition chk_send_body :: "'s restful_client \<Rightarrow> bytes \<Rightarrow> (bool \<times> 's, u64) action" where
  "chk_send_body c buf fs =
     (let d = DecoratedRestfulClient c in
      if \<not> fst fs then rc_send_body d buf fs
      else
        bindE (formatE 32 (chunk_size_line (length buf))) (\<lambda>chunk_size.
        bindE (rc_send_body d chunk_size) (\<lambda>x.
        bindE (rc_send_body d buf) (\<lambda>y.
        bindE (rc_send_body d CRLF) (\<lambda>z. ret (x + y + z))))) fs)"

definition chk_complete_request :: "'s restful_client \<Rightarrow> (bool \<times> 's, u64) action" where
  "chk_complete_request c fs =
     (let d = DecoratedRestfulClient c in
      bindE (if fst fs then rc_send_body d CHUNKED_RESP_END else ret 0) (\<lambda>sent.
      bindE (rc_complete_request d) (\<lambda>n. ret (sent + n))) fs)"

definition ChunkingFilter :: "'s restful_client \<Rightarrow> (bool \<times> 's) restful_client" where
  "ChunkingFilter c =
     (DecoratedRestfulClient c)
       \<lparr>rc_send_chunked_transfer_encoding := chk_send_chunked_transfer_encoding c,
        rc_send_body := chk_send_body c,
        rc_complete_request := chk_complete_request c\<rparr>"

definition add_chunking :: "'s \<Rightarrow> bool \<times> 's" where
  "add_chunking s = (False, s)"

section \<open>ConLenControllingFilter\<close>

datatype ContentLengthAction = FORWARD | INHIBIT | UNKNOWN

definition EINVAL :: int where
  "EINVAL = 22"

definition clc_send_status ::
    "'s restful_client \<Rightarrow> int \<Rightarrow> string \<Rightarrow> (ContentLengthAction \<times> 's, u64) action" where
  "clc_send_status c status name fs =
     (let action = (if 204 = status \<or> 304 = status then INHIBIT else FORWARD)
      in rc_send_status (DecoratedRestfulClient c) status name (action, snd fs))"

definition clc_send_content_length ::
    "'s restful_client \<Rightarrow> u64 \<Rightarrow> (ContentLengthAction \<times> 's, u64) action" where
  "clc_send_content_length c len fs =
     (case fst fs of
        FORWARD \<Rightarrow> rc_send_content_length (DecoratedRestfulClient c) len fs
      | INHIBIT \<Rightarrow> ret 0 fs
      | UNKNOWN \<Rightarrow> ret (of_int (- EINVAL)) fs)"

definition ConLenControllingFilter ::
    "'s restful_client \<Rightarrow> (ContentLengthAction \<times> 's) restful_client" where
  "ConLenControllingFilter c =
     (DecoratedRestfulClient c)
       \<lparr>rc_send_status := clc_send_status c,
        rc_send_content_length := clc_send_content_length c\<rparr>"

definition add_conlen_controlling :: "'s \<Rightarrow> ContentLengthAction \<times> 's" where
  "add_conlen_controlling s = (UNKNOWN, s)"

section \<open>ReorderingFilter\<close>

datatype ReorderState = RGW_EARLY_HEADERS | RGW_STATUS_SEEN | RGW_DATA

record reordering =
  ro_phase :: ReorderState
  ro_content_length :: "u64 option"
  ro_headers :: "(string \<times> string) list"

definition ReorderingFilter_new :: reordering where
  "ReorderingFilter_new =
     \<lparr>ro_phase = RGW_EARLY_HEADERS, ro_content_length = None, ro_headers = []\<rparr>"

definition ro_send_header ::
    "'s restful_client \<Rightarrow> string \<Rightarrow> string \<Rightarrow> (reordering \<times> 's, u64) action" where
  "ro_send_header c name val fs =
     (case ro_phase (fst fs) of
        RGW_DATA \<Rightarrow> rc_send_header (DecoratedRestfulClient c) name val fs
      | _ \<Rightarrow> (Inr 0,
             ((fst fs)\<lparr>ro_headers := ro_headers (fst fs) @ [(name, val)]\<rparr>, snd fs)))"

definition ro_send_status ::
    "'s restful_client \<Rightarrow> int \<Rightarrow> string \<Rightarrow> (reordering \<times> 's, u64) action" where
  "ro_send_status c status name fs =
     rc_send_status (DecoratedRestfulClient c) status name
       ((fst fs)\<lparr>ro_phase := RGW_STATUS_SEEN\<rparr>, snd fs)"

definition ro_send_content_length ::
    "'s restful_client \<Rightarrow> u64 \<Rightarrow> (reordering \<times> 's, u64) action" where
  "ro_send_content_length c len fs =
     (if ro_phase (fst fs) = RGW_EARLY_HEADERS
      then (Inr 0, ((fst fs)\<lparr>ro_content_length := Some len\<rparr>, snd fs))
      else rc_send_content_length (DecoratedRestfulClient c) len fs)"

fun ro_send_headers ::
    "'s restful_client \<Rightarrow> (string \<times> string) list \<Rightarrow> (reordering \<times> 's, u64) action" where
  "ro_send_headers c [] = ret 0"
| "ro_send_headers c (kv # kvs) =
     bindE (rc_send_header (DecoratedRestfulClient c) (fst kv) (snd kv)) (\<lambda>x.
     bindE (ro_send_headers c kvs) (\<lambda>y. ret (x + y)))"

definition ro_clear_headers :: "(reordering \<times> 's, unit) action" where
  "ro_clear_headers fs = (Inr (), ((fst fs)\<lparr>ro_headers := []\<rparr>, snd fs))"

definition ro_complete_header :: "'s restful_client \<Rightarrow> (reordering \<times> 's, u64) action" where
  "ro_complete_header c fs =
     (let d = DecoratedRestfulClient c in
      bindE (case ro_content_length (fst fs) of
               None \<Rightarrow> ret 0 | Some len \<Rightarrow> rc_send_content_length d len) (\<lambda>x.
      bindE (ro_send_headers c (ro_headers (fst fs))) (\<lambda>y.
      bindE ro_clear_headers (\<lambda>_.
      bindE (rc_complete_header d) (\<lambda>z. ret (x + y + z)))))
        ((fst fs)\<lparr>ro_phase := RGW_DATA\<rparr>, snd fs))"

definition ReorderingFilter :: "'s restful_client \<Rightarrow> (reordering \<times> 's) restful_client" where
  "ReorderingFilter c =
     (DecoratedRestfulClient c)
       \<lparr>rc_send_header := ro_send_header c,
        rc_send_status := ro_send_status c,
        rc_send_content_length := ro_send_content_length c,
        rc_complete_header := ro_complete_header c\<rparr>"

definition add_reordering :: "'s \<Rightarrow> reordering \<times> 's" where
  "add_reordering s = (ReorderingFilter_new, s)"

section \<open>Every filter keeps the promise on return values\<close>

declare of_nat_diff [simp del]

lemma accounting_send:
  "rc_send (AccountingFilter c) k = bindE (via (rc_send c k)) acc_sent"
  by (cases k) (simp_all add: AccountingFilter_def Let_def DecoratedRestfulClient_def)

text \<open>
  \<open>adds a m\<close>: when \<open>m\<close>, an operation of a decorator, returns normally, its result is \<open>a\<close> plus
  the number of bytes the decoratee generated.
\<close>

context counted_client
begin

definition adds :: "u64 \<Rightarrow> ('f \<times> 's, u64) action \<Rightarrow> bool" where
  "adds a m \<longleftrightarrow>
     (\<forall>fs n fs'. inv (snd fs) \<longrightarrow> m fs = (Inr n, fs') \<longrightarrow>
        inv (snd fs') \<and> total (snd fs) \<le> total (snd fs') \<and>
        n = a + of_nat (total (snd fs') - total (snd fs)))"

lemma adds_ret: "adds a (ret a)"
  by (simp add: adds_def ret_def)

lemma addsD:
  assumes "adds a m" and "inv (snd fs)" and "m fs = (Inr n, fs')"
  shows "inv (snd fs')" and "total (snd fs) \<le> total (snd fs')"
    and "n = a + of_nat (total (snd fs') - total (snd fs))"
  using assms unfolding adds_def by blast+

lemma adds_pairD:
  assumes "adds a m" and "inv s" and "m (f, s) = (Inr n, (f', s'))"
  shows "inv s' \<and> total s \<le> total s' \<and> n = a + of_nat (total s' - total s)"
  using addsD [OF assms(1) _ assms(3)] assms(2) by simp

lemma addsI:
  assumes "\<And>f s n f' s'. inv s \<Longrightarrow> m (f, s) = (Inr n, (f', s')) \<Longrightarrow>
             inv s' \<and> total s \<le> total s' \<and> n = a + of_nat (total s' - total s)"
  shows "adds a m"
  using assms unfolding adds_def by (metis prod.collapse)

lemma adds_via: "adds 0 (via (rc_send c k))"
  using counts by (auto simp: adds_def)

lemma adds_bind:
  assumes "adds 0 m" and "\<And>x. adds (a + x) (f x)"
  shows "adds a (bindE m f)"
  unfolding adds_def
proof (intro allI impI)
  fix fs n fs'
  assume i: "inv (snd fs)" and "bindE m f fs = (Inr n, fs')"
  then obtain x fs1 where x: "m fs = (Inr x, fs1)" and n: "f x fs1 = (Inr n, fs')"
    by (auto simp: bindE_eq_Inr)
  from assms(1) i x have 1: "inv (snd fs1)" "total (snd fs) \<le> total (snd fs1)"
    "x = of_nat (total (snd fs1) - total (snd fs))"
    unfolding adds_def by fastforce+
  with assms(2) n have 2: "inv (snd fs')" "total (snd fs1) \<le> total (snd fs')"
    "n = a + x + of_nat (total (snd fs') - total (snd fs1))"
    unfolding adds_def by blast+
  from 1 2 show "inv (snd fs') \<and> total (snd fs) \<le> total (snd fs') \<and>
      n = a + of_nat (total (snd fs') - total (snd fs))"
    by (simp flip: of_nat_add add: add.assoc)
qed

lemma adds_formatE: "(\<And>b. adds a (f b)) \<Longrightarrow> adds a (bindE (formatE N full) f)"
  by (fastforce simp: adds_def bindE_eq_Inr formatE_def)

lemma adds_case_option:
  "adds a m \<Longrightarrow> (\<And>x. adds a (f x)) \<Longrightarrow> adds a (case y of None \<Rightarrow> m | Some x \<Rightarrow> f x)"
  by (cases y) simp_all

lemma adds_if: "adds a m \<Longrightarrow> adds a n \<Longrightarrow> adds a (if b then m else n)"
  by simp

lemma adds_cases:
  assumes "adds a m" and "adds a n"
  shows "adds a (\<lambda>fs. if P fs then m fs else n fs)"
proof (rule addsI)
  fix f s x f' s'
  assume "inv s" and "(if P (f, s) then m (f, s) else n (f, s)) = (Inr x, (f', s'))"
  with adds_pairD [OF assms(1), of s f] adds_pairD [OF assms(2), of s f]
  show "inv s' \<and> total s \<le> total s' \<and> x = a + of_nat (total s' - total s)"
    by (cases "P (f, s)") simp_all
qed

text \<open>Changing the decorator's own fields first does not matter.\<close>

lemma adds_state:
  assumes "adds a m"
  shows "adds a (\<lambda>fs. m (g fs, snd fs))"
proof (rule addsI)
  fix f s n f' s'
  assume "inv s" and "m (g (f, s), snd (f, s)) = (Inr n, (f', s'))"
  with adds_pairD [OF assms, of s "g (f, s)"] 
  show "inv s' \<and> total s \<le> total s' \<and> n = a + of_nat (total s' - total s)" by simp
qed

lemma adds_by_state:
  assumes "\<And>f. adds a (m f)"
  shows "adds a (\<lambda>fs. m (fst fs) fs)"
proof (rule addsI)
  fix f s n f' s'
  assume "inv s" and "m (fst (f, s)) (f, s) = (Inr n, (f', s'))"
  with adds_pairD [OF assms [of f], of s f]
  show "inv s' \<and> total s \<le> total s' \<and> n = a + of_nat (total s' - total s)" by simp
qed

lemma adds_after:
  assumes "adds a m" and "\<And>x fs. snd (snd (f x fs)) = snd fs \<and> fst (f x fs) = Inr x"
  shows "adds a (bindE m f)"
  unfolding adds_def
proof (intro allI impI)
  fix fs n fs'
  assume i: "inv (snd fs)" and "bindE m f fs = (Inr n, fs')"
  then obtain x fs1 where x: "m fs = (Inr x, fs1)" and n: "f x fs1 = (Inr n, fs')"
    by (auto simp: bindE_eq_Inr)
  from assms(2) [of x fs1] n have "n = x" and "snd fs' = snd fs1" by auto
  with assms(1) i x show "inv (snd fs') \<and> total (snd fs) \<le> total (snd fs') \<and>
      n = a + of_nat (total (snd fs') - total (snd fs))"
    unfolding adds_def by fastforce
qed

lemma counted_by_adds:
  assumes "\<And>k. adds 0 (rc_send d k)"
  shows "counted_client d (\<lambda>fs. total (snd fs)) (\<lambda>fs. inv (snd fs))"
  by unfold_locales (use assms in \<open>auto simp: adds_def\<close>)

lemma adds_decorated [simp]:
  "adds 0 (rc_send_100_continue (DecoratedRestfulClient c))"
  "adds 0 (rc_send_status (DecoratedRestfulClient c) status name)"
  "adds 0 (rc_send_header (DecoratedRestfulClient c) name val)"
  "adds 0 (rc_send_content_length (DecoratedRestfulClient c) len)"
  "adds 0 (rc_send_chunked_transfer_encoding (DecoratedRestfulClient c))"
  "adds 0 (rc_complete_header (DecoratedRestfulClient c))"
  "adds 0 (rc_send_body (DecoratedRestfulClient c) buf)"
  "adds 0 (rc_complete_request (DecoratedRestfulClient c))"
  using adds_via [of Send_100_continue] adds_via [of "Send_status status name"]
    adds_via [of "Send_header name val"] adds_via [of "Send_content_length len"]
    adds_via [of Send_chunked_transfer_encoding] adds_via [of Complete_header]
    adds_via [of "Send_body buf"] adds_via [of Complete_request]
  by (simp_all add: DecoratedRestfulClient_def)

lemma accounting_counts:
  "counted_client (AccountingFilter c) (\<lambda>fs. total (snd fs)) (\<lambda>fs. inv (snd fs))"
  by (rule counted_by_adds)
     (auto simp: accounting_send acc_sent_def intro: adds_after adds_via)

text \<open>What one call, and a run of calls, adds to \<open>total_sent\<close>.\<close>

lemma accounting_step:
  assumes "inv (snd fs)" and "rc_send (AccountingFilter c) k fs = (Inr n, fs')"
  shows "inv (snd fs') \<and> total (snd fs) \<le> total (snd fs') \<and>
         acc_enabled (fst fs') = acc_enabled (fst fs) \<and>
         get_bytes_sent fs' = get_bytes_sent fs +
           (if acc_enabled (fst fs) then of_nat (total (snd fs') - total (snd fs)) else 0)"
proof -
  from assms(2) obtain fs1 where "fst fs1 = fst fs" and c: "rc_send c k (snd fs) = (Inr n, snd fs1)"
    and "acc_sent n fs1 = (Inr n, fs')"
    by (auto simp: accounting_send bindE_eq_Inr acc_sent_def)
  with counts [OF assms(1) c] show ?thesis
    by (auto simp: acc_sent_def get_bytes_sent_def split: if_splits)
qed

lemma accounting_run:
  assumes "inv (snd fs)" and "rc_run (AccountingFilter c) ks fs = (Inr ns, fs')"
  shows "inv (snd fs') \<and> total (snd fs) \<le> total (snd fs') \<and>
         acc_enabled (fst fs') = acc_enabled (fst fs) \<and>
         get_bytes_sent fs' = get_bytes_sent fs +
           (if acc_enabled (fst fs) then of_nat (total (snd fs') - total (snd fs)) else 0)"
  using assms
proof (induction ks arbitrary: fs ns)
  case Nil
  then show ?case by (simp add: ret_def)
next
  case (Cons k ks)
  then obtain n fs1 ms where k: "rc_send (AccountingFilter c) k fs = (Inr n, fs1)"
    and ks: "rc_run (AccountingFilter c) ks fs1 = (Inr ms, fs')"
    by (auto simp only: rc_run_Cons_ok)
  from accounting_step [OF Cons.prems(1) k] Cons.IH [OF _ ks] show ?case
    by (auto simp flip: of_nat_add)
qed

lemma chunking_counts:
  "counted_client (ChunkingFilter c) (\<lambda>fs. total (snd fs)) (\<lambda>fs. inv (snd fs))"
proof (rule counted_by_adds)
  fix k
  have body: "adds 0 (chk_send_body c buf)" for buf
  proof -
    have 1: "adds 0 (bindE (formatE 32 (chunk_size_line (length buf))) (\<lambda>chunk_size.
        bindE (rc_send_body (DecoratedRestfulClient c) chunk_size) (\<lambda>x.
        bindE (rc_send_body (DecoratedRestfulClient c) buf) (\<lambda>y.
        bindE (rc_send_body (DecoratedRestfulClient c) CRLF) (\<lambda>z. ret (x + y + z))))))"
      by (intro adds_formatE adds_bind adds_decorated) (simp add: adds_ret)
    show ?thesis
      unfolding chk_send_body_def [abs_def] Let_def by (intro adds_cases adds_decorated 1)
  qed
  have req: "adds 0 (chk_complete_request c)"
  proof -
    have "adds 0 (bindE (if b then rc_send_body (DecoratedRestfulClient c) CHUNKED_RESP_END else ret 0)
        (\<lambda>sent. bindE (rc_complete_request (DecoratedRestfulClient c)) (\<lambda>n. ret (sent + n))))" for b
      by (intro adds_bind adds_if adds_decorated adds_ret) (simp add: adds_ret)
    then show ?thesis unfolding chk_complete_request_def [abs_def] Let_def by (rule adds_by_state)
  qed
  show "adds 0 (rc_send (ChunkingFilter c) k)"
    using adds_state [OF adds_decorated(3), of "''Transfer-Encoding''" "''chunked''" "\<lambda>_. True"]
    by (cases k)
       (simp_all add: ChunkingFilter_def body req chk_send_chunked_transfer_encoding_def [abs_def])
qed

lemma ro_headers_adds: "adds 0 (ro_send_headers c kvs)"
  by (induction kvs) (auto intro!: adds_bind intro: adds_ret simp: adds_ret)

lemma reordering_counts:
  "counted_client (ReorderingFilter c) (\<lambda>fs. total (snd fs)) (\<lambda>fs. inv (snd fs))"
proof (rule counted_by_adds)
  fix k
  have clear: "adds (x + y) (bindE ro_clear_headers (\<lambda>_.
      bindE (rc_complete_header (DecoratedRestfulClient c)) (\<lambda>z. ret (x + y + z))))" for x y
  proof -
    have "adds (x + y) (bindE (rc_complete_header (DecoratedRestfulClient c)) (\<lambda>z. ret (x + y + z)))"
      by (intro adds_bind adds_decorated) (simp add: adds_ret)
    from adds_state [OF this, of "\<lambda>fs. (fst fs)\<lparr>ro_headers := []\<rparr>"] show ?thesis
      by (simp add: bindE_def [of ro_clear_headers, abs_def] ro_clear_headers_def)
  qed
  have "adds 0 (bindE (case l of None \<Rightarrow> ret 0
        | Some len \<Rightarrow> rc_send_content_length (DecoratedRestfulClient c) len) (\<lambda>x.
      bindE (ro_send_headers c hs) (\<lambda>y.
      bindE ro_clear_headers (\<lambda>_.
      bindE (rc_complete_header (DecoratedRestfulClient c)) (\<lambda>z. ret (x + y + z))))))" for l hs
    by (intro adds_bind adds_case_option adds_decorated ro_headers_adds adds_ret) (simp add: clear)
  from adds_pairD [OF this] have "adds 0 (ro_complete_header c)"
    by (intro addsI) (simp add: ro_complete_header_def Let_def)
  moreover have "adds 0 (ro_send_header c name val)" for name val
    using adds_pairD [OF adds_decorated(3)]
    by (intro addsI) (simp add: ro_send_header_def split: ReorderState.splits)
  moreover have "adds 0 (ro_send_status c status name)" for status name
    using adds_pairD [OF adds_decorated(2)] by (intro addsI) (simp add: ro_send_status_def)
  moreover have "adds 0 (ro_send_content_length c len)" for len
    using adds_pairD [OF adds_decorated(4)]
    by (intro addsI) (simp add: ro_send_content_length_def split: if_splits)
  ultimately show "adds 0 (rc_send (ReorderingFilter c) k)"
    by (cases k) (simp_all add: ReorderingFilter_def)
qed

text \<open>
  The length filter keeps the promise once a status has been seen; before that it returns
  \<open>-EINVAL\<close>, which is not a count.
\<close>

lemma conlen_counts:
  "counted_client (ConLenControllingFilter c) (\<lambda>fs. total (snd fs))
     (\<lambda>fs. fst fs \<noteq> UNKNOWN \<and> inv (snd fs))"
proof
  fix fs :: "ContentLengthAction \<times> 's" and k n fs'
  assume i: "fst fs \<noteq> UNKNOWN \<and> inv (snd fs)"
    and run: "rc_send (ConLenControllingFilter c) k fs = (Inr n, fs')"
  have "fst fs' \<noteq> UNKNOWN \<and> (rc_send c k (snd fs) = (Inr n, snd fs') \<or> n = 0 \<and> snd fs' = snd fs)"
    using i run
    by (cases k)
       (auto simp: ConLenControllingFilter_def clc_send_status_def clc_send_content_length_def
          DecoratedRestfulClient_def ret_def split: ContentLengthAction.splits if_splits)
  with counts [of "snd fs" k n "snd fs'"] i
  show "(fst fs' \<noteq> UNKNOWN \<and> inv (snd fs')) \<and> total (snd fs) \<le> total (snd fs') \<and>
      n = of_nat (total (snd fs') - total (snd fs))" by auto
qed

end

interpretation accounting_client:
  counted_client "AccountingFilter (ClientIO B)" "\<lambda>fs. length (accepted wire (snd fs))"
    "\<lambda>fs. transport_contract B wire \<and> ob_wf (snd fs)"
  for B :: "'w boost" and wire :: "'w \<Rightarrow> bytes"
  by (rule client_counts.accounting_counts)

interpretation conlen_client:
  counted_client "ConLenControllingFilter (ClientIO B)" "\<lambda>fs. length (accepted wire (snd fs))"
    "\<lambda>fs. fst fs \<noteq> UNKNOWN \<and> transport_contract B wire \<and> ob_wf (snd fs)"
  for B :: "'w boost" and wire :: "'w \<Rightarrow> bytes"
  by (rule client_counts.conlen_counts)

interpretation chunking_client:
  counted_client "ChunkingFilter (ConLenControllingFilter (ClientIO B))"
    "\<lambda>fs. length (accepted wire (snd (snd fs)))"
    "\<lambda>fs. fst (snd fs) \<noteq> UNKNOWN \<and> transport_contract B wire \<and> ob_wf (snd (snd fs))"
  for B :: "'w boost" and wire :: "'w \<Rightarrow> bytes"
  by (rule conlen_client.chunking_counts)

text \<open>The stack that \<open>handle_connection\<close> builds over its \<open>StreamIO\<close>.\<close>

definition response_stack :: "'w boost \<Rightarrow>
    (reordering \<times> bool \<times> ContentLengthAction \<times> 'w clientio) restful_client" where
  "response_stack B = ReorderingFilter (ChunkingFilter (ConLenControllingFilter (ClientIO B)))"

definition real_client_io ::
    "'w clientio \<Rightarrow> reordering \<times> bool \<times> ContentLengthAction \<times> 'w clientio" where
  "real_client_io s = add_reordering (add_chunking (add_conlen_controlling s))"

interpretation stack_client:
  counted_client "response_stack B" "\<lambda>fs. length (accepted wire (snd (snd (snd fs))))"
    "\<lambda>fs. fst (snd (snd fs)) \<noteq> UNKNOWN \<and> transport_contract B wire \<and> ob_wf (snd (snd (snd fs)))"
  for B :: "'w boost" and wire :: "'w \<Rightarrow> bytes"
  unfolding response_stack_def by (rule chunking_client.reordering_counts)

section \<open>Every filter keeps the promise of returning\<close>

lemma chunk_size_line_fits:
  assumes "len < 2 ^ 64"
  shows "length (chunk_size_line len) < 32"
proof -
  from assms have "len < 16 ^ 16" by simp
  then have "length (hex len) \<le> 16" by (simp add: hex_def print_base_length)
  then show ?thesis by (simp add: chunk_size_line_def)
qed

context total_client
begin

lemma total_decorated [simp]:
  "runs (\<lambda>fs. I (snd fs)) (rc_send_100_continue (DecoratedRestfulClient c))"
  "ok_call (Send_status status name) \<Longrightarrow>
     runs (\<lambda>fs. I (snd fs)) (rc_send_status (DecoratedRestfulClient c) status name)"
  "runs (\<lambda>fs. I (snd fs)) (rc_send_header (DecoratedRestfulClient c) hname val)"
  "runs (\<lambda>fs. I (snd fs)) (rc_send_content_length (DecoratedRestfulClient c) len)"
  "runs (\<lambda>fs. I (snd fs)) (rc_send_chunked_transfer_encoding (DecoratedRestfulClient c))"
  "runs (\<lambda>fs. I (snd fs)) (rc_complete_header (DecoratedRestfulClient c))"
  "runs (\<lambda>fs. I (snd fs)) (rc_complete_request (DecoratedRestfulClient c))"
  using total [of Send_100_continue] total [of "Send_status status name"]
    total [of "Send_header hname val"] total [of "Send_content_length len"]
    total [of Send_chunked_transfer_encoding] total [of Complete_header] total [of Complete_request]
  by (simp_all add: DecoratedRestfulClient_def runs_via)

lemma total_body [simp]:
  "length buf < 2 ^ 64 \<Longrightarrow> runs (\<lambda>fs. I (snd fs)) (rc_send_body (DecoratedRestfulClient c) buf)"
  using total [of "Send_body buf"] by (simp add: DecoratedRestfulClient_def runs_via)

lemma accounting_total: "total_client (AccountingFilter c) (\<lambda>fs. I (snd fs))"
proof
  fix k
  assume "ok_call k"
  moreover have "runs (\<lambda>fs. I (snd fs)) (acc_sent n)" for n
    by (simp add: runs_def acc_sent_def)
  ultimately show "runs (\<lambda>fs. I (snd fs)) (rc_send (AccountingFilter c) k)"
    by (simp add: accounting_send runs_bind runs_via total)
qed

lemma chunking_total: "total_client (ChunkingFilter c) (\<lambda>fs. I (snd fs))"
proof
  fix k
  assume ok: "ok_call k"
  have body: "runs (\<lambda>fs. I (snd fs)) (chk_send_body c buf)" if "length buf < 2 ^ 64" for buf
  proof -
    from chunk_size_line_fits [OF that] have "length (chunk_size_line (length buf)) < 32"
      and "length (chunk_size_line (length buf)) < 2 ^ 64" by simp_all
    with that have "runs (\<lambda>fs. I (snd fs)) (bindE (formatE 32 (chunk_size_line (length buf))) (\<lambda>chunk_size.
        bindE (rc_send_body (DecoratedRestfulClient c) chunk_size) (\<lambda>x.
        bindE (rc_send_body (DecoratedRestfulClient c) buf) (\<lambda>y.
        bindE (rc_send_body (DecoratedRestfulClient c) CRLF) (\<lambda>z. ret (x + y + z))))))"
      by (simp add: runs_bind runs_ret)
    with total_body [OF that] show ?thesis
      unfolding chk_send_body_def [abs_def] Let_def by (intro runs_cases)
  qed
  have "runs (\<lambda>fs. I (snd fs))
      (bindE (if b then rc_send_body (DecoratedRestfulClient c) CHUNKED_RESP_END else ret 0)
        (\<lambda>sent. bindE (rc_complete_request (DecoratedRestfulClient c)) (\<lambda>n. ret (sent + n))))" for b
    by (simp add: runs_bind runs_ret CHUNKED_RESP_END_def)
  then have "runs (\<lambda>fs. I (snd fs)) (chk_complete_request c)"
    unfolding runs_def chk_complete_request_def Let_def by blast
  moreover have "runs (\<lambda>fs. I (snd fs)) (chk_send_chunked_transfer_encoding c)"
    using runs_pairD [OF total_decorated(3)]
    by (intro runs_pairI) (simp add: chk_send_chunked_transfer_encoding_def)
  ultimately show "runs (\<lambda>fs. I (snd fs)) (rc_send (ChunkingFilter c) k)"
    using ok by (cases k) (simp_all add: ChunkingFilter_def body)
qed

lemma conlen_total: "total_client (ConLenControllingFilter c) (\<lambda>fs. I (snd fs))"
proof
  fix k
  assume "ok_call k"
  moreover have "runs (\<lambda>fs. I (snd fs)) (clc_send_content_length c len)" for len
  proof (rule runs_pairI)
    fix f :: ContentLengthAction and s
    assume i: "I s"
    from runs_pairD [OF total_decorated(4) this, of len f]
    obtain r f' s' where "rc_send_content_length (DecoratedRestfulClient c) len (f, s) = (Inr r, (f', s'))"
      and "I s'" by blast
    with i show "\<exists>r f' s'. clc_send_content_length c len (f, s) = (Inr r, (f', s')) \<and> I s'"
      by (auto simp: clc_send_content_length_def ret_def split: ContentLengthAction.split)
  qed
  moreover have "runs (\<lambda>fs. I (snd fs)) (clc_send_status c status name)"
    if "ok_call (Send_status status name)" for status name
    unfolding clc_send_status_def [abs_def] Let_def
    by (rule runs_state [OF total_decorated(2) [OF that]])
  ultimately show "runs (\<lambda>fs. I (snd fs)) (rc_send (ConLenControllingFilter c) k)"
    by (cases k) (simp_all add: ConLenControllingFilter_def)
qed

lemma reordering_total: "total_client (ReorderingFilter c) (\<lambda>fs. I (snd fs))"
proof
  fix k
  assume ok: "ok_call k"
  have hs: "runs (\<lambda>fs. I (snd fs)) (ro_send_headers c kvs)" for kvs
    by (induction kvs) (simp_all add: runs_ret runs_bind)
  have clear: "runs (\<lambda>fs. I (snd fs)) ro_clear_headers"
    by (simp add: runs_def ro_clear_headers_def)
  have "runs (\<lambda>fs. I (snd fs)) (bindE (case l of None \<Rightarrow> ret 0
        | Some len \<Rightarrow> rc_send_content_length (DecoratedRestfulClient c) len) (\<lambda>x.
      bindE (ro_send_headers c kvs) (\<lambda>y.
      bindE ro_clear_headers (\<lambda>_.
      bindE (rc_complete_header (DecoratedRestfulClient c)) (\<lambda>z. ret (x + y + z))))))" for l kvs
    by (cases l) (simp_all add: runs_bind runs_ret hs clear)
  note header_runs = runs_pairD [OF this]
  have "runs (\<lambda>fs. I (snd fs)) (ro_complete_header c)"
    by (rule runs_pairI) (simp add: ro_complete_header_def Let_def header_runs)
  moreover have "runs (\<lambda>fs. I (snd fs)) (ro_send_header c name val)" for name val
  proof (rule runs_pairI)
    fix f s
    assume "I s"
    from runs_pairD [OF total_decorated(3) this, of name val f] this
    show "\<exists>r f' s'. ro_send_header c name val (f, s) = (Inr r, (f', s')) \<and> I s'"
      by (cases "ro_phase f") (auto simp: ro_send_header_def)
  qed
  moreover have "runs (\<lambda>fs. I (snd fs)) (ro_send_content_length c len)" for len
  proof (rule runs_pairI)
    fix f s
    assume "I s"
    from runs_pairD [OF total_decorated(4) this, of len f] this
    show "\<exists>r f' s'. ro_send_content_length c len (f, s) = (Inr r, (f', s')) \<and> I s'"
      by (auto simp: ro_send_content_length_def)
  qed
  moreover have "runs (\<lambda>fs. I (snd fs)) (ro_send_status c status name)"
    if "ok_call (Send_status status name)" for status name
    using runs_pairD [OF total_decorated(2) [OF that]]
    by (intro runs_pairI) (simp add: ro_send_status_def)
  ultimately show "runs (\<lambda>fs. I (snd fs)) (rc_send (ReorderingFilter c) k)"
    using ok by (cases k) (simp_all add: ReorderingFilter_def)
qed

end

interpretation accounting_total:
  total_client "AccountingFilter (ClientIO B)" "\<lambda>fs. reliable B \<and> ob_wf (snd fs)"
  for B :: "'w boost"
  by (rule client_total.accounting_total)

interpretation conlen_total:
  total_client "ConLenControllingFilter (ClientIO B)" "\<lambda>fs. reliable B \<and> ob_wf (snd fs)"
  for B :: "'w boost"
  by (rule client_total.conlen_total)

interpretation chunking_total:
  total_client "ChunkingFilter (ConLenControllingFilter (ClientIO B))"
    "\<lambda>fs. reliable B \<and> ob_wf (snd (snd fs))"
  for B :: "'w boost"
  by (rule conlen_total.chunking_total)

interpretation stack_total:
  total_client "response_stack B" "\<lambda>fs. reliable B \<and> ob_wf (snd (snd (snd fs)))"
  for B :: "'w boost"
  unfolding response_stack_def by (rule chunking_total.reordering_total)

section \<open>The chunked transfer coding\<close>

definition chunk_encode :: "bytes \<Rightarrow> bytes" where
  "chunk_encode b = chunk_size_line (length b) @ b @ CRLF"

text \<open>
  A decoder of the chunked coding without extensions or trailers, the receiver's side of RFC 7230,
  section 4.1: it fails on anything malformed and on bytes after the last chunk.
\<close>

fun split_crlf :: "bytes \<Rightarrow> (bytes \<times> bytes) option" where
  "split_crlf [] = None"
| "split_crlf [c] = None"
| "split_crlf (c # d # cs) =
     (if c = CR \<and> d = LF then Some ([], cs)
      else map_option (\<lambda>(l, r). (c # l, r)) (split_crlf (d # cs)))"

lemma split_crlf_length: "split_crlf bs = Some (l, r) \<Longrightarrow> length r < length bs"
  by (induction bs arbitrary: l r rule: split_crlf.induct) (auto split: if_splits)

function dechunk :: "bytes \<Rightarrow> bytes option" where
  "dechunk bs =
     (case split_crlf bs of
        None \<Rightarrow> None
      | Some (l, rest) \<Rightarrow>
          (case (if l = [] then None else read_base 16 0 l) of
             None \<Rightarrow> None
           | Some n \<Rightarrow>
               if n = 0 then (if rest = CRLF then Some [] else None)
               else if length rest < n + 2 \<or> take 2 (drop n rest) \<noteq> CRLF then None
               else map_option ((@) (take n rest)) (dechunk (drop (n + 2) rest))))"
  by pat_completeness auto
termination
  by (relation "measure length") (auto dest: split_crlf_length)

declare dechunk.simps [simp del]

lemma split_crlf_append:
  "CR \<notin> set l \<Longrightarrow> split_crlf (l @ CRLF @ r) = Some (l, r)"
proof (induction l)
  case (Cons c l)
  then show ?case by (cases l) auto
qed simp

lemma digit_char_not_CR: "d < 16 \<Longrightarrow> digit_char d \<noteq> CR"
proof
  assume "d < 16" and "digit_char d = CR"
  then have "of_char (digit_char d) = (13 :: nat)" by simp
  with \<open>d < 16\<close> show False by (simp add: digit_char_def split: if_splits)
qed

lemma hex_no_CR: "CR \<notin> set (hex n)"
proof -
  have "set (hex n) \<subseteq> digit_char ` {..<16}" unfolding hex_def by (rule print_base_digits) simp
  with digit_char_not_CR show ?thesis by fastforce
qed

lemma dechunk_chunk:
  assumes "b \<noteq> []"
  shows "dechunk (chunk_encode b @ rest) = map_option ((@) b) (dechunk rest)"
proof -
  have "split_crlf (chunk_encode b @ rest) = Some (hex (length b), b @ CRLF @ rest)"
    using split_crlf_append [OF hex_no_CR, of "length b" "b @ CRLF @ rest"]
    by (simp add: chunk_encode_def chunk_size_line_def)
  then show ?thesis
    using assms by (subst dechunk.simps) (simp add: read_hex)
qed

lemma dechunk_end: "dechunk CHUNKED_RESP_END = Some []"
  by (subst dechunk.simps) (simp add: CHUNKED_RESP_END_def digit_val_def)

lemma dechunk_chunks:
  "[] \<notin> set bufs \<Longrightarrow> dechunk (concat (map chunk_encode bufs) @ CHUNKED_RESP_END) = Some (concat bufs)"
  by (induction bufs) (auto simp: dechunk_end dechunk_chunk)

lemma hex_zero: "hex 0 = ''0''"
  by code_simp

lemma chunk_encode_empty: "chunk_encode [] = CHUNKED_RESP_END"
  by (simp add: chunk_encode_def chunk_size_line_def hex_zero CHUNKED_RESP_END_def)

text \<open>
  What the body functions of a client promise: \<open>send_body\<close> adds exactly its bytes to the body and
  counts them, \<open>complete_request\<close> adds nothing.
\<close>

locale body_client =
  fixes c :: "'s restful_client"
    and body :: "'s \<Rightarrow> bytes"
    and binv :: "'s \<Rightarrow> bool"
  assumes body_ok:
      "binv s \<Longrightarrow> rc_send_body c buf s = (Inr n, s') \<Longrightarrow>
         binv s' \<and> body s' = body s @ buf \<and> n = of_nat (length buf)"
    and request_ok:
      "binv s \<Longrightarrow> rc_complete_request c s = (Inr n, s') \<Longrightarrow>
         binv s' \<and> body s' = body s \<and> n = 0"
begin

lemma decorated_body [simp]:
  "rc_send_body (DecoratedRestfulClient c) buf = via (rc_send_body c buf)"
  "rc_complete_request (DecoratedRestfulClient c) = via (rc_complete_request c)"
  by (simp_all add: DecoratedRestfulClient_def)

lemma chunked_body:
  assumes "binv s" and "length buf < 2 ^ 64"
    and "rc_send (ChunkingFilter c) (Send_body buf) (True, s) = (Inr n, fs')"
  shows "fst fs' \<and> binv (snd fs') \<and> body (snd fs') = body s @ chunk_encode buf \<and>
         n = of_nat (length (chunk_encode buf))"
proof -
  note fits = chunk_size_line_fits [OF assms(2)]
  from assms(3) fits obtain x y z s1 s2 where "fst fs'"
    and 1: "rc_send_body c (chunk_size_line (length buf)) s = (Inr x, s1)"
    and 2: "rc_send_body c buf s1 = (Inr y, s2)" and 3: "rc_send_body c CRLF s2 = (Inr z, snd fs')"
    and n: "n = x + y + z"
    by (auto simp: ChunkingFilter_def chk_send_body_def bindE_eq_Inr ret_def)
  note i1 = body_ok [OF assms(1) 1]
  note i2 = body_ok [OF conjunct1 [OF i1] 2]
  from i1 i2 body_ok [OF conjunct1 [OF i2] 3] \<open>fst fs'\<close> n show ?thesis
    by (simp add: chunk_encode_def)
qed

lemma chunked_bodies:
  assumes "binv s" and "\<forall>b \<in> set bufs. length b < 2 ^ 64"
    and "rc_run (ChunkingFilter c) (map Send_body bufs) (True, s) = (Inr ns, fs')"
  shows "fst fs' \<and> binv (snd fs') \<and> body (snd fs') = body s @ concat (map chunk_encode bufs)"
  using assms
proof (induction bufs arbitrary: s ns)
  case Nil
  then show ?case by (auto simp: ret_def)
next
  case (Cons b bufs)
  from Cons.prems(3) obtain n fs1 ms where
    b: "rc_send (ChunkingFilter c) (Send_body b) (True, s) = (Inr n, fs1)"
    and rest: "rc_run (ChunkingFilter c) (map Send_body bufs) fs1 = (Inr ms, fs')"
    by (auto simp: rc_run_Cons_ok simp del: rc_run.simps rc_send.simps)
  from chunked_body [OF Cons.prems(1) _ b] Cons.prems(2) have 1: "fs1 = (True, snd fs1)"
    "binv (snd fs1)" "body (snd fs1) = body s @ chunk_encode b" by (auto simp: prod_eq_iff)
  from rest 1(1) have "rc_run (ChunkingFilter c) (map Send_body bufs) (True, snd fs1) = (Inr ms, fs')"
    by simp
  with Cons.IH [OF 1(2)] Cons.prems(2) 1(3) show ?case by simp
qed

lemma chunked_response:
  assumes "binv s" and "\<forall>b \<in> set bufs. length b < 2 ^ 64"
    and "rc_run (ChunkingFilter c) (map Send_body bufs @ [Complete_request]) (True, s) = (Inr ns, fs')"
  shows "binv (snd fs') \<and>
         body (snd fs') = body s @ concat (map chunk_encode bufs) @ CHUNKED_RESP_END"
proof -
  from assms(3) obtain ms m fs1 where
    bodies: "rc_run (ChunkingFilter c) (map Send_body bufs) (True, s) = (Inr ms, fs1)"
    and last: "rc_complete_request (ChunkingFilter c) fs1 = (Inr m, fs')"
    by (auto simp: rc_run_append bindE_eq_Inr ret_def)
  note i = chunked_bodies [OF assms(1,2) bodies]
  with last obtain x s2 y where 1: "rc_send_body c CHUNKED_RESP_END (snd fs1) = (Inr x, s2)"
    and 2: "rc_complete_request c s2 = (Inr y, snd fs')"
    by (auto simp: ChunkingFilter_def chk_complete_request_def bindE_eq_Inr ret_def Let_def)
  from i have "binv (snd fs1)" by blast
  from body_ok [OF this 1] request_ok [OF _ 2] i show ?thesis by simp
qed

text \<open>The length filter leaves the body functions alone.\<close>

lemma conlen_body:
  "body_client (ConLenControllingFilter c) (\<lambda>fs. body (snd fs)) (\<lambda>fs. binv (snd fs))"
  by unfold_locales
     (auto simp: ConLenControllingFilter_def dest: body_ok request_ok)

end

interpretation client_body:
  body_client "ClientIO B" "\<lambda>s. wire (ob_sink s)" "\<lambda>s. transport_contract B wire \<and> ob_wf s"
  for B :: "'w boost" and wire :: "'w \<Rightarrow> bytes"
  by unfold_locales
     (auto simp: ClientIO_def cl_complete_request_def ret_def dest: cl_send_body_counts)

interpretation conlen_body_client:
  body_client "ConLenControllingFilter (ClientIO B)" "\<lambda>fs. wire (ob_sink (snd fs))"
    "\<lambda>fs. transport_contract B wire \<and> ob_wf (snd fs)"
  for B :: "'w boost" and wire :: "'w \<Rightarrow> bytes"
  by (rule client_body.conlen_body)

section \<open>Reordering\<close>

fun early_headers :: "rcall list \<Rightarrow> (string \<times> string) list" where
  "early_headers [] = []"
| "early_headers (Send_header name val # ks) = (name, val) # early_headers ks"
| "early_headers (_ # ks) = early_headers ks"

fun early_length :: "u64 option \<Rightarrow> rcall list \<Rightarrow> u64 option" where
  "early_length l [] = l"
| "early_length l (Send_content_length len # ks) = early_length (Some len) ks"
| "early_length l (_ # ks) = early_length l ks"

text \<open>
  The calls a handler makes before the header block ends. Fields are always held back, a content
  length until the status has been seen. \<open>send_chunked_transfer_encoding\<close> is not overridden by
  \<open>ReorderingFilter\<close>, so its field is on the stream at once, in whatever phase.
\<close>

fun is_head_call :: "rcall \<Rightarrow> bool" where
  "is_head_call (Send_header _ _) = True"
| "is_head_call (Send_content_length _) = True"
| "is_head_call Send_chunked_transfer_encoding = True"
| "is_head_call _ = False"

text \<open>The bytes of the calls that are not held back; \<open>line\<close> is what a content length sends.\<close>

fun at_once :: "(u64 \<Rightarrow> string) \<Rightarrow> rcall list \<Rightarrow> string" where
  "at_once line [] = []"
| "at_once line (Send_chunked_transfer_encoding # ks) =
     header_line ''Transfer-Encoding'' ''chunked'' @ at_once line ks"
| "at_once line (Send_content_length len # ks) = line len @ at_once line ks"
| "at_once line (_ # ks) = at_once line ks"

definition length_after :: "int \<Rightarrow> u64 \<Rightarrow> string" where
  "length_after status len =
     (if status = 204 \<or> status = 304 then [] else content_length_line len)"

text \<open>The calls the stack makes on its lowest layer.\<close>

lemma stack_inner [simp]:
  "rc_send_header (DecoratedRestfulClient (ChunkingFilter (ConLenControllingFilter (ClientIO B)))) name val =
     via (via (via (cl_send_header B name val)))"
  "rc_complete_header (DecoratedRestfulClient (ChunkingFilter (ConLenControllingFilter (ClientIO B)))) =
     via (via (via (cl_complete_header B)))"
  "rc_send_status (DecoratedRestfulClient (ChunkingFilter (ConLenControllingFilter (ClientIO B)))) status name =
     via (via (clc_send_status (ClientIO B) status name))"
  "rc_send_content_length (DecoratedRestfulClient (ChunkingFilter (ConLenControllingFilter (ClientIO B)))) len =
     via (via (clc_send_content_length (ClientIO B) len))"
  by (simp_all add: DecoratedRestfulClient_def ChunkingFilter_def ConLenControllingFilter_def
        ClientIO_def)

lemma conlen_on_client:
  "clc_send_status (ClientIO B) status name (a, s) =
     via (cl_send_status B status name) (if 204 = status \<or> 304 = status then INHIBIT else FORWARD, s)"
  "clc_send_content_length (ClientIO B) len (FORWARD, s) =
     via (cl_send_content_length B len) (FORWARD, s)"
  by (simp_all add: clc_send_status_def clc_send_content_length_def DecoratedRestfulClient_def
        ClientIO_def)

lemma stack_send_headers:
  assumes "transport_contract B wire" and "ob_wf s"
    and "ro_send_headers (ChunkingFilter (ConLenControllingFilter (ClientIO B))) kvs (f, b, a, s) =
           (Inr n, fs')"
  shows "\<exists>s'. fs' = (f, b, a, s') \<and> ob_wf s' \<and>
           accepted wire s' = accepted wire s @ concat (map (\<lambda>(k, v). header_line k v) kvs)"
  using assms
proof (induction kvs arbitrary: s n)
  case Nil
  then show ?case by (auto simp: ret_def)
next
  case (Cons kv kvs)
  then obtain m s1 k where
    1: "cl_send_header B (fst kv) (snd kv) s = (Inr m, s1)"
    and 2: "ro_send_headers (ChunkingFilter (ConLenControllingFilter (ClientIO B))) kvs (f, b, a, s1) =
              (Inr k, fs')"
    by (auto simp: bindE_eq_Inr ret_def)
  from sendsD [OF sends_send_header [OF Cons.prems(1)] Cons.prems(2) 1] have
    "ob_wf s1" "accepted wire s1 = accepted wire s @ header_line (fst kv) (snd kv)"
    by (auto simp: exactly_def)
  with Cons.IH [OF Cons.prems(1) _ 2] show ?case by (auto simp: case_prod_beta)
qed

text \<open>
  One call on the stack: what it leaves in the filters and what it adds to the stream.
\<close>

lemma stack_chunked:
  assumes t: "transport_contract B wire" and wf: "ob_wf s"
    and run: "rc_send (ReorderingFilter (ChunkingFilter (ConLenControllingFilter (ClientIO B))))
      Send_chunked_transfer_encoding (f, b, a, s) = (Inr n, fs')"
  shows "\<exists>s'. fs' = (f, True, a, s') \<and> ob_wf s' \<and>
      accepted wire s' = accepted wire s @ header_line ''Transfer-Encoding'' ''chunked''"
proof -
  from run obtain s' where fs': "fs' = (f, True, a, s')"
    and c: "cl_send_header B ''Transfer-Encoding'' ''chunked'' s = (Inr n, s')"
    by (cases fs') (auto simp: ReorderingFilter_def ChunkingFilter_def DecoratedRestfulClient_def
        ConLenControllingFilter_def ClientIO_def chk_send_chunked_transfer_encoding_def)
  from sendsD [OF sends_send_header [OF t] wf c] fs' show ?thesis by (auto simp: exactly_def)
qed

lemma stack_length_line:
  assumes t: "transport_contract B wire" and wf: "ob_wf s"
    and a: "a = (if 204 = status \<or> 304 = status then INHIBIT else FORWARD)"
    and run: "rc_send_content_length (DecoratedRestfulClient
        (ChunkingFilter (ConLenControllingFilter (ClientIO B)))) len (f, b, a, s) = (Inr n, fs')"
  shows "\<exists>s'. fs' = (f, b, a, s') \<and> ob_wf s' \<and>
      accepted wire s' = accepted wire s @ length_after status len"
proof (cases "status = 204 \<or> status = 304")
  case True
  with run a wf show ?thesis
    by (cases fs') (auto simp: clc_send_content_length_def ret_def length_after_def)
next
  case False
  with run a obtain s' where "fs' = (f, b, a, s')"
    and c: "cl_send_content_length B len s = (Inr n, s')"
    by (cases fs') (auto simp: conlen_on_client)
  with sendsD [OF sends_send_content_length [OF t] wf c] False show ?thesis
    by (auto simp: exactly_def length_after_def)
qed

text \<open>Runs of head calls before and after the status.\<close>

lemma stack_early:
  assumes t: "transport_contract B wire" and wf: "ob_wf s"
    and "ro_phase f = RGW_EARLY_HEADERS" and "\<forall>k \<in> set ks. is_head_call k"
    and "rc_run (ReorderingFilter (ChunkingFilter (ConLenControllingFilter (ClientIO B)))) ks
      (f, b, a, s) = (Inr ns, fs')"
  shows "\<exists>b' s'. fs' = (f\<lparr>ro_content_length := early_length (ro_content_length f) ks,
         ro_headers := ro_headers f @ early_headers ks\<rparr>, b', a, s') \<and> ob_wf s' \<and>
      accepted wire s' = accepted wire s @ at_once (\<lambda>_. []) ks"
  using assms(2-)
proof (induction ks arbitrary: f b s ns)
  case Nil
  then show ?case by (auto simp: ret_def)
next
  case (Cons k ks)
  let ?R = "ReorderingFilter (ChunkingFilter (ConLenControllingFilter (ClientIO B)))"
  from Cons.prems(4) obtain n fs1 ms where k: "rc_send ?R k (f, b, a, s) = (Inr n, fs1)"
    and ks: "rc_run ?R ks fs1 = (Inr ms, fs')"
    by (auto simp: rc_run_Cons_ok simp del: rc_run.simps rc_send.simps)
  show ?case
  proof (cases "k = Send_chunked_transfer_encoding")
    case True
    from stack_chunked [OF t Cons.prems(1) k [unfolded True]] obtain s1 where
      fs1: "fs1 = (f, True, a, s1)" and s1: "ob_wf s1"
        "accepted wire s1 = accepted wire s @ header_line ''Transfer-Encoding'' ''chunked''" by blast
    from Cons.IH [OF s1(1) Cons.prems(2) _ ks [unfolded fs1]] Cons.prems(3) s1(2) True
    show ?thesis by auto
  next
    case False
    with k Cons.prems(2,3) have "fs1 = (f\<lparr>ro_content_length := early_length (ro_content_length f) [k],
        ro_headers := ro_headers f @ early_headers [k]\<rparr>, b, a, s)"
      by (cases k) (auto simp: ReorderingFilter_def ro_send_header_def ro_send_content_length_def)
    with Cons.IH [OF Cons.prems(1) _ _ ks [unfolded this]] Cons.prems(2,3) False show ?thesis
      by (cases k) auto
  qed
qed

lemma stack_seen:
  assumes t: "transport_contract B wire" and wf: "ob_wf s"
    and a: "a = (if 204 = status \<or> 304 = status then INHIBIT else FORWARD)"
    and "ro_phase f = RGW_STATUS_SEEN" and "\<forall>k \<in> set ks. is_head_call k"
    and "rc_run (ReorderingFilter (ChunkingFilter (ConLenControllingFilter (ClientIO B)))) ks
      (f, b, a, s) = (Inr ns, fs')"
  shows "\<exists>b' s'. fs' = (f\<lparr>ro_headers := ro_headers f @ early_headers ks\<rparr>, b', a, s') \<and> ob_wf s' \<and>
      accepted wire s' = accepted wire s @ at_once (length_after status) ks"
  using wf assms(4-)
proof (induction ks arbitrary: f b s ns)
  case Nil
  then show ?case by (auto simp: ret_def)
next
  case (Cons k ks)
  let ?R = "ReorderingFilter (ChunkingFilter (ConLenControllingFilter (ClientIO B)))"
  from Cons.prems(4) obtain n fs1 ms where k: "rc_send ?R k (f, b, a, s) = (Inr n, fs1)"
    and ks: "rc_run ?R ks fs1 = (Inr ms, fs')"
    by (auto simp: rc_run_Cons_ok simp del: rc_run.simps rc_send.simps)
  have "\<exists>b1 s1. fs1 = (f\<lparr>ro_headers := ro_headers f @ early_headers [k]\<rparr>, b1, a, s1) \<and> ob_wf s1 \<and>
      accepted wire s1 = accepted wire s @ at_once (length_after status) [k]"
  proof (cases k)
    case (Send_header name val)
    with k Cons.prems(1,2) show ?thesis by (auto simp: ReorderingFilter_def ro_send_header_def)
  next
    case (Send_content_length len)
    with k Cons.prems(2) have "rc_send_content_length (DecoratedRestfulClient
        (ChunkingFilter (ConLenControllingFilter (ClientIO B)))) len (f, b, a, s) = (Inr n, fs1)"
      by (simp add: ReorderingFilter_def ro_send_content_length_def)
    from stack_length_line [OF t Cons.prems(1) a this] Send_content_length show ?thesis by auto
  next
    case Send_chunked_transfer_encoding
    with stack_chunked [OF t Cons.prems(1), of f b a n fs1] k show ?thesis by auto
  qed (use Cons.prems(3) in simp_all)
  then obtain b1 s1 where fs1: "fs1 = (f\<lparr>ro_headers := ro_headers f @ early_headers [k]\<rparr>, b1, a, s1)"
    and s1: "ob_wf s1" "accepted wire s1 = accepted wire s @ at_once (length_after status) [k]" by blast
  from Cons.IH [OF s1(1) _ _ ks [unfolded fs1]] Cons.prems(2,3) s1(2) show ?case
    by (cases k) auto
qed

text \<open>The run of \<open>complete_header\<close> on the stack once the status has been seen.\<close>

lemma stack_complete_header:
  assumes t: "transport_contract B wire" and wf: "ob_wf s"
    and a: "a = (if 204 = status \<or> 304 = status then INHIBIT else FORWARD)"
    and run: "ro_complete_header (ChunkingFilter (ConLenControllingFilter (ClientIO B))) (f, b, a, s) =
                (Inr n, fs')"
  shows "\<exists>now keep. wire (ob_sink (snd (snd (snd fs')))) = accepted wire s @
      (case ro_content_length f of None \<Rightarrow> [] | Some len \<Rightarrow> length_after status len) @
      concat (map (\<lambda>(k, v). header_line k v) (ro_headers f)) @ header_tail now keep"
proof -
  define f1 where "f1 = f\<lparr>ro_phase := RGW_DATA\<rparr>"
  from run obtain x y z s1 s2 fs3 where
    1: "(case ro_content_length f of None \<Rightarrow> ret 0
          | Some len \<Rightarrow> rc_send_content_length (DecoratedRestfulClient
              (ChunkingFilter (ConLenControllingFilter (ClientIO B)))) len) (f1, b, a, s) = (Inr x, s1)"
    and 2: "ro_send_headers (ChunkingFilter (ConLenControllingFilter (ClientIO B))) (ro_headers f) s1 =
              (Inr y, s2)"
    and 3: "ro_clear_headers s2 = (Inr (), fs3)"
    and 4: "via (via (via (cl_complete_header B))) fs3 = (Inr z, fs')"
    by (auto simp: ro_complete_header_def Let_def bindE_eq_Inr ret_def f1_def)
  have "\<exists>s'. s1 = (f1, b, a, s') \<and> ob_wf s' \<and> accepted wire s' = accepted wire s @
      (case ro_content_length f of None \<Rightarrow> [] | Some len \<Rightarrow> length_after status len)"
    using 1 wf stack_length_line [OF t wf a, of _ f1 b x s1]
    by (cases "ro_content_length f") (auto simp: ret_def simp del: stack_inner)
  then obtain s' where s1: "s1 = (f1, b, a, s')" "ob_wf s'" "accepted wire s' = accepted wire s @
      (case ro_content_length f of None \<Rightarrow> [] | Some len \<Rightarrow> length_after status len)" by blast
  from stack_send_headers [OF t s1(2) 2 [unfolded s1(1)]] obtain s'' where
    s2: "s2 = (f1, b, a, s'')" "ob_wf s''"
      "accepted wire s'' = accepted wire s' @ concat (map (\<lambda>(k, v). header_line k v) (ro_headers f))"
    by blast
  from 3 4 s2(1) have "cl_complete_header B s'' = (Inr z, snd (snd (snd fs')))"
    by (auto simp: ro_clear_headers_def)
  from complete_header_flushes [OF t s2(2) this] s1(3) s2(3) show ?thesis by simp
qed

section \<open>Properties\<close>

text \<open>
  \<open>AccountingFilter\<close> counts exactly. After any sequence of output calls that returns normally,
  \<open>get_bytes_sent\<close> has grown (modulo the width of its counter) by the number of bytes the stream
  grew by when accounting was enabled, and not at all when it was disabled; the calls never switch
  accounting on or off.
\<close>
lemma accounting_exact:
  assumes "transport_contract B wire" and "ob_wf (snd fs)"
    and "rc_run (AccountingFilter (ClientIO B)) ks (set_account enabled fs) = (Inr ns, fs')"
  shows "acc_enabled (fst fs') = enabled \<and>
         get_bytes_sent fs' = get_bytes_sent fs +
           (if enabled
            then of_nat (length (accepted wire (snd fs')) - length (accepted wire (snd fs)))
            else 0)"
  using client_counts.accounting_run [OF _ assms(3), of wire] assms(1,2)
  by (simp add: set_account_def get_bytes_sent_def)

abbreviation fresh_client :: "bytes clientio" where
  "fresh_client \<equiv> ClientIO_new (replicate BufferSizeV NUL) False 8888 ''10.0.0.1'' []"

lemma demo_reliable: "reliable demo_boost"
  by (simp add: reliable_def demo_boost_def)

lemma accounting_exact_example:
  "\<exists>ns fs'. rc_run (AccountingFilter (ClientIO demo_boost)) [Send_status 200 ''OK'', Complete_header]
       (set_account True (AccountingFilter_new, fresh_client)) = (Inr ns, fs') \<and>
     get_bytes_sent fs' = of_nat (length (accepted id (snd fs')))"
proof -
  let ?fs = "(AccountingFilter_new, fresh_client)"
  have "\<exists>ns s'. rc_run (AccountingFilter (ClientIO demo_boost)) [Send_status 200 ''OK'', Complete_header]
      (set_account True ?fs) = (Inr ns, s') \<and> reliable demo_boost \<and> ob_wf (snd s')"
    by (rule accounting_total.run_total)
       (simp_all add: demo_reliable demo_wf set_account_def status_line_def STATUS_BUF_SIZE_def
          dec_int_def dec_def print_base.simps)
  then obtain ns fs' where r: "rc_run (AccountingFilter (ClientIO demo_boost))
      [Send_status 200 ''OK'', Complete_header] (set_account True ?fs) = (Inr ns, fs')" by blast
  have wf: "ob_wf (snd ?fs)" by (simp add: demo_wf)
  have "accepted id fresh_client = []" by (simp add: accepted_def pending_def ClientIO_new_def)
  with accounting_exact [OF demo_transport wf r]
  have "get_bytes_sent fs' = of_nat (length (accepted id (snd fs')))"
    by (simp add: get_bytes_sent_def AccountingFilter_new_def)
  with r show ?thesis by blast
qed

text \<open>
  C11: The filter stack of the front end puts a response head in order. Fields, content lengths
  and \<open>send_chunked_transfer_encoding\<close> may be given before and after the status, in any order and
  number. After \<open>complete_header\<close> the wire has, in this order: the Transfer-Encoding fields of the
  calls before the status (the one thing the stack does not hold back, so that a status line after
  them is no longer first), the status line, what was sent at once after it (Transfer-Encoding
  fields and content lengths), the last content length given before the status, all fields in the
  order they were given, and the tail \<open>ClientIO\<close> adds; content lengths are left out when the
  status is 204 or 304, and nothing stays buffered.
\<close>
theorem stack_orders_response_head:
  assumes t: "transport_contract B wire" and wf: "ob_wf s"
    and early: "\<forall>k \<in> set early. is_head_call k" and mid: "\<forall>k \<in> set mid. is_head_call k"
    and fits: "length (status_line status name) < STATUS_BUF_SIZE"
    and run: "rc_run (response_stack B) (early @ [Send_status status name] @ mid @ [Complete_header])
                (real_client_io s) = (Inr ns, fs')"
  shows "\<exists>now keep. wire (ob_sink (snd (snd (snd fs')))) =
      accepted wire s @ at_once (\<lambda>_. []) early @ status_line status name @
      at_once (length_after status) mid @
      (case early_length None early of None \<Rightarrow> [] | Some len \<Rightarrow> length_after status len) @
      concat (map (\<lambda>(k, v). header_line k v) (early_headers early @ early_headers mid)) @
      header_tail now keep"
proof -
  define c where "c = ChunkingFilter (ConLenControllingFilter (ClientIO B))"
  define a where "a = (if 204 = status \<or> 304 = status then INHIBIT else FORWARD)"
  from run obtain es n ms fs0 fs1 where
    e: "rc_run (ReorderingFilter c) early (ReorderingFilter_new, False, UNKNOWN, s) = (Inr es, fs0)"
    and st: "rc_send (ReorderingFilter c) (Send_status status name) fs0 = (Inr n, fs1)"
    and rest: "rc_run (ReorderingFilter c) (mid @ [Complete_header]) fs1 = (Inr ms, fs')"
    by (auto simp: response_stack_def real_client_io_def add_reordering_def add_chunking_def
        add_conlen_controlling_def rc_run_append bindE_eq_Inr ret_def simp flip: c_def)
  define f1 where "f1 = ReorderingFilter_new\<lparr>ro_content_length := early_length None early,
      ro_headers := early_headers early\<rparr>"
  from stack_early [OF t wf _ early e [unfolded c_def]] obtain b0 s0 where
    fs0: "fs0 = (f1, b0, UNKNOWN, s0)" and s0: "ob_wf s0"
      "accepted wire s0 = accepted wire s @ at_once (\<lambda>_. []) early"
    by (auto simp: ReorderingFilter_new_def f1_def)
  from st obtain s1 where fs1: "fs1 = (f1\<lparr>ro_phase := RGW_STATUS_SEEN\<rparr>, b0, a, s1)"
    and st: "cl_send_status B status name s0 = (Inr n, s1)"
    by (cases fs1) (auto simp: ReorderingFilter_def ro_send_status_def c_def conlen_on_client a_def fs0)
  from sendsD [OF sends_send_status [OF t] s0(1) st] fits
  have s1: "ob_wf s1" "accepted wire s1 = accepted wire s0 @ status_line status name"
    by (auto simp: exactly_def)
  from rest obtain ks m fs2 where
    md: "rc_run (ReorderingFilter c) mid (f1\<lparr>ro_phase := RGW_STATUS_SEEN\<rparr>, b0, a, s1) = (Inr ks, fs2)"
    and m: "ro_complete_header c fs2 = (Inr m, fs')"
    by (auto simp: rc_run_append bindE_eq_Inr ret_def ReorderingFilter_def fs1)
  from stack_seen [OF t s1(1) a_def _ mid md [unfolded c_def]] obtain b2 s2 where
    fs2: "fs2 = (f1\<lparr>ro_phase := RGW_STATUS_SEEN, ro_headers := early_headers early @ early_headers mid\<rparr>,
      b2, a, s2)" and s2: "ob_wf s2" "accepted wire s2 = accepted wire s1 @ at_once (length_after status) mid"
    by (auto simp: f1_def)
  from stack_complete_header [OF t s2(1) a_def m [unfolded fs2 c_def]] s0(2) s1(2) s2(2)
  show ?thesis
    by (simp add: f1_def)
qed

theorem stack_orders_response_head_witness:
  "\<exists>ns fs'. rc_run (response_stack demo_boost)
       ([Send_header ''A'' ''1'', Send_content_length 5] @ [Send_status 200 ''OK''] @
        [Send_header ''B'' ''2'', Send_chunked_transfer_encoding] @ [Complete_header])
       (real_client_io fresh_client) = (Inr ns, fs') \<and>
     (\<exists>now keep. ob_sink (snd (snd (snd fs'))) = status_line 200 ''OK'' @
        header_line ''Transfer-Encoding'' ''chunked'' @ content_length_line 5 @
        header_line ''A'' ''1'' @ header_line ''B'' ''2'' @ header_tail now keep)"
proof -
  let ?early = "[Send_header ''A'' ''1'', Send_content_length 5]"
  let ?mid = "[Send_header ''B'' ''2'', Send_chunked_transfer_encoding]"
  let ?ks = "?early @ [Send_status 200 ''OK''] @ ?mid @ [Complete_header]"
  have fits: "length (status_line 200 ''OK'') < STATUS_BUF_SIZE"
    by (simp add: status_line_def STATUS_BUF_SIZE_def dec_int_def dec_def print_base.simps)
  have "\<exists>ns s'. rc_run (response_stack demo_boost) ?ks (real_client_io fresh_client) = (Inr ns, s') \<and>
      reliable demo_boost \<and> ob_wf (snd (snd (snd s')))"
    by (rule stack_total.run_total)
       (use fits in \<open>simp_all add: demo_reliable demo_wf real_client_io_def add_reordering_def
          add_chunking_def add_conlen_controlling_def\<close>)
  then obtain ns fs' where r: "rc_run (response_stack demo_boost) ?ks (real_client_io fresh_client) =
      (Inr ns, fs')" by blast
  from stack_orders_response_head [OF demo_transport demo_wf _ _ fits r]
  have "\<exists>now keep. ob_sink (snd (snd (snd fs'))) = status_line 200 ''OK'' @
      header_line ''Transfer-Encoding'' ''chunked'' @ content_length_line 5 @
      header_line ''A'' ''1'' @ header_line ''B'' ''2'' @ header_tail now keep"
    by (simp add: accepted_def pending_def ClientIO_new_def length_after_def)
  with r show ?thesis by blast
qed

text \<open>
  C10: The chunked response body round-trips. With chunking enabled, sending non-empty pieces and
  then \<open>complete_request\<close> through the chunking filter over the length filter over the client puts
  on the wire exactly a message in the chunked coding that decodes to the concatenation of the
  pieces.
\<close>
theorem chunked_body_roundtrip:
  assumes "transport_contract B wire" and "ob_wf s"
    and "\<forall>b \<in> set bufs. length b < 2 ^ 64" and "[] \<notin> set bufs"
    and "rc_run (ChunkingFilter (ConLenControllingFilter (ClientIO B)))
           (map Send_body bufs @ [Complete_request]) (True, a, s) = (Inr ns, fs')"
  shows "\<exists>coded. wire (ob_sink (snd (snd fs'))) = wire (ob_sink s) @ coded \<and>
           dechunk coded = Some (concat bufs)"
  using conlen_body_client.chunked_response [OF _ assms(3,5), of wire] assms(1,2)
    dechunk_chunks [OF assms(4)] by simp

lemma chunk_run_demo:
  assumes "\<forall>b \<in> set bufs. length b < 2 ^ 64"
  shows "\<exists>ns fs'. rc_run (ChunkingFilter (ConLenControllingFilter (ClientIO demo_boost)))
      (map Send_body bufs @ [Complete_request]) (True, FORWARD, fresh_client) = (Inr ns, fs')"
proof -
  have "\<exists>ns s'. rc_run (ChunkingFilter (ConLenControllingFilter (ClientIO demo_boost)))
      (map Send_body bufs @ [Complete_request]) (True, FORWARD, fresh_client) = (Inr ns, s') \<and>
      reliable demo_boost \<and> ob_wf (snd (snd s'))"
    by (rule chunking_total.run_total) (use assms in \<open>auto simp: demo_reliable demo_wf\<close>)
  then show ?thesis by blast
qed

theorem chunked_body_roundtrip_witness:
  "\<exists>ns fs'. rc_run (ChunkingFilter (ConLenControllingFilter (ClientIO demo_boost)))
       (map Send_body [''hello'', ''world''] @ [Complete_request]) (True, FORWARD, fresh_client) =
       (Inr ns, fs') \<and> dechunk (ob_sink (snd (snd fs'))) = Some ''helloworld''"
proof -
  have l: "\<forall>b \<in> set [''hello'', ''world'']. length b < 2 ^ 64" by simp
  from chunk_run_demo [OF l] obtain ns fs' where
    r: "rc_run (ChunkingFilter (ConLenControllingFilter (ClientIO demo_boost)))
      (map Send_body [''hello'', ''world''] @ [Complete_request]) (True, FORWARD, fresh_client) =
      (Inr ns, fs')" by blast
  from chunked_body_roundtrip [OF demo_transport demo_wf l _ r]
  have "dechunk (ob_sink (snd (snd fs'))) = Some ''helloworld''" by (simp add: ClientIO_new_def)
  with r show ?thesis by blast
qed

text \<open>
  An empty piece cuts the body short. With chunking enabled, a \<open>send_body\<close> of zero bytes emits
  the same bytes as the end of the message, so what was sent up to there is by itself a complete
  message that decodes to the pieces before the empty one, and everything after it is outside the
  message.
\<close>
lemma chunked_empty_piece_ends_body:
  assumes "transport_contract B wire" and "ob_wf s"
    and "\<forall>b \<in> set (before @ [] # after). length b < 2 ^ 64" and "[] \<notin> set before"
    and "rc_run (ChunkingFilter (ConLenControllingFilter (ClientIO B)))
           (map Send_body (before @ [] # after) @ [Complete_request]) (True, a, s) = (Inr ns, fs')"
  shows "\<exists>msg rest. wire (ob_sink (snd (snd fs'))) = wire (ob_sink s) @ msg @ rest \<and>
           dechunk msg = Some (concat before) \<and> rest \<noteq> []"
proof (intro exI conjI)
  let ?msg = "concat (map chunk_encode before) @ CHUNKED_RESP_END"
  let ?rest = "concat (map chunk_encode after) @ CHUNKED_RESP_END"
  show "wire (ob_sink (snd (snd fs'))) = wire (ob_sink s) @ ?msg @ ?rest"
    using conlen_body_client.chunked_response [OF _ assms(3,5), of wire] assms(1,2)
    by (simp add: chunk_encode_empty)
  show "dechunk ?msg = Some (concat before)" by (rule dechunk_chunks [OF assms(4)])
  show "?rest \<noteq> []" by (simp add: CHUNKED_RESP_END_def)
qed

lemma chunked_empty_piece_ends_body_example:
  "\<exists>ns fs' msg rest. rc_run (ChunkingFilter (ConLenControllingFilter (ClientIO demo_boost)))
       (map Send_body ([''ab''] @ [] # [''cd'']) @ [Complete_request]) (True, FORWARD, fresh_client) =
       (Inr ns, fs') \<and> ob_sink (snd (snd fs')) = msg @ rest \<and> dechunk msg = Some ''ab'' \<and> rest \<noteq> []"
proof -
  have l: "\<forall>b \<in> set ([''ab''] @ [] # [''cd'']). length b < 2 ^ 64" by simp
  from chunk_run_demo [OF l] obtain ns fs' where
    r: "rc_run (ChunkingFilter (ConLenControllingFilter (ClientIO demo_boost)))
      (map Send_body ([''ab''] @ [] # [''cd'']) @ [Complete_request]) (True, FORWARD, fresh_client) =
      (Inr ns, fs')" by blast
  from chunked_empty_piece_ends_body [OF demo_transport demo_wf l _ r]
  have "\<exists>msg rest. ob_sink (snd (snd fs')) = msg @ rest \<and> dechunk msg = Some ''ab'' \<and> rest \<noteq> []"
    by (simp add: ClientIO_new_def)
  with r show ?thesis by blast
qed

text \<open>
  \<open>ConLenControllingFilter\<close> on every branch. After a status that was sent normally,
  \<open>send_content_length\<close> sends nothing and returns 0 when the status was 204 or 304 and is the
  decoratee's own call otherwise; before any status it sends nothing and returns \<open>-EINVAL\<close> as a
  \<open>size_t\<close>, a count of almost 2^64 bytes for a caller that adds the returned values up.
\<close>
lemma conlen_controls:
  "(rc_send (ConLenControllingFilter c) (Send_status status name) (a, s) = (Inr n, (a', s')) \<longrightarrow>
     rc_send c (Send_status status name) s = (Inr n, s') \<and>
     rc_send (ConLenControllingFilter c) (Send_content_length len) (a', s') =
       (if status = 204 \<or> status = 304 then (Inr 0, (a', s'))
        else via (rc_send c (Send_content_length len)) (a', s'))) \<and>
   rc_send (ConLenControllingFilter c) (Send_content_length len) (add_conlen_controlling s) =
     (Inr (2 ^ 64 - 22), add_conlen_controlling s)"
  by (auto simp: ConLenControllingFilter_def clc_send_status_def clc_send_content_length_def
        DecoratedRestfulClient_def add_conlen_controlling_def ret_def EINVAL_def split: if_splits)

lemma conlen_controls_example:
  "\<exists>n a' s'. rc_send (ConLenControllingFilter (ClientIO demo_boost)) (Send_status 304 ''NM'')
       (UNKNOWN, fresh_client) = (Inr n, (a', s')) \<and>
     rc_send (ConLenControllingFilter (ClientIO demo_boost)) (Send_content_length 9) (a', s') =
       (Inr 0, (a', s'))"
proof -
  have "\<exists>ns s'. rc_run (ConLenControllingFilter (ClientIO demo_boost)) [Send_status 304 ''NM'']
      (UNKNOWN, fresh_client) = (Inr ns, s') \<and> reliable demo_boost \<and> ob_wf (snd s')"
    by (rule conlen_total.run_total)
       (simp_all add: demo_reliable demo_wf status_line_def STATUS_BUF_SIZE_def
          dec_int_def dec_def print_base.simps)
  then obtain n fs' where r: "rc_send (ConLenControllingFilter (ClientIO demo_boost))
      (Send_status 304 ''NM'') (UNKNOWN, fresh_client) = (Inr n, fs')"
    by (auto simp: rc_run_Cons_ok simp del: rc_run.simps)
  then obtain a' s' where "rc_send (ConLenControllingFilter (ClientIO demo_boost))
      (Send_status 304 ''NM'') (UNKNOWN, fresh_client) = (Inr n, (a', s'))" by (metis surj_pair)
  with conlen_controls [of "ClientIO demo_boost" 304 "''NM''" UNKNOWN fresh_client n a' s' 9]
  show ?thesis by auto
qed

end
