(* ===== verification/Process.thy ===== *)
theory Process
  imports ClientIO
begin

text \<open>
  \<open>boost_cpp/httpserver/process.cc\<close>: \<open>putobj\<close>, which receives an uploaded body and answers it, and
  \<open>process\<close>, which picks the operation by the request's method. Both are called on the
  \<open>ClientIO\<close> object itself. \<open>std::stoi\<close> is modelled as the standard library defines it.
\<close>

section \<open>stoi\<close>

text \<open>The digits \<open>strtol\<close> converts: after white space and an optional sign, up to a non-digit.\<close>

definition split_sign :: "string \<Rightarrow> bool \<times> string" where
  "split_sign s =
     (case s of
        [] \<Rightarrow> (False, [])
      | c # cs \<Rightarrow> if c = CHR ''-'' then (True, cs) else if c = CHR ''+'' then (False, cs) else (False, s))"

definition stoi :: "string \<Rightarrow> exn + int" where
  "stoi s =
     (let (neg, rest) = split_sign (dropWhile is_space s);
          digits = takeWhile is_digit rest
      in case (if digits = [] then None else read_base 10 0 digits) of
           None \<Rightarrow> Inl (Std_exception ''invalid_argument'')
         | Some n \<Rightarrow>
             let v = (if neg then - int n else int n) in
             if v < INT_MIN \<or> INT_MAX < v then Inl (Std_exception ''out_of_range'') else Inr v)"

lemma stoi_dec_cases:
  "stoi (dec n) = (if int n \<le> INT_MAX then Inr (int n) else Inl (Std_exception ''out_of_range''))"
proof -
  obtain c cs where d: "dec n = c # cs" by (cases "dec n") auto
  with dec_digits [of n] have c: "is_digit c" by simp
  have "dropWhile is_space (dec n) = dec n" using d digit_not_space [OF c] by simp
  moreover have "split_sign (dec n) = (False, dec n)" using d digit_not_sign [OF c]
    by (simp add: split_sign_def)
  moreover have "takeWhile is_digit (dec n) = dec n" using dec_digits by (simp add: takeWhile_eq_all_conv)
  ultimately show ?thesis
    by (simp add: stoi_def read_dec INT_MIN_def Let_def del: takeWhile_eq_all_conv)
qed

lemma stoi_dec: "int n \<le> INT_MAX \<Longrightarrow> stoi (dec n) = Inr (int n)"
  by (simp add: stoi_dec_cases)

section \<open>The upload\<close>

text \<open>\<open>new char[need_len + 1]\<close>, with the addition in \<open>int\<close>.\<close>

definition new_char_array :: "int \<Rightarrow> ('s, unit) action" where
  "new_char_array need_len =
     (if need_len = INT_MAX then throw (Undefined ''signed overflow in need_len + 1'')
      else if need_len + 1 < 0 then throw (Std_exception ''bad_array_new_length'')
      else ret ())"

text \<open>\<open>recv_body(buf, need_len)\<close> with the conversion to \<open>size_t\<close>, and the terminator after it.\<close>

definition fill_buffer :: "'w boost \<Rightarrow> int \<Rightarrow> ('w clientio, bytes) action" where
  "fill_buffer B need_len =
     bindE (cl_recv_body B (nat (need_len mod 2 ^ 64))) (\<lambda>bs.
       if need_len < 0 then throw (Undefined ''store outside the body buffer'')
       else ret bs)"

definition env_lookup :: "string \<Rightarrow> ('w clientio, string option) action" where
  "env_lookup name s = (Inr (get_val name s), s)"

definition liftE :: "exn + 'a \<Rightarrow> ('s, 'a) action" where
  "liftE r s = (r, s)"

definition putobj :: "'w boost \<Rightarrow> ('w clientio, int) action" where
  "putobj B =
     bindE (cl_send_100_continue B) (\<lambda>_.
     bindE (env_lookup ''CONTENT_LENGTH'') (\<lambda>conlen.
       case conlen of
         None \<Rightarrow> ret 400
       | Some v \<Rightarrow>
           bindE (liftE (stoi v)) (\<lambda>need_len.
           bindE (new_char_array need_len) (\<lambda>_.
           bindE (fill_buffer B need_len) (\<lambda>buf.
           bindE (cl_send_status B 200 ''OK'') (\<lambda>_.
           bindE (cl_send_header B ''Content-Length'' ''0'') (\<lambda>_.
           bindE (cl_complete_header B) (\<lambda>_.
           bindE cl_complete_request (\<lambda>_. ret 200)))))))))"

section \<open>The dispatch\<close>

text \<open>
  \<open>http_ret\<close> is passed by reference: the result is its value afterwards. The last branch assigns
  400 to it and then falls through to the assignment of \<open>ret\<close> at the end of the function.
\<close>

definition process :: "'w boost \<Rightarrow> verb \<Rightarrow> int \<Rightarrow> ('w clientio, int) action" where
  "process B method http_ret =
     (if method = Put \<or> method = Post then bindE (putobj B) (\<lambda>r. ret r)
      else if method = Get then ret http_ret
      else if method = Head then ret http_ret
      else (let r = 0; http_ret1 = (400 :: int); http_ret2 = r in ret http_ret2))"

section \<open>Properties\<close>

definition upload_head :: string where
  "upload_head = continue_line @ status_line 200 ''OK'' @ header_line ''Content-Length'' ''0''"

lemma status_200_fits: "length (status_line 200 ''OK'') < STATUS_BUF_SIZE"
  by (simp add: status_line_def STATUS_BUF_SIZE_def dec_int_def dec_def print_base.simps)

text \<open>The part of \<open>putobj\<close> after the body has arrived.\<close>

definition upload_answer :: "'w boost \<Rightarrow> ('w clientio, int) action" where
  "upload_answer B =
     bindE (cl_send_status B 200 ''OK'') (\<lambda>_.
     bindE (cl_send_header B ''Content-Length'' ''0'') (\<lambda>_.
     bindE (cl_complete_header B) (\<lambda>_.
     bindE cl_complete_request (\<lambda>_. ret 200))))"

lemma returns_upload_answer: "returns B (upload_answer B)"
  unfolding upload_answer_def cl_send_status_def cl_send_header_def cl_complete_request_def
  by (simp add: status_200_fits returns_rules returns_complete_header)

text \<open>The answer up to the end of its header block.\<close>

lemma upload_answer_head:
  assumes t: "transport_contract B wire" and wf: "ob_wf s" and run: "upload_answer B s = (Inr r, s')"
  obtains n s1 m s2 k where "cl_send_status B 200 ''OK'' s = (Inr n, s1)"
    and "cl_send_header B ''Content-Length'' ''0'' s1 = (Inr m, s2)"
    and "cl_complete_header B s2 = (Inr k, s')" and "r = 200" and "ob_wf s2"
    and "accepted wire s2 = accepted wire s @ status_line 200 ''OK'' @ header_line ''Content-Length'' ''0''"
proof -
  from run obtain n s1 m s2 k where
    1: "cl_send_status B 200 ''OK'' s = (Inr n, s1)"
    and 2: "cl_send_header B ''Content-Length'' ''0'' s1 = (Inr m, s2)"
    and 3: "cl_complete_header B s2 = (Inr k, s')" and r: "r = 200"
    by (auto simp: upload_answer_def bindE_eq_Inr ret_def cl_complete_request_def)
  from sendsD [OF sends_send_status [OF t] wf 1] status_200_fits
  have s1: "ob_wf s1" "accepted wire s1 = accepted wire s @ status_line 200 ''OK''"
    by (auto simp: exactly_def)
  from sendsD [OF sends_send_header [OF t] s1(1) 2]
  have s2: "ob_wf s2" "accepted wire s2 = accepted wire s1 @ header_line ''Content-Length'' ''0''"
    by (auto simp: exactly_def)
  from that [OF 1 2 3 r s2(1)] s1(2) s2(2) show ?thesis by simp
qed

lemma sends_upload_answer:
  assumes t: "transport_contract B wire" and wf: "ob_wf s" and run: "upload_answer B s = (Inr r, s')"
  shows "\<exists>now keep. r = 200 \<and> wire (ob_sink s') = accepted wire s @ status_line 200 ''OK'' @
           header_line ''Content-Length'' ''0'' @ header_tail now keep"
proof -
  obtain n s1 m s2 k where "cl_complete_header B s2 = (Inr k, s')" "r = 200" "ob_wf s2"
    "accepted wire s2 = accepted wire s @ status_line 200 ''OK'' @ header_line ''Content-Length'' ''0''"
    by (rule upload_answer_head [OF assms])
  with complete_header_flushes [OF t] show ?thesis by fastforce
qed

lemma putobj_split:
  "putobj B =
     bindE (cl_send_100_continue B) (\<lambda>_.
     bindE (env_lookup ''CONTENT_LENGTH'') (\<lambda>conlen.
       case conlen of
         None \<Rightarrow> ret 400
       | Some v \<Rightarrow>
           bindE (liftE (stoi v)) (\<lambda>need_len.
           bindE (new_char_array need_len) (\<lambda>_.
           bindE (fill_buffer B need_len) (\<lambda>buf. upload_answer B)))))"
  unfolding putobj_def upload_answer_def by (rule refl)

text \<open>The object after the 100-continue: same environment, the line on the stream.\<close>

lemma continue_flushed:
  assumes t: "transport_contract B wire" and wf: "ob_wf s" and run: "cl_send_100_continue B s = (Inr n, s1)"
  shows "ob_wf s1" and "obuf.more s1 = obuf.more s"
    and "wire (ob_sink s1) = accepted wire s @ continue_line" and "pending s1 = []"
proof -
  note sent = sendsD [OF sends_send_100_continue [OF t] wf run]
  have acc: "accepted wire s1 = accepted wire s @ continue_line" using sent(3) by (auto simp: exactly_def)
  from run obtain s0 k where k: "cl_sputn B continue_line s = (Inr k, s0)"
    and fl: "cl_flush B s0 = (Inr (), s1)"
    by (auto simp: cl_send_100_continue_def bindE_eq_Inr ret_def)
  from cl_flush_empties [OF t sendsD(1) [OF sends_cl_sputn [OF t] wf k] fl]
  show "pending s1 = []" by simp
  with acc sent(1,2) show "ob_wf s1" "obuf.more s1 = obuf.more s"
    "wire (ob_sink s1) = accepted wire s @ continue_line" by (simp_all add: accepted_def)
qed

lemma continue_sent:
  assumes "reliable B" and "transport_contract B wire" and "ob_wf s"
  shows "\<exists>n s1. cl_send_100_continue B s = (Inr n, s1) \<and> ob_wf s1 \<and>
           obuf.more s1 = obuf.more s \<and> wire (ob_sink s1) = accepted wire s @ continue_line \<and>
           pending s1 = []"
proof -
  have "returns B (cl_send_100_continue B)"
    using client_total.total [of Send_100_continue B] by (simp add: ClientIO_def)
  with assms(1,3) obtain n s1 where run: "cl_send_100_continue B s = (Inr n, s1)"
    unfolding runs_def by blast
  with continue_flushed [OF assms(2,3) run] show ?thesis by blast
qed

lemma more_get_val: "obuf.more s1 = obuf.more s \<Longrightarrow> get_val name s1 = get_val name s"
  by (cases s; cases s1) (simp add: get_val_def)

text \<open>The run of an upload: the 100-continue, the body, the answer.\<close>

lemma upload_reaches_body:
  assumes t: "transport_contract B wire" and wf: "ob_wf s" and m: "method = Put \<or> method = Post"
    and len: "get_val ''CONTENT_LENGTH'' s = Some v" "stoi v = Inr n" "0 \<le> n" "n < INT_MAX"
    and run: "cl_send_100_continue B s = (Inr k, s1)"
  shows "process B method h s = bindE (cl_recv_body B (nat n)) (\<lambda>_. upload_answer B) s1"
proof -
  have nm: "nat (n mod 2 ^ 64) = nat n" using len(3,4) by (simp add: INT_MAX_def)
  have "get_val ''CONTENT_LENGTH'' s1 = Some v"
    using more_get_val [OF continue_flushed(2) [OF t wf run]] len(1) by simp
  then show ?thesis
    using m run len(2-4) nm
    by (auto simp: process_def putobj_split bindE_def env_lookup_def liftE_def new_char_array_def fill_buffer_def
        ret_def split: prod.splits sum.splits)
qed

lemma upload_reaches_answer:
  assumes t: "transport_contract B wire" and wf: "ob_wf s" and m: "method = Put \<or> method = Post"
    and len: "get_val ''CONTENT_LENGTH'' s = Some v" "stoi v = Inr n" "0 \<le> n" "n < INT_MAX"
    and run: "cl_send_100_continue B s = (Inr k, s1)"
    and body: "recv_loop B [] (nat n) (ob_sink s1) = Some (Inr bs, w')"
  obtains s2 where "cl_recv_body B (nat n) s1 = (Inr bs, s2)" and "ob_wf s2"
    and "accepted wire s2 = accepted wire s @ continue_line"
    and "process B method h s = upload_answer B s2"
proof -
  note s1 = continue_flushed [OF t wf run]
  obtain s2 where rb: "cl_recv_body B (nat n) s1 = (Inr bs, s2)" using body by (simp add: cl_recv_body_def)
  from sendsD [OF sends_recv_body [OF t] s1(1) rb] have s2: "ob_wf s2"
    "accepted wire s2 = accepted wire s1" by auto
  have "process B method h s = upload_answer B s2"
    using upload_reaches_body [OF t wf m len run] rb by (simp add: bindE_def)
  moreover have "accepted wire s2 = accepted wire s @ continue_line"
    using s1(3,4) s2(2) by (simp add: accepted_def [of wire s1])
  ultimately show ?thesis using that [OF rb s2(1)] by simp
qed

lemma upload_runs:
  assumes "reliable B" and t: "transport_contract B wire" and wf: "ob_wf s"
    and m: "method = Put \<or> method = Post"
    and len: "get_val ''CONTENT_LENGTH'' s = Some v" "stoi v = Inr n" "0 \<le> n" "n < INT_MAX"
    and body: "\<forall>w. \<exists>bs w'. recv_loop B [] (nat n) w = Some (Inr bs, w')"
  obtains s2 s' where "ob_wf s2" and "accepted wire s2 = accepted wire s @ continue_line"
    and "upload_answer B s2 = (Inr 200, s')" and "process B method h s = (Inr 200, s')"
proof -
  obtain k s1 where run: "cl_send_100_continue B s = (Inr k, s1)" using continue_sent [OF assms(1) t wf] by blast
  obtain bs w' where "recv_loop B [] (nat n) (ob_sink s1) = Some (Inr bs, w')" using body by blast
  then obtain s2 where s2: "ob_wf s2" "accepted wire s2 = accepted wire s @ continue_line"
    "process B method h s = upload_answer B s2"
    by (rule upload_reaches_answer [OF t wf m len run, of bs w' h])
  from returns_upload_answer [of B] assms(1) s2(1) obtain r s' where
    ans: "upload_answer B s2 = (Inr r, s')" unfolding runs_def by blast
  have "r = 200" using sends_upload_answer [OF t s2(1) ans] by blast
  with that [OF s2(1,2)] s2(3) ans show ?thesis by simp
qed

text \<open>
  C9: An upload is answered, with exactly one response. On a transport that works, a PUT or POST
  whose Content-Length is a number below 2^31 - 1 and whose body the parser ends returning (even
  short of the announced length) makes \<open>process\<close> return 200, and the wire then holds what was
  accepted before followed by the 100-continue line, the 200 status line, an empty body's length
  and the end of the header block.
\<close>
theorem upload_answered:
  assumes "reliable B" and t: "transport_contract B wire" and wf: "ob_wf s"
    and m: "method = Put \<or> method = Post"
    and len: "get_val ''CONTENT_LENGTH'' s = Some (dec n)" "int n < INT_MAX"
    and body: "\<forall>w. \<exists>bs w'. recv_loop B [] n w = Some (Inr bs, w')"
  shows "\<exists>s' now keep. process B method h s = (Inr 200, s') \<and>
           wire (ob_sink s') = accepted wire s @ upload_head @ header_tail now keep"
proof -
  have body': "\<forall>w. \<exists>bs w'. recv_loop B [] (nat (int n)) w = Some (Inr bs, w')" using body by simp
  have v: "stoi (dec n) = Inr (int n)" "0 \<le> int n" using len(2) by (simp_all add: stoi_dec)
  obtain s2 s' where "ob_wf s2" "accepted wire s2 = accepted wire s @ continue_line"
    "upload_answer B s2 = (Inr 200, s')" "process B method h s = (Inr 200, s')"
    by (rule upload_runs [OF assms(1) t wf m len(1) v len(2) body', of h])
  moreover from this obtain now keep where "wire (ob_sink s') = accepted wire s2 @ status_line 200 ''OK'' @
      header_line ''Content-Length'' ''0'' @ header_tail now keep"
    using sends_upload_answer [OF t] by blast
  ultimately show ?thesis by (auto simp: upload_head_def)
qed

definition demo_upload :: "bytes clientio" where
  "demo_upload = (ClientIO_new (replicate BufferSizeV NUL) False 8888 ''10.0.0.1'' [])
     \<lparr>cl_env_map := [''CONTENT_LENGTH'' \<mapsto> dec 5]\<rparr>"

lemma demo_upload_wf: "ob_wf demo_upload"
  by (simp add: demo_upload_def ob_wf_def ClientIO_new_def)

theorem upload_answered_witness:
  "\<exists>s' now keep. process demo_boost Put 0 demo_upload = (Inr 200, s') \<and>
     ob_sink s' = upload_head @ header_tail now keep"
proof -
  have "reliable demo_boost" by (simp add: reliable_def demo_boost_def)
  moreover have "\<forall>w. \<exists>bs w'. recv_loop demo_boost [] 5 w = Some (Inr bs, w')"
    by (subst recv_loop.simps) (simp add: demo_boost_def)
  moreover have "get_val ''CONTENT_LENGTH'' demo_upload = Some (dec 5)"
    by (simp add: get_val_def demo_upload_def)
  moreover have "int 5 < INT_MAX" by (simp add: INT_MAX_def)
  ultimately show ?thesis
    using upload_answered [OF _ demo_transport demo_upload_wf, of Put 5 0]
    by (simp add: accepted_def pending_def demo_upload_def ClientIO_new_def)
qed

text \<open>
  Requests the server leaves without an answer. For GET and HEAD \<open>process\<close> does nothing at all
  and leaves \<open>http_ret\<close> as it was; for any other unsupported method it also sends nothing and
  reports 0, although it assigns 400 on the way; and an upload without a Content-Length is told
  to continue and then reported as 400 with no response sent.
\<close>
lemma unanswered_requests:
  assumes "reliable B" and "transport_contract B wire" and "ob_wf s"
  shows "process B Get h s = (Inr h, s) \<and> process B Head h s = (Inr h, s) \<and>
         process B Other_verb h s = (Inr 0, s) \<and>
         (get_val ''CONTENT_LENGTH'' s = None \<longrightarrow>
            (\<exists>s'. process B Put h s = (Inr 400, s') \<and>
               wire (ob_sink s') = accepted wire s @ continue_line \<and> pending s' = []))"
proof (intro conjI impI)
  assume none: "get_val ''CONTENT_LENGTH'' s = None"
  obtain k s1 where s1: "cl_send_100_continue B s = (Inr k, s1)"
    "obuf.more s1 = obuf.more s" "wire (ob_sink s1) = accepted wire s @ continue_line" "pending s1 = []"
    using continue_sent [OF assms] by blast
  moreover have "get_val ''CONTENT_LENGTH'' s1 = None" using more_get_val [OF s1(2)] none by simp
  ultimately show "\<exists>s'. process B Put h s = (Inr 400, s') \<and>
      wire (ob_sink s') = accepted wire s @ continue_line \<and> pending s' = []"
    by (simp add: process_def putobj_def bindE_def env_lookup_def ret_def)
qed (simp_all add: process_def ret_def)

lemma unanswered_requests_example:
  "process demo_boost Other_verb 7 demo_upload = (Inr 0, demo_upload)"
  using unanswered_requests [OF _ demo_transport demo_upload_wf, of 7]
  by (simp add: reliable_def demo_boost_def)

end
