(* ===== verification/Connection.thy ===== *)
theory Connection
  imports Filters Process
begin

text \<open>
  \<open>boost_cpp/httpserver/asio_frontend.cc\<close>, \<open>handle_connection\<close>: the loop that reads requests from
  one connection until it has a reason to stop, with the two stream operators it logs with and
  \<open>parse_port\<close>. The loop and the loop that discards an unread body may not end, so both return an
  option; \<open>None\<close> is "does not return", which is also what becomes of a read or a write that never
  completes: nothing here has a timeout.
\<close>

section \<open>Logging helpers\<close>

text \<open>\<open>operator<<\<close> of \<open>http_version\<close> and of \<open>log_header\<close>.\<close>

definition http_version_text :: "nat \<Rightarrow> string" where
  "http_version_text version = ''HTTP/'' @ dec (version div 10) @ ''.'' @ dec (version mod 10)"

fun find_field :: "field \<Rightarrow> header list \<Rightarrow> string option" where
  "find_field fld [] = None"
| "find_field fld ((f, name, val) # hs) = (if f = fld then Some val else find_field fld hs)"

definition log_header_text :: "header list \<Rightarrow> field \<Rightarrow> string \<Rightarrow> string" where
  "log_header_text hs fld quote =
     (case find_field fld hs of None \<Rightarrow> ''-'' | Some v \<Rightarrow> quote @ v @ quote)"

section \<open>Serving one request\<close>

text \<open>
  The \<open>StreamIO\<close> object of one request: built over the socket's endpoints (asking for the local
  one throws on failure, asking for the remote one does not), its environment initialised, and
  handed to \<open>process\<close>. The filter stack built over it (\<open>real_client_io\<close>) is not used: \<open>process\<close>
  is given \<open>&clientio\<close>. The result is \<open>http_ret\<close>.
\<close>

definition serve_request :: "'w boost \<Rightarrow> char list \<Rightarrow> request \<Rightarrow> 'w \<Rightarrow> (exn + int) \<times> 'w" where
  "serve_request B garbage rq w =
     (case b_local_port B w of
        (ec, port) \<Rightarrow>
          if failed ec then (Inl (Sys_error (ec_value ec)), w)
          else
            let clientio = ClientIO_new garbage False port (snd (b_remote_addr B w)) w in
            case bindE (init_env rq) (\<lambda>_. process B (rq_verb rq) 0) clientio of
              (r, s) \<Rightarrow> (r, ob_sink s))"

section \<open>Discarding what the handler did not read\<close>

text \<open>The result says whether the message is done and the connection goes on.\<close>

partial_function (option) discard_loop :: "'w boost \<Rightarrow> 'w \<Rightarrow> (bool \<times> 'w) option" where
  "discard_loop B w =
     (if b_is_done B w then Some (True, w)
      else
        (case b_read_some B w 1024 of
           ((ec, bs), w') \<Rightarrow>
             if b_read_waits B w then None
             else if ec_is ec = Need_buffer then discard_loop B w'
             else if ec_is ec = Connection_reset then Some (False, w')
             else if failed ec then Some (False, w')
             else discard_loop B w'))"

section \<open>The connection\<close>

definition stop_reading :: "error_code \<Rightarrow> bool" where
  "stop_reading ec \<longleftrightarrow>
     ec_is ec = Connection_reset \<or> ec_is ec = Bad_descriptor \<or>
     ec_is ec = Operation_aborted \<or> ec_is ec = End_of_stream"

text \<open>\<open>None\<close>: does not return. Otherwise how it ends: normally, or by an exception.\<close>

partial_function (option) handle_connection ::
    "'w boost \<Rightarrow> char list \<Rightarrow> 'w \<Rightarrow> ((exn + unit) \<times> 'w) option" where
  "handle_connection B garbage w =
     (case b_read_header B w of
        ((ec, rq), w1) \<Rightarrow>
          if b_read_waits B w then None
          else if stop_reading ec then Some (Inr (), w1)
          else if failed ec then
            (if b_write_waits B w1 then None
             else Some (Inr (), snd (b_write_response B w1 400 (if rq_version rq = 10 then 10 else 11))))
          else
            (case serve_request B garbage rq w1 of
               (Inl e, w2) \<Rightarrow> (if e = Diverges then None else Some (Inl e, w2))
             | (Inr http_ret, w2) \<Rightarrow>
                 if http_ret < 0 then Some (Inr (), w2)
                 else if \<not> b_keep_alive B w2 then Some (Inr (), w2)
                 else
                   Option.bind (discard_loop B w2) (\<lambda>(done, w3).
                     if \<not> done then Some (Inr (), w3)
                     else handle_connection B garbage w3)))"

section \<open>parse_port\<close>

definition ULONG_MAX :: int where
  "ULONG_MAX = 18446744073709551615"

text \<open>
  \<open>strtoul(input, &end, 10)\<close>: the value and whether anything was converted (\<open>end != input\<close>). A
  minus sign negates the value in \<open>unsigned long\<close>; a magnitude beyond it gives \<open>ULONG_MAX\<close>.
\<close>

definition strtoul :: "string \<Rightarrow> int \<times> bool" where
  "strtoul s =
     (let (neg, rest) = split_sign (dropWhile is_space s);
          digits = takeWhile is_digit rest
      in case (if digits = [] then None else read_base 10 0 digits) of
           None \<Rightarrow> (0, False)
         | Some n \<Rightarrow>
             if int n > ULONG_MAX then (ULONG_MAX, True)
             else ((if neg then (- int n) mod (ULONG_MAX + 1) else int n), True))"

definition ERANGE :: int where
  "ERANGE = 34"

text \<open>The port, as the \<open>unsigned short\<close> the function returns, and the code it assigns to \<open>ec\<close>.\<close>

definition parse_port :: "string \<Rightarrow> int \<times> int option" where
  "parse_port input =
     (let (port, converted) = strtoul input in
      (port mod 65536,
       if port > 65535 then Some ERANGE
       else if port = 0 \<and> \<not> converted then Some EINVAL
       else None))"

section \<open>Termination\<close>

text \<open>
  \<open>input_contract B mu\<close>: the peer sends a finite amount. \<open>mu\<close> measures what is still to come:
  a header that is read, and a read of the body that ends without a fatal error, use some of it
  up, and no other operation adds to it.
\<close>

definition input_contract :: "'w boost \<Rightarrow> ('w \<Rightarrow> nat) \<Rightarrow> bool" where
  "input_contract B mu \<longleftrightarrow>
     (\<forall>w ec rq w'. b_read_header B w = ((ec, rq), w') \<longrightarrow> \<not> failed ec \<longrightarrow> mu w' < mu w) \<and>
     (\<forall>w k ec bs w'. b_read_some B w k = ((ec, bs), w') \<longrightarrow>
        mu w' \<le> mu w \<and>
        (\<not> b_is_done B w \<longrightarrow> \<not> failed ec \<or> ec_is ec = Need_buffer \<longrightarrow> mu w' < mu w)) \<and>
     (\<forall>w bs. mu (snd (b_async_write B w bs)) \<le> mu w) \<and>
     (\<forall>w. mu (b_shutdown B w) \<le> mu w) \<and>
     (\<forall>w. mu (snd (b_now B w)) \<le> mu w)"

lemma input_contract_read:
  assumes "input_contract B mu" and "b_read_some B w k = ((ec, bs), w')"
  shows "mu w' \<le> mu w"
    and "\<not> b_is_done B w \<Longrightarrow> \<not> failed ec \<or> ec_is ec = Need_buffer \<Longrightarrow> mu w' < mu w"
  using assms unfolding input_contract_def by blast+

lemma discard_loop_returns:
  assumes "input_contract B mu" and c: "completes B"
  shows "\<exists>d w'. discard_loop B w = Some (d, w') \<and> mu w' \<le> mu w"
proof (induction "mu w" arbitrary: w rule: less_induct)
  case less
  show ?case
  proof (cases "b_is_done B w")
    case True
    then have "discard_loop B w = Some (True, w)" by (subst discard_loop.simps) simp
    then show ?thesis by blast
  next
    case False
    obtain ec bs w1 where rd: "b_read_some B w 1024 = ((ec, bs), w1)" by (metis surj_pair)
    show ?thesis
    proof (cases "\<not> failed ec \<or> ec_is ec = Need_buffer")
      case True
      with input_contract_read [OF assms(1) rd] False have dec: "mu w1 < mu w" by blast
      from less [OF this] obtain d w' where "discard_loop B w1 = Some (d, w')" "mu w' \<le> mu w1" by blast
      moreover have "discard_loop B w = discard_loop B w1"
        using rd False True c by (subst discard_loop.simps) (auto simp: failed_def)
      ultimately show ?thesis using dec by auto
    next
      case stop: False
      with rd False c input_contract_read(1) [OF assms(1) rd] show ?thesis
        by (subst discard_loop.simps) auto
    qed
  qed
qed

text \<open>
  What every operation of the object does to the world, whether it returns or throws: a relation
  \<open>R\<close> that each call of the transport and the parser keeps holds between the world before and
  after, and the operation ends, because every read and write completes and a measure bounds what
  can still be read.
\<close>

definition steps_contract :: "'w boost \<Rightarrow> ('w \<Rightarrow> 'w \<Rightarrow> bool) \<Rightarrow> ('w \<Rightarrow> nat) \<Rightarrow> bool" where
  "steps_contract B R mu \<longleftrightarrow> completes B \<and>
     (\<forall>w. R w w) \<and> (\<forall>u v w. R u v \<longrightarrow> R v w \<longrightarrow> R u w) \<and>
     (\<forall>w bs. R w (snd (b_async_write B w bs))) \<and>
     (\<forall>w. R w (b_shutdown B w)) \<and>
     (\<forall>w. R w (snd (b_now B w))) \<and>
     (\<forall>w k ec bs w'. b_read_some B w k = ((ec, bs), w') \<longrightarrow>
        R w w' \<and>
        (0 < k \<longrightarrow> \<not> b_is_done B w \<longrightarrow> \<not> failed ec \<or> ec_is ec = Need_buffer \<longrightarrow> mu w' < mu w))"

lemma steps_contractD:
  assumes "steps_contract B R mu"
  shows "R w w" and "R u v \<Longrightarrow> R v w \<Longrightarrow> R u w" and "R w (snd (b_async_write B w bs))"
    and "R w (b_shutdown B w)" and "R w (snd (b_now B w))"
    and "b_read_some B w k = ((ec, bs), w') \<Longrightarrow> R w w'"
    and "b_read_some B w k = ((ec, bs), w') \<Longrightarrow> 0 < k \<Longrightarrow> \<not> b_is_done B w \<Longrightarrow>
           \<not> failed ec \<or> ec_is ec = Need_buffer \<Longrightarrow> mu w' < mu w"
    and "completes B"
  using assms unfolding steps_contract_def by blast+

lemma input_steps:
  assumes "input_contract B mu" and "completes B"
  shows "steps_contract B (\<lambda>w w'. mu w' \<le> mu w) mu"
  using assms unfolding steps_contract_def input_contract_def by auto

definition within :: "'w boost \<Rightarrow> ('w \<Rightarrow> 'w \<Rightarrow> bool) \<Rightarrow> ('w \<Rightarrow> nat) \<Rightarrow> ('w clientio, 'a) action \<Rightarrow> bool" where
  "within B R mu m \<longleftrightarrow>
     (steps_contract B R mu \<longrightarrow>
      (\<forall>s. R (ob_sink s) (ob_sink (snd (m s))) \<and> fst (m s) \<noteq> Inl Diverges))"

lemma withinD:
  assumes "within B R mu m" and "steps_contract B R mu" and "m s = (r, s')"
  shows "R (ob_sink s) (ob_sink s')" and "r \<noteq> Inl Diverges"
  using assms unfolding within_def by (metis fst_conv snd_conv)+

lemma withinI:
  assumes "\<And>s r s'. steps_contract B R mu \<Longrightarrow> m s = (r, s') \<Longrightarrow> R (ob_sink s) (ob_sink s') \<and> r \<noteq> Inl Diverges"
  shows "within B R mu m"
  unfolding within_def using assms by (metis prod.collapse)

lemma within_pure:
  assumes "\<And>s. ob_sink (snd (m s)) = ob_sink s" and "\<And>s. fst (m s) \<noteq> Inl Diverges"
  shows "within B R mu m"
  using assms by (simp add: within_def steps_contractD(1))

lemma within_bind:
  assumes m: "within B R mu m" and f: "\<And>x. within B R mu (f x)"
  shows "within B R mu (bindE m f)"
proof (rule withinI)
  fix s r s'
  assume c: "steps_contract B R mu" and run: "bindE m f s = (r, s')"
  obtain r1 s1 where 1: "m s = (r1, s1)" by fastforce
  note le1 = withinD [OF m c 1]
  show "R (ob_sink s) (ob_sink s') \<and> r \<noteq> Inl Diverges"
  proof (cases r1)
    case (Inl e)
    with run 1 le1 show ?thesis by (auto simp: bindE_def)
  next
    case (Inr x)
    with run 1 have "f x s1 = (r, s')" by (simp add: bindE_def)
    from withinD [OF f c this] le1(1) steps_contractD(2) [OF c] show ?thesis by blast
  qed
qed

lemma within_ret [simp]: "within B R mu (ret x)"
  by (rule within_pure) (simp_all add: ret_def)

lemma within_throw [simp]: "e \<noteq> Diverges \<Longrightarrow> within B R mu (throw e)"
  by (rule within_pure) (simp_all add: throw_def)

lemma within_formatE [simp]: "within B R mu (formatE N full)"
  by (rule within_pure) (simp_all add: formatE_def formatted_def)

lemma write_data_within:
  assumes c: "steps_contract B R mu" and run: "write_data B bs w = (r, w2)"
  shows "R w w2 \<and> r \<noteq> Inl Diverges"
proof -
  obtain ec n w' where w: "b_async_write B w bs = ((ec, n), w')" by (metis surj_pair)
  with steps_contractD(3) [OF c, of w bs] have "R w w'" by simp
  moreover from this have "R w (b_shutdown B w')" using steps_contractD(2,4) [OF c] by blast
  ultimately show ?thesis using run steps_contractD(8) [OF c] by (auto simp: write_data_def w split: if_splits)
qed

lemma sync_within: "within B R mu (ob_sync (write_data B))"
proof (rule withinI)
  fix s r s'
  assume c: "steps_contract B R mu" and run: "ob_sync (write_data B) s = (r, s')"
  obtain r1 w1 where 1: "write_data B (take (ob_pptr s) (ob_buf s)) (ob_sink s) = (r1, w1)"
    by fastforce
  from write_data_within [OF c 1] run 1
  show "R (ob_sink s) (ob_sink s') \<and> r \<noteq> Inl Diverges"
    by (auto simp: ob_sync_def Let_def split: sum.splits if_splits)
qed

lemma store_within [simp]: "within B R mu (ob_store c)"
  by (rule within_pure) (simp_all add: ob_store_def)

lemma sputn_within: "within B R mu (sputn (write_data B) bs)"
proof (induction bs)
  case (Cons c cs)
  have "within B R mu (sputc (write_data B) c)"
  proof -
    have "within B R mu (bindE (ob_store c) (\<lambda>_. ret (Some c)))"
      and "within B R mu (ob_overflow (write_data B) c)"
      unfolding ob_overflow_def by (intro within_bind sync_within; simp)+
    then show ?thesis unfolding within_def sputc_def by simp
  qed
  with Cons show ?case by (auto intro!: within_bind split: option.split)
qed simp

lemma recv_within:
  assumes c: "steps_contract B R mu"
  shows "\<exists>r w'. recv_loop B got k w = Some (r, w') \<and> R w w' \<and> r \<noteq> Inl Diverges"
proof (induction "mu w" arbitrary: got k w rule: less_induct)
  case less
  show ?case
  proof (cases "0 < k \<and> \<not> b_is_done B w")
    case False
    then have "recv_loop B got k w = Some (Inr got, w)" by (subst recv_loop.simps) auto
    then show ?thesis using steps_contractD(1) [OF c] by simp
  next
    case True
    obtain ec bs w1 where rd: "b_read_some B w k = ((ec, bs), w1)" by (metis surj_pair)
    note le = steps_contractD(6) [OF c rd] and cp = steps_contractD(8) [OF c]
    show ?thesis
    proof (cases "ec_is ec = Need_buffer \<or> failed ec")
      case stop: True
      with True rd cp have "\<exists>r. recv_loop B got k w = Some (r, w1) \<and> r \<noteq> Inl Diverges"
        by (subst recv_loop.simps) auto
      with le show ?thesis by blast
    next
      case ok: False
      with True have dec: "mu w1 < mu w" using steps_contractD(7) [OF c rd] by blast
      have "recv_loop B got k w = recv_loop B (got @ bs) (k - length bs) w1"
        using True rd ok cp by (subst recv_loop.simps) simp
      with less [OF dec, of "got @ bs" "k - length bs"] le show ?thesis
        using steps_contractD(2) [OF c] by fastforce
    qed
  qed
qed

lemma recv_body_within: "within B R mu (cl_recv_body B k)"
proof (rule withinI)
  fix s :: "'a clientio" and r s'
  assume "steps_contract B R mu" and "cl_recv_body B k s = (r, s')"
  then show "R (ob_sink s) (ob_sink s') \<and> r \<noteq> Inl Diverges"
    using recv_within [of B R mu "[]" k "ob_sink s"] by (auto simp: cl_recv_body_def)
qed

lemma now_within: "within B R mu (cl_now B)"
proof (rule withinI)
  fix s :: "'a clientio" and r s'
  assume c: "steps_contract B R mu" and "cl_now B s = (r, s')"
  with steps_contractD(5) [OF c, of "ob_sink s"] show "R (ob_sink s) (ob_sink s') \<and> r \<noteq> Inl Diverges"
    by (auto simp: cl_now_def split: prod.splits)
qed

lemma cl_sputn_within: "within B R mu (cl_sputn B bs)"
  unfolding cl_sputn_def by (intro within_bind sputn_within) simp

lemma cl_flush_within: "within B R mu (cl_flush B)"
  unfolding cl_flush_def by (intro within_bind sync_within) simp

lemma keep_alive_within: "within B R mu (cl_keep_alive B)"
  by (rule within_pure) (simp_all add: cl_keep_alive_def)

lemma send_status_within: "within B R mu (cl_send_status B status name)"
  unfolding cl_send_status_def by (intro within_bind cl_sputn_within) simp

lemma send_100_continue_within: "within B R mu (cl_send_100_continue B)"
  unfolding cl_send_100_continue_def by (intro within_bind cl_sputn_within cl_flush_within) simp

lemma send_header_within: "within B R mu (cl_send_header B name val)"
  unfolding cl_send_header_def by (intro within_bind cl_sputn_within) simp

lemma send_date_within: "within B R mu (case d of None \<Rightarrow> ret 0 | Some l \<Rightarrow> cl_sputn B l)"
  by (cases d) (simp_all add: cl_sputn_within)

lemma complete_header_within: "within B R mu (cl_complete_header B)"
  unfolding cl_complete_header_def
  by (intro within_bind cl_sputn_within cl_flush_within keep_alive_within now_within send_date_within) simp

lemma fill_buffer_within: "within B R mu (fill_buffer B k)"
  unfolding fill_buffer_def by (intro within_bind recv_body_within) simp

lemmas output_within =
  within_bind send_status_within send_100_continue_within send_header_within complete_header_within
  fill_buffer_within

lemma process_within: "within B R mu (process B method h)"
proof -
  have pure: "within B R mu (env_lookup name)" "within B R mu (liftE (stoi v))" "within B R mu (new_char_array k)"
    for name k v
    by (rule within_pure; auto simp: env_lookup_def liftE_def new_char_array_def throw_def ret_def
        stoi_def Let_def split: option.splits prod.splits)+
  have "within B R mu (putobj B)"
    unfolding putobj_def cl_complete_request_def
    by (intro output_within pure) (auto split: option.split intro!: output_within pure)
  then show ?thesis unfolding process_def Let_def by (auto intro!: within_bind)
qed

lemma serve_request_within:
  assumes c: "steps_contract B R mu" and run: "serve_request B g rq w = (r, w')"
  shows "R w w' \<and> r \<noteq> Inl Diverges"
proof -
  obtain ec port where p: "b_local_port B w = (ec, port)" by fastforce
  show ?thesis
  proof (cases "failed ec")
    case True
    with run p show ?thesis using steps_contractD(1) [OF c] by (auto simp: serve_request_def)
  next
    case False
    let ?s = "ClientIO_new g False port (snd (b_remote_addr B w)) w"
    have "within B R mu (bindE (init_env rq) (\<lambda>_. process B (rq_verb rq) 0))"
      by (intro within_bind process_within within_pure) (simp_all add: init_env_def Let_def)
    moreover obtain r1 s1 where
      1: "bindE (init_env rq) (\<lambda>_. process B (rq_verb rq) 0) ?s = (r1, s1)" by fastforce
    ultimately have "R (ob_sink ?s) (ob_sink s1) \<and> r1 \<noteq> Inl Diverges"
      using withinD c by blast
    with run p False 1 show ?thesis by (auto simp: serve_request_def ClientIO_new_def Let_def)
  qed
qed

section \<open>A connection that uploads nothing\<close>

text \<open>The requests of such a connection: reading a header fails the way that ends it, or gives
  a request other than PUT and POST.\<close>

definition no_uploads :: "'w boost \<Rightarrow> bool" where
  "no_uploads B \<longleftrightarrow>
     (\<forall>w ec rq w'. b_read_header B w = ((ec, rq), w') \<longrightarrow>
        stop_reading ec \<or> (\<not> failed ec \<and> rq_verb rq \<noteq> Put \<and> rq_verb rq \<noteq> Post))"

lemma serve_request_quiet:
  assumes "rq_verb rq \<noteq> Put" and "rq_verb rq \<noteq> Post" and "serve_request B g rq w = (r, w')"
  shows "w' = w"
  using assms by (auto simp: serve_request_def process_def init_env_def bindE_def ret_def Let_def
      ClientIO_new_def split: prod.splits sum.splits if_splits)

lemma discard_quiet:
  assumes t: "transport_contract B wire" and run: "discard_loop B w = Some dw"
  shows "wire (snd dw) = wire w"
proof -
  have "transport_contract B wire \<longrightarrow> wire (snd dw) = wire w"
  proof (rule discard_loop.raw_induct [where P = "\<lambda>B w dw. transport_contract B wire \<longrightarrow>
      wire (snd dw) = wire w", OF _ run], intro impI)
    fix f :: "'a boost \<Rightarrow> 'a \<Rightarrow> (bool \<times> 'a) option" and B w y
    assume IH: "\<And>B w y. f B w = Some y \<Longrightarrow> transport_contract B wire \<longrightarrow> wire (snd y) = wire w"
      and eq: "(if b_is_done B w then Some (True, w)
        else (case b_read_some B w 1024 of
           ((ec, bs), w') \<Rightarrow>
             if b_read_waits B w then None
             else if ec_is ec = Need_buffer then f B w'
             else if ec_is ec = Connection_reset then Some (False, w')
             else if failed ec then Some (False, w')
             else f B w')) = Some y"
      and t: "transport_contract B wire"
    obtain ec bs w1 where rd: "b_read_some B w 1024 = ((ec, bs), w1)" by (metis surj_pair)
    with transportD_read [OF t, of w 1024] have "wire w1 = wire w" by simp
    with eq rd IH [of B w1 y] t show "wire (snd y) = wire w" by (auto split: if_splits)
  qed
  with t show ?thesis by blast
qed

text \<open>One round of the loop, with \<open>f\<close> for the rest of it.\<close>

lemma quiet_round:
  fixes f :: "'w \<Rightarrow> ((exn + unit) \<times> 'w) option"
  assumes IH: "\<And>w y. f w = Some y \<Longrightarrow> wire (snd y) = wire w"
    and t: "transport_contract B wire" and n: "no_uploads B"
    and eq: "(case b_read_header B w of
        ((ec, rq), w1) \<Rightarrow>
          if b_read_waits B w then None
          else if stop_reading ec then Some (Inr (), w1)
          else if failed ec then
            (if b_write_waits B w1 then None
             else Some (Inr (), snd (b_write_response B w1 400 (if rq_version rq = 10 then 10 else 11))))
          else
            (case serve_request B g rq w1 of
               (Inl e, w2) \<Rightarrow> (if e = Diverges then None else Some (Inl e, w2))
             | (Inr http_ret, w2) \<Rightarrow>
                 if http_ret < 0 then Some (Inr (), w2)
                 else if \<not> b_keep_alive B w2 then Some (Inr (), w2)
                 else
                   Option.bind (discard_loop B w2) (\<lambda>(done, w3).
                     if \<not> done then Some (Inr (), w3) else f w3))) = Some y"
  shows "wire (snd y) = wire w"
proof -
  obtain ec rq w1 where h: "b_read_header B w = ((ec, rq), w1)" by (metis surj_pair)
  with transport_contractD(5) [OF t, of w] have w1: "wire w1 = wire w" by simp
  show ?thesis
  proof (cases "stop_reading ec")
    case True
    with eq h w1 show ?thesis by (auto split: if_splits)
  next
    case False
    with n h have m: "\<not> failed ec" "rq_verb rq \<noteq> Put" "rq_verb rq \<noteq> Post"
      unfolding no_uploads_def by blast+
    obtain r2 w2 where sv: "serve_request B g rq w1 = (r2, w2)" by fastforce
    have w2: "w2 = w1" by (rule serve_request_quiet [OF m(2,3) sv])
    show ?thesis
    proof (cases "\<exists>ret. r2 = Inr ret \<and> \<not> ret < 0 \<and> b_keep_alive B w2")
      case stop: False
      with eq h sv False m(1) w1 w2 show ?thesis by (auto split: sum.splits if_splits)
    next
      case True
      with eq h sv False m(1) w2 obtain d w3 where d: "discard_loop B w1 = Some (d, w3)"
        and y: "(if \<not> d then Some (Inr (), w3) else f w3) = Some y"
        by (auto simp: bind_eq_Some_conv split: if_splits)
      from discard_quiet [OF t d] w1 have "wire w3 = wire w" by simp
      with y IH [of w3 y] show ?thesis by (cases d) auto
    qed
  qed
qed

lemma handle_connection_quiet:
  assumes t: "transport_contract B wire" and n: "no_uploads B"
    and run: "handle_connection B g w = Some (r, w')"
  shows "wire w' = wire w"
proof -
  have "transport_contract B wire \<longrightarrow> no_uploads B \<longrightarrow> wire (snd (r, w')) = wire w"
    by (rule handle_connection.raw_induct [where P = "\<lambda>B g w rw. transport_contract B wire \<longrightarrow>
        no_uploads B \<longrightarrow> wire (snd rw) = wire w", OF _ run], intro impI)
      (erule quiet_round [rotated 3], blast+)
  with t n show ?thesis by simp
qed

text \<open>A peer that sends \<open>n\<close> GET requests without a body and closes.\<close>

definition get_request :: request where
  "get_request = \<lparr>rq_verb = Get, rq_method_string = ''GET'', rq_target = ''/'', rq_version = 11,
     rq_fields = []\<rparr>"

definition get_boost :: "(nat \<times> bytes) boost" where
  "get_boost =
     \<lparr>b_async_write = (\<lambda>(n, w) bs. ((no_error, length bs), (n, w @ bs))),
      b_shutdown = (\<lambda>w. w),
      b_read_header = (\<lambda>(n, w).
        if n = 0 then ((\<lparr>ec_is = End_of_stream, ec_value = 1\<rparr>, get_request), (n, w))
        else ((no_error, get_request), (n - 1, w))),
      b_read_some = (\<lambda>w k. ((no_error, []), w)),
      b_is_done = (\<lambda>w. True),
      b_keep_alive = (\<lambda>w. True),
      b_local_port = (\<lambda>w. (no_error, 8888)),
      b_remote_addr = (\<lambda>w. (no_error, ''10.0.0.1'')),
      b_write_response = (\<lambda>w status version. (no_error, w)),
      b_now = (\<lambda>w. (None, w)), b_read_waits = (\<lambda>w. False), b_write_waits = (\<lambda>w. False)\<rparr>"

lemma get_boost_transport: "transport_contract get_boost snd"
  by (auto simp: transport_contract_def write_contract_def quiet_contract_def get_boost_def)

lemma get_boost_input: "input_contract get_boost fst"
  by (auto simp: input_contract_def get_boost_def failed_def split: if_splits)

lemma get_boost_no_uploads: "no_uploads get_boost"
  by (auto simp: no_uploads_def get_boost_def get_request_def stop_reading_def failed_def
      no_error_def split: if_splits)

lemma get_boost_run:
  "handle_connection get_boost g (n, w) = Some (Inr (), (0, w))"
proof (induction n)
  case 0
  show ?case
    by (subst handle_connection.simps) (simp add: get_boost_def stop_reading_def)
next
  case (Suc n)
  have "discard_loop get_boost (n, w) = Some (True, (n, w))"
    by (subst discard_loop.simps) (simp add: get_boost_def)
  moreover have "serve_request get_boost g get_request (n, w) = (Inr 0, (n, w))"
    by (simp add: serve_request_def get_boost_def get_request_def process_def init_env_def
        bindE_def ret_def Let_def ClientIO_new_def)
  ultimately show ?case using Suc
    by (subst handle_connection.simps)
      (simp add: get_boost_def stop_reading_def no_error_def failed_def)
qed

section \<open>Properties\<close>

text \<open>The same peer, which stays connected after its last request.\<close>

definition patient_boost :: "(nat \<times> bytes) boost" where
  "patient_boost = get_boost\<lparr>b_read_waits := (\<lambda>(n, w). n = 0)\<rparr>"

lemma patient_boost_input: "input_contract patient_boost fst"
  by (auto simp: input_contract_def patient_boost_def get_boost_def failed_def split: if_splits)

text \<open>
  C14: When a connection comes to an end. If the peer sends a finite amount of data (each header read
  and each read of an unfinished body uses some of it up), nothing but a read or a write that never
  completes can keep the connection loop from returning: when they all complete, it returns,
  normally or with an exception, and no request hangs while its body is received. There is no
  timeout: where the peer is silent when a header is to be read, the loop never returns.
\<close>
theorem connection_returns:
  assumes "input_contract B mu"
  shows "(completes B \<longrightarrow> (\<exists>r w'. handle_connection B g w = Some (r, w') \<and> r \<noteq> Inl Diverges)) \<and>
         (b_read_waits B w \<longrightarrow> handle_connection B g w = None)"
proof (intro conjI impI)
  assume c: "completes B"
  show "\<exists>r w'. handle_connection B g w = Some (r, w') \<and> r \<noteq> Inl Diverges"
  proof (induction "mu w" arbitrary: w rule: less_induct)
    case less
    obtain ec rq w1 where h: "b_read_header B w = ((ec, rq), w1)" by (metis surj_pair)
    show ?case
    proof (cases "stop_reading ec \<or> failed ec")
      case True
      with h c show ?thesis by (subst handle_connection.simps) auto
    next
      case False
      with h assms have dec: "mu w1 < mu w" unfolding input_contract_def by blast
      obtain r w2 where sv: "serve_request B g rq w1 = (r, w2)" by fastforce
      note le = serve_request_within [OF input_steps [OF assms c] sv]
      obtain d w3 where ds: "discard_loop B w2 = Some (d, w3)" "mu w3 \<le> mu w2"
        using discard_loop_returns [OF assms c] by blast
      with le dec have "mu w3 < mu w" by simp
      from less [OF this] le ds h sv False c show ?thesis
        by (subst handle_connection.simps) (cases r; auto)
    qed
  qed
next
  assume "b_read_waits B w"
  then show "handle_connection B g w = None"
    by (subst handle_connection.simps) (simp split: prod.split)
qed

theorem connection_returns_witness:
  "(\<exists>r w'. handle_connection get_boost [] (3, []) = Some (r, w') \<and> r \<noteq> Inl Diverges) \<and>
   handle_connection patient_boost [] (0, []) = None"
  using connection_returns [OF get_boost_input, of "[]" "(3, [])"]
    connection_returns [OF patient_boost_input, of "[]" "(0, [])"]
  by (simp add: completes_def get_boost_def patient_boost_def)

text \<open>A peer that stays connected after three requests: they are served, and then the loop waits.\<close>

lemma patient_peer_waits: "handle_connection patient_boost g (n, w) = None"
proof (induction n)
  case 0
  show ?case by (subst handle_connection.simps) (simp add: patient_boost_def get_boost_def)
next
  case (Suc n)
  have "discard_loop patient_boost (n, w) = Some (True, (n, w))"
    by (subst discard_loop.simps) (simp add: patient_boost_def get_boost_def)
  moreover have "serve_request patient_boost g get_request (n, w) = (Inr 0, (n, w))"
    by (simp add: serve_request_def patient_boost_def get_boost_def get_request_def process_def init_env_def
        bindE_def ret_def Let_def ClientIO_new_def)
  ultimately show ?case using Suc
    by (subst handle_connection.simps)
      (simp add: patient_boost_def get_boost_def stop_reading_def no_error_def failed_def)
qed

text \<open>
  A connection on which nothing is uploaded gets nothing: whatever requests of the other
  methods it carries and however it ends, not one byte is put on the wire in reply.
\<close>
lemma connection_without_uploads_is_silent:
  assumes "transport_contract B wire" and "no_uploads B"
    and "handle_connection B g w = Some (r, w')"
  shows "wire w' = wire w"
  using handle_connection_quiet [OF assms] .

lemma connection_without_uploads_is_silent_example:
  "snd ((0, []) :: nat \<times> bytes) = snd ((3, []) :: nat \<times> bytes)"
  using connection_without_uploads_is_silent [OF get_boost_transport get_boost_no_uploads
    get_boost_run [of "[]" 3 "[]"]] .

lemma strtoul_parts:
  assumes "\<forall>c \<in> set blanks. is_space c" and "rest = [] \<or> \<not> is_digit (hd rest)"
  shows "strtoul (blanks @ dec n @ rest) =
           (if int n > ULONG_MAX then ULONG_MAX else int n, True)"
    and "strtoul (blanks @ CHR ''-'' # dec n @ rest) =
           (if int n > ULONG_MAX then ULONG_MAX else (- int n) mod (ULONG_MAX + 1), True)"
proof -
  obtain c cs where d: "dec n = c # cs" by (cases "dec n") auto
  with dec_digits [of n] have c: "is_digit c" by simp
  have skip: "dropWhile is_space (blanks @ ys) = dropWhile is_space ys" for ys
    using assms(1) by (simp add: dropWhile_append2)
  have "takeWhile is_digit rest = []" using assms(2) by (cases rest) auto
  then have tw: "takeWhile is_digit (dec n @ rest) = dec n"
    using dec_digits [of n] by (simp add: takeWhile_append2)
  have s1: "split_sign (dec n @ rest) = (False, dec n @ rest)" using d digit_not_sign [OF c]
    by (simp add: split_sign_def)
  have s2: "split_sign (CHR ''-'' # dec n @ rest) = (True, dec n @ rest)"
    by (simp add: split_sign_def)
  have n1: "dropWhile is_space (dec n @ rest) = dec n @ rest" using d digit_not_space [OF c] by simp
  have n2: "dropWhile is_space (CHR ''-'' # dec n @ rest) = CHR ''-'' # dec n @ rest"
    using digit_not_space by (auto simp: is_space_def)
  show "strtoul (blanks @ dec n @ rest) = (if int n > ULONG_MAX then ULONG_MAX else int n, True)"
    by (simp add: strtoul_def skip n1 s1 tw read_dec)
  show "strtoul (blanks @ CHR ''-'' # dec n @ rest) =
      (if int n > ULONG_MAX then ULONG_MAX else (- int n) mod (ULONG_MAX + 1), True)"
    by (simp del: dropWhile.simps add: strtoul_def skip n2 s2 tw read_dec)
qed

text \<open>
  What \<open>parse_port\<close> accepts. A decimal port number, after any white space and whatever text
  follows its last digit, is returned without an error exactly when it fits 16 bits, and is
  otherwise reported as \<open>ERANGE\<close>. A negative number is not refused as such: it is taken modulo
  2^64, so one that is close enough to -2^64 passes as a small port.
\<close>
lemma parse_port_accepts:
  assumes "\<forall>c \<in> set blanks. is_space c" and "rest = [] \<or> \<not> is_digit (hd rest)"
  shows "snd (parse_port (blanks @ dec n @ rest)) = (if n \<le> 65535 then None else Some ERANGE) \<and>
         (n \<le> 65535 \<longrightarrow> fst (parse_port (blanks @ dec n @ rest)) = int n) \<and>
         (0 < k \<and> k \<le> 65535 \<longrightarrow>
            parse_port (blanks @ CHR ''-'' # dec (18446744073709551616 - k) @ rest) = (int k, None))"
  using strtoul_parts(1) [OF assms, of n]
    strtoul_parts(2) [OF assms, of "18446744073709551616 - k"]
  by (auto simp: parse_port_def ULONG_MAX_def Let_def of_nat_diff)

lemma parse_port_accepts_example:
  "snd (parse_port ('' '' @ dec 8080 @ ''http'')) = None"
  using parse_port_accepts [of "'' ''" "''http''" 8080 1] by (simp add: is_space_def is_digit_def)

end
