(* ===== verification/Frontend.thy ===== *)
theory Frontend
  imports Connection
begin

text \<open>
  \<open>boost_cpp/httpserver/asio_frontend.cc\<close> and \<open>asio_frontend.hpp\<close>, the server itself: its
  configuration, \<open>ConnectionList\<close>, \<open>AsioFrontend::init\<close>, \<open>accept\<close>, \<open>stop\<close> and \<open>join\<close>, the coroutine
  spawned for a connection, and \<open>main\<close>. The operating system's answers to the socket calls are a
  parameter. The handlers and coroutines the thread pool runs are a step relation: any handler
  that is pending may run next, and \<open>stop\<close> and \<open>join\<close> may come between any two of them.
\<close>

section \<open>Configuration and listeners\<close>

record frontend_config =
  fc_port :: int
  fc_ssl :: bool
  fc_max_connection_backlog :: int
  fc_tcp_nodelay :: bool
  fc_thread_pool_size :: int
  fc_daemon :: bool

definition FrontendConfig_new :: frontend_config where
  "FrontendConfig_new =
     \<lparr>fc_port = 8888, fc_ssl = False, fc_max_connection_backlog = 1024, fc_tcp_nodelay = True,
      fc_thread_pool_size = 20, fc_daemon = False\<rparr>"

datatype family = V4 | V6

record listener =
  l_family :: family
  l_port :: int
  l_open :: bool
  l_v6_only :: bool
  l_bound :: bool
  l_backlog :: "int option"
  l_accepting :: bool
  l_use_ssl :: bool
  l_use_nodelay :: bool

definition Listener_new :: "family \<Rightarrow> int \<Rightarrow> listener" where
  "Listener_new fam port =
     \<lparr>l_family = fam, l_port = port mod 65536, l_open = False, l_v6_only = False, l_bound = False,
      l_backlog = None, l_accepting = False, l_use_ssl = False, l_use_nodelay = False\<rparr>"

text \<open>What the operating system answers to the calls on an acceptor.\<close>

record 'w net =
  n_open :: "'w \<Rightarrow> family \<Rightarrow> error_code \<times> 'w"
  n_v6_only :: "'w \<Rightarrow> error_code \<times> 'w"
  n_reuse :: "'w \<Rightarrow> error_code \<times> 'w"
  n_bind :: "'w \<Rightarrow> family \<Rightarrow> int \<Rightarrow> error_code \<times> 'w"
  n_listen :: "'w \<Rightarrow> int \<Rightarrow> error_code \<times> 'w"
  n_max_listen :: int

section \<open>init\<close>

text \<open>How one turn of the loop over the listeners ends.\<close>

datatype turn = Listening | Skipped | Init_failed int | Init_thrown exn

text \<open>The backlog asked for: the system's maximum, unless the configured one is smaller.\<close>

definition backlog :: "int \<Rightarrow> frontend_config \<Rightarrow> int" where
  "backlog max_listen conf =
     (if max_listen > fc_max_connection_backlog conf then fc_max_connection_backlog conf
      else max_listen)"

text \<open>The calls that report through an exception are \<open>set_option(reuse_address)\<close> and \<open>listen\<close>.\<close>

definition listen_on ::
    "'w net \<Rightarrow> frontend_config \<Rightarrow> listener \<Rightarrow> 'w \<Rightarrow> turn \<times> listener \<times> 'w" where
  "listen_on N conf l w =
     (case n_reuse N w of
        (ec, w1) \<Rightarrow>
          if failed ec then (Init_thrown (Sys_error (ec_value ec)), l, w1)
          else
            (case n_bind N w1 (l_family l) (l_port l) of
               (ec, w2) \<Rightarrow>
                 if failed ec then (Init_failed (ec_value ec), l, w2)
                 else
                   (case n_listen N w2 (backlog (n_max_listen N) conf) of
                      (ec, w3) \<Rightarrow>
                        if failed ec
                        then (Init_thrown (Sys_error (ec_value ec)), l\<lparr>l_bound := True\<rparr>, w3)
                        else (Listening,
                              l\<lparr>l_bound := True,
                                l_backlog := Some (backlog (n_max_listen N) conf),
                                l_accepting := True\<rparr>, w3))))"

definition init_listener ::
    "'w net \<Rightarrow> frontend_config \<Rightarrow> listener \<Rightarrow> 'w \<Rightarrow> turn \<times> listener \<times> 'w" where
  "init_listener N conf l w =
     (case n_open N w (l_family l) of
        (ec, w1) \<Rightarrow>
          if failed ec then
            (if ec_is ec = Address_family_not_supported then Skipped
             else Init_failed (ec_value ec), l, w1)
          else if l_family l = V6 then
            (case n_v6_only N w1 of
               (ec, w2) \<Rightarrow>
                 if failed ec then (Init_failed (ec_value ec), l\<lparr>l_open := True\<rparr>, w2)
                 else listen_on N conf (l\<lparr>l_open := True, l_v6_only := True\<rparr>) w2)
          else listen_on N conf (l\<lparr>l_open := True\<rparr>) w1)"

fun init_loop ::
    "'w net \<Rightarrow> frontend_config \<Rightarrow> listener list \<Rightarrow> bool \<Rightarrow> 'w \<Rightarrow>
       (exn + int) \<times> listener list \<times> 'w" where
  "init_loop N conf [] socket_bound w = (Inr (if socket_bound then 1 else - EINVAL), [], w)"
| "init_loop N conf (l # ls) socket_bound w =
     (case init_listener N conf l w of
        (t, l', w1) \<Rightarrow>
          (case t of
             Init_failed v \<Rightarrow> (Inr (- v), l' # ls, w1)
           | Init_thrown e \<Rightarrow> (Inl e, l' # ls, w1)
           | Skipped \<Rightarrow>
               (case init_loop N conf ls socket_bound w1 of (r, ls', w2) \<Rightarrow> (r, l' # ls', w2))
           | Listening \<Rightarrow>
               (case init_loop N conf ls True w1 of (r, ls', w2) \<Rightarrow> (r, l' # ls', w2))))"

definition initial_listeners :: "frontend_config \<Rightarrow> listener list" where
  "initial_listeners conf =
     map (\<lambda>l. l\<lparr>l_use_nodelay := fc_tcp_nodelay conf\<rparr>)
       [Listener_new V4 (fc_port conf), Listener_new V6 (fc_port conf)]"

definition AsioFrontend_init ::
    "'w net \<Rightarrow> frontend_config \<Rightarrow> 'w \<Rightarrow> (exn + int) \<times> listener list \<times> 'w" where
  "AsioFrontend_init N conf w = init_loop N conf (initial_listeners conf) False w"

section \<open>ConnectionList\<close>

text \<open>
  The intrusive list holds the connections in the order they were added; an operation runs under
  the list's mutex, so it is one step. \<open>close\<close> gives the connections whose sockets it closes.
\<close>

type_synonym connection_list = "nat list"

definition cn_add :: "nat \<Rightarrow> connection_list \<Rightarrow> connection_list" where
  "cn_add c cs = cs @ [c]"

definition cn_remove :: "nat \<Rightarrow> connection_list \<Rightarrow> connection_list" where
  "cn_remove c cs = (if c \<in> set cs then remove1 c cs else cs)"

definition cn_close :: "connection_list \<Rightarrow> nat list \<times> connection_list" where
  "cn_close cs = (cs, [])"

text \<open>
  What the front end relies on: a registry of connections whose members are those added and
  neither removed nor closed since. A connection is added once at a time (the hook of an
  intrusive list can be linked once).
\<close>

locale registry =
  fixes add :: "nat \<Rightarrow> 'r \<Rightarrow> 'r"
    and remove :: "nat \<Rightarrow> 'r \<Rightarrow> 'r"
    and close :: "'r \<Rightarrow> nat list \<times> 'r"
    and members :: "'r \<Rightarrow> nat set"
    and wf :: "'r \<Rightarrow> bool"
  assumes members_add: "wf r \<Longrightarrow> members (add c r) = insert c (members r)"
    and members_remove: "wf r \<Longrightarrow> members (remove c r) = members r - {c}"
    and members_close: "wf r \<Longrightarrow> set (fst (close r)) = members r \<and> members (snd (close r)) = {}"
    and wf_add: "wf r \<Longrightarrow> c \<notin> members r \<Longrightarrow> wf (add c r)"
    and wf_remove: "wf r \<Longrightarrow> wf (remove c r)"
    and wf_close: "wf r \<Longrightarrow> wf (snd (close r))"
begin

lemma remove_added:
  assumes "wf r" and "c \<notin> members r"
  shows "members (remove c (add c r)) = members r"
  using assms by (simp add: members_add members_remove wf_add)

lemma remove_absent: "wf r \<Longrightarrow> c \<notin> members r \<Longrightarrow> members (remove c r) = members r"
  by (simp add: members_remove)

text \<open>A guard that outlives \<open>close\<close> removes nothing.\<close>

lemma guard_after_close: "wf r \<Longrightarrow> members (remove c (snd (close r))) = {}"
  by (simp add: members_remove members_close wf_close)

text \<open>A connection added after \<open>close\<close> is a member.\<close>

lemma late_add: "wf r \<Longrightarrow> members (add c (snd (close r))) = {c}"
  by (simp add: members_add members_close wf_close)

end

interpretation conns: registry cn_add cn_remove cn_close set distinct
  by unfold_locales (auto simp: cn_add_def cn_remove_def cn_close_def set_remove1_eq)

section \<open>The running server\<close>

text \<open>A coroutine is spawned, then it runs its body; one that ended is not in the map.\<close>

datatype coro = Spawned | Serving

record server =
  sv_listeners :: "listener list"
  sv_conns :: connection_list
  sv_coros :: "nat \<Rightarrow> coro option"
  sv_open :: "nat set"
  sv_next :: nat
  sv_going_down :: bool
  sv_work :: bool
  sv_terminated :: bool

text \<open>The server after \<open>init\<close> and \<open>run\<close>.\<close>

definition server_new :: "listener list \<Rightarrow> server" where
  "server_new ls =
     \<lparr>sv_listeners = ls, sv_conns = [], sv_coros = Map.empty, sv_open = {}, sv_next = 0,
      sv_going_down = False, sv_work = True, sv_terminated = False\<rparr>"

text \<open>
  The handler of \<open>async_accept\<close> on listener \<open>i\<close>, completed with \<open>ec\<close>: the accept it completes is
  no longer pending, and a new one is started only on the last path. Setting the \<open>no_delay\<close>
  option cannot fail the handler (its error code is not looked at).
\<close>

definition fe_accept :: "nat \<Rightarrow> error_code \<Rightarrow> server \<Rightarrow> server" where
  "fe_accept i ec s =
     (let l = sv_listeners s ! i;
          completed = s\<lparr>sv_listeners := (sv_listeners s)[i := l\<lparr>l_accepting := False\<rparr>]\<rparr>
      in if \<not> l_open l then completed
         else if ec_is ec = Operation_aborted then completed
         else if failed ec then completed
         else
           s\<lparr>sv_listeners := (sv_listeners s)[i := l\<lparr>l_accepting := True\<rparr>],
             sv_coros := (sv_coros s)(sv_next s \<mapsto> Spawned),
             sv_open := insert (sv_next s) (sv_open s),
             sv_next := sv_next s + 1\<rparr>)"

text \<open>The coroutine's body up to \<open>handle_connection\<close>: the connection is added to the list.\<close>

definition coro_start :: "nat \<Rightarrow> server \<Rightarrow> server" where
  "coro_start c s =
     s\<lparr>sv_conns := cn_add c (sv_conns s), sv_coros := (sv_coros s)(c \<mapsto> Serving)\<rparr>"

text \<open>
  The end of the body, when \<open>handle_connection\<close> returns or throws: the guard removes the
  connection and the socket is closed. An exception leaves \<open>context.run\<close> and the function of the
  thread that ran it, which terminates the program.
\<close>

definition coro_end :: "nat \<Rightarrow> exn + unit \<Rightarrow> server \<Rightarrow> server" where
  "coro_end c r s =
     s\<lparr>sv_conns := cn_remove c (sv_conns s),
       sv_coros := (sv_coros s)(c := None),
       sv_open := sv_open s - {c},
       sv_terminated := (case r of Inl e \<Rightarrow> True | Inr _ \<Rightarrow> sv_terminated s)\<rparr>"

definition fe_stop :: "server \<Rightarrow> server" where
  "fe_stop s =
     (case cn_close (sv_conns s) of
        (closed, cs) \<Rightarrow>
          s\<lparr>sv_going_down := True,
            sv_listeners := map (\<lambda>l. l\<lparr>l_open := False\<rparr>) (sv_listeners s),
            sv_open := sv_open s - set closed,
            sv_conns := cs\<rparr>)"

text \<open>\<open>join\<close> up to the point where it waits for the threads, and the condition it waits for: with
  the work guard gone the threads leave \<open>run\<close> when nothing is pending.\<close>

definition fe_join :: "server \<Rightarrow> server" where
  "fe_join s = (let s1 = (if \<not> sv_going_down s then fe_stop s else s) in s1\<lparr>sv_work := False\<rparr>)"

definition fe_joined :: "server \<Rightarrow> bool" where
  "fe_joined s \<longleftrightarrow>
     \<not> sv_work s \<and> (\<forall>l \<in> set (sv_listeners s). \<not> l_accepting l) \<and>
     list_all (\<lambda>c. sv_coros s c = None) [0..<sv_next s]"

text \<open>The class \<open>Frontend\<close> hands every call to its implementation, an \<open>AsioFrontend\<close>.\<close>

definition Frontend_init :: "'w net \<Rightarrow> frontend_config \<Rightarrow> 'w \<Rightarrow> (exn + int) \<times> listener list \<times> 'w" where
  "Frontend_init N conf w = AsioFrontend_init N conf w"

definition Frontend_run :: "listener list \<Rightarrow> int \<times> server" where
  "Frontend_run ls = (0, server_new ls)"

definition Frontend_stop :: "server \<Rightarrow> server" where
  "Frontend_stop s = fe_stop s"

definition Frontend_join :: "server \<Rightarrow> server" where
  "Frontend_join s = fe_join s"

inductive sv_step :: "server \<Rightarrow> server \<Rightarrow> bool" where
  Step_accept: "\<not> sv_terminated s \<Longrightarrow> i < length (sv_listeners s) \<Longrightarrow>
      l_accepting (sv_listeners s ! i) \<Longrightarrow> sv_step s (fe_accept i ec s)"
| Step_start: "\<not> sv_terminated s \<Longrightarrow> sv_coros s c = Some Spawned \<Longrightarrow> sv_step s (coro_start c s)"
| Step_end: "\<not> sv_terminated s \<Longrightarrow> sv_coros s c = Some Serving \<Longrightarrow> sv_step s (coro_end c r s)"
| Step_stop: "\<not> sv_terminated s \<Longrightarrow> sv_step s (fe_stop s)"
| Step_join: "\<not> sv_terminated s \<Longrightarrow> sv_step s (fe_join s)"

inductive_cases sv_stepE: "sv_step s s'"

inductive sv_reachable :: "listener list \<Rightarrow> server \<Rightarrow> bool" for ls where
  Reach_init: "sv_reachable ls (server_new ls)"
| Reach_step: "sv_reachable ls s \<Longrightarrow> sv_step s s' \<Longrightarrow> sv_reachable ls s'"

section \<open>main\<close>

datatype main_call =
    Call_initialize
  | Call_daemon
  | Call_init
  | Call_run
  | Call_wait_shutdown
  | Call_stop
  | Call_join
  | Call_signal_fd_finalize

text \<open>
  The calls \<open>main\<close> makes, given the values the first three return, and its exit status (none when
  an exception of \<open>init\<close> ends the program). What \<open>init\<close> returns is not looked at.
\<close>

definition fe_main :: "frontend_config \<Rightarrow> int \<Rightarrow> int \<Rightarrow> exn + int \<Rightarrow> main_call list \<times> int option" where
  "fe_main conf initialize_ret daemon_ret init_ret =
     (if initialize_ret < 0 then ([Call_initialize], Some (- 1))
      else if fc_daemon conf \<and> daemon_ret < 0 then ([Call_initialize, Call_daemon], Some 1)
      else
        (let started = [Call_initialize] @ (if fc_daemon conf then [Call_daemon] else []) @ [Call_init]
         in case init_ret of
              Inl e \<Rightarrow> (started, None)
            | Inr _ \<Rightarrow>
                (started @ [Call_run, Call_wait_shutdown, Call_stop, Call_join, Call_signal_fd_finalize],
                 Some 0)))"

text \<open>
  Signals: the handlers are installed with \<open>SA_RESETHAND\<close>, so a delivery restores the default
  action, which ends the program. The handler writes an \<open>int\<close> into one end of a socket pair;
  \<open>wait_shutdown\<close> reads one from the other end and blocks while there is none.
\<close>

record signals =
  sg_handled :: "int set"
  sg_pipe :: bytes
  sg_killed :: bool

definition SIGINT :: int where "SIGINT = 2"
definition SIGUSR1 :: int where "SIGUSR1 = 10"
definition SIGTERM :: int where "SIGTERM = 15"

definition register_signal :: "int \<Rightarrow> signals \<Rightarrow> signals" where
  "register_signal signum g = g\<lparr>sg_handled := insert signum (sg_handled g)\<rparr>"

definition signal_fd_init :: signals where
  "signal_fd_init = \<lparr>sg_handled = {}, sg_pipe = [], sg_killed = False\<rparr>"

definition initialize :: signals where
  "initialize = register_signal SIGUSR1 (register_signal SIGINT (register_signal SIGTERM signal_fd_init))"

definition signal_shutdown :: "signals \<Rightarrow> signals" where
  "signal_shutdown g = g\<lparr>sg_pipe := sg_pipe g @ replicate 4 NUL\<rparr>"

definition deliver_signal :: "int \<Rightarrow> signals \<Rightarrow> signals" where
  "deliver_signal signum g =
     (if signum \<in> sg_handled g
      then signal_shutdown (g\<lparr>sg_handled := sg_handled g - {signum}\<rparr>)
      else g\<lparr>sg_killed := True\<rparr>)"

definition wait_shutdown :: "signals \<Rightarrow> signals option" where
  "wait_shutdown g = (if sg_pipe g = [] then None else Some (g\<lparr>sg_pipe := drop 4 (sg_pipe g)\<rparr>))"

section \<open>The invariant of the running server\<close>

definition sv_wf :: "server \<Rightarrow> bool" where
  "sv_wf s \<longleftrightarrow>
     distinct (sv_conns s) \<and>
     set (sv_conns s) = {c. sv_coros s c = Some Serving \<and> c \<in> sv_open s} \<and>
     (\<forall>c. sv_coros s c = Some Spawned \<longrightarrow> c \<in> sv_open s) \<and>
     (\<forall>c. c \<in> sv_open s \<longrightarrow> sv_coros s c \<noteq> None) \<and>
     (\<forall>c. sv_coros s c \<noteq> None \<longrightarrow> c < sv_next s) \<and>
     (sv_going_down s \<longrightarrow> (\<forall>l \<in> set (sv_listeners s). \<not> l_open l))"

lemma sv_wfD:
  assumes "sv_wf s"
  shows "distinct (sv_conns s)"
    and "set (sv_conns s) = {c. sv_coros s c = Some Serving \<and> c \<in> sv_open s}"
    and "sv_coros s c = Some Spawned \<Longrightarrow> c \<in> sv_open s"
    and "c \<in> sv_open s \<Longrightarrow> sv_coros s c \<noteq> None"
    and "sv_coros s c \<noteq> None \<Longrightarrow> c < sv_next s"
    and "sv_going_down s \<Longrightarrow> l \<in> set (sv_listeners s) \<Longrightarrow> \<not> l_open l"
  using assms unfolding sv_wf_def by blast+

lemma sv_wf_new [wf_intros]: "sv_wf (server_new ls)"
  by (simp add: sv_wf_def server_new_def)

lemma sv_wf_accept [wf_intros]:
  assumes wf: "sv_wf s" and i: "i < length (sv_listeners s)"
  shows "sv_wf (fe_accept i ec s)"
proof -
  let ?l = "sv_listeners s ! i"
  have down: "\<not> l_open l" if "sv_going_down s" "\<not> l_open x" "l \<in> set ((sv_listeners s)[i := x])"
    for l x
    using sv_wfD(6) [OF wf that(1)] that(2,3) set_update_subset_insert by (metis insertE subsetD)
  have fresh: "sv_coros s (sv_next s) = None" "sv_next s \<notin> sv_open s"
    using sv_wfD(4) [OF wf, of "sv_next s"] sv_wfD(5) [OF wf, of "sv_next s"] by blast+
  show ?thesis
  proof (cases "l_open ?l \<and> ec_is ec \<noteq> Operation_aborted \<and> \<not> failed ec")
    case False
    have "\<forall>l \<in> set ((sv_listeners s)[i := ?l\<lparr>l_accepting := False\<rparr>]). \<not> l_open l" if g: "sv_going_down s"
    proof
      fix l
      assume "l \<in> set ((sv_listeners s)[i := ?l\<lparr>l_accepting := False\<rparr>])"
      with sv_wfD(6) [OF wf g nth_mem [OF i]] show "\<not> l_open l"
        by - (rule down [OF g, of "?l\<lparr>l_accepting := False\<rparr>"], simp_all)
    qed
    then have "sv_wf (s\<lparr>sv_listeners := (sv_listeners s)[i := ?l\<lparr>l_accepting := False\<rparr>]\<rparr>)"
      using wf unfolding sv_wf_def by simp
    with False show ?thesis by (auto simp: fe_accept_def Let_def)
  next
    case True
    with sv_wfD(6) [OF wf _ nth_mem [OF i]] have "\<not> sv_going_down s" by blast
    with True fresh wf show ?thesis
      unfolding sv_wf_def by (auto simp: fe_accept_def Let_def less_Suc_eq)
  qed
qed

lemma sv_wf_start [wf_intros]:
  assumes "sv_wf s" and "sv_coros s c = Some Spawned"
  shows "sv_wf (coro_start c s)"
  using assms sv_wfD(3) [OF assms] unfolding sv_wf_def
  by (auto simp: coro_start_def cn_add_def)

lemma sv_wf_end [wf_intros]:
  assumes "sv_wf s"
  shows "sv_wf (coro_end c r s)"
  using assms unfolding sv_wf_def
  by (auto simp: coro_end_def cn_remove_def distinct_remove1 set_remove1_eq split: if_splits)

lemma sv_wf_stop [wf_intros]:
  assumes "sv_wf s"
  shows "sv_wf (fe_stop s)"
  using assms unfolding sv_wf_def by (auto simp: fe_stop_def cn_close_def)

lemma sv_wf_join [wf_intros]:
  assumes "sv_wf s"
  shows "sv_wf (fe_join s)"
proof -
  have "sv_wf (s1\<lparr>sv_work := False\<rparr>)" if "sv_wf s1" for s1
    using that unfolding sv_wf_def by simp
  with sv_wf_stop [OF assms] assms show ?thesis by (simp add: fe_join_def Let_def)
qed

lemma sv_step_wf: "sv_step s s' \<Longrightarrow> sv_wf s \<Longrightarrow> sv_wf s'"
  by (induction rule: sv_step.induct) (auto intro: wf_intros)

lemma sv_reachable_wf: "sv_reachable ls s \<Longrightarrow> sv_wf s"
  by (induction rule: sv_reachable.induct) (auto intro: wf_intros sv_step_wf)

section \<open>Properties\<close>

text \<open>
  C6: The connection list is exact. In every reachable state of the server it holds, once each,
  exactly the connections that are being served on a socket that is still open; every open
  socket belongs to a coroutine that has not ended.
\<close>
theorem connection_list_exact:
  assumes "sv_reachable ls s"
  shows "distinct (sv_conns s) \<and>
         set (sv_conns s) = {c. sv_coros s c = Some Serving \<and> c \<in> sv_open s} \<and>
         (\<forall>c. c \<in> sv_open s \<longrightarrow> sv_coros s c \<noteq> None)"
  using sv_wfD(1,2,4) [OF sv_reachable_wf [OF assms]] by simp

text \<open>
  C25: \<open>stop\<close> closes all the server knows of: afterwards every listener is closed, the list is
  empty, and the only sockets still open are those of coroutines that were spawned and have not
  added their connection yet.
\<close>
theorem stop_closes_connections:
  assumes "sv_reachable ls s"
  shows "(\<forall>l \<in> set (sv_listeners (fe_stop s)). \<not> l_open l) \<and> sv_conns (fe_stop s) = [] \<and>
         sv_open (fe_stop s) = {c. sv_coros s c = Some Spawned}"
proof -
  note wf = sv_reachable_wf [OF assms]
  have "sv_open s - set (sv_conns s) = {c. sv_coros s c = Some Spawned}"
  proof (intro set_eqI iffI)
    fix c
    assume "c \<in> sv_open s - set (sv_conns s)"
    with sv_wfD(2) [OF wf] sv_wfD(4) [OF wf, of c] show "c \<in> {c. sv_coros s c = Some Spawned}"
      by (cases "sv_coros s c"; cases "the (sv_coros s c)") auto
  next
    fix c
    assume "c \<in> {c. sv_coros s c = Some Spawned}"
    with sv_wfD(2) [OF wf] sv_wfD(3) [OF wf, of c] show "c \<in> sv_open s - set (sv_conns s)" by auto
  qed
  then show ?thesis by (simp add: fe_stop_def cn_close_def)
qed

text \<open>
  C26: A connection can outlive the shutdown. From any reachable state with a coroutine that was
  spawned and has not run yet, stopping, running the coroutine and joining leads to a reachable
  state where the server is going down, the connection is served on an open socket that neither
  \<open>stop\<close> nor \<open>join\<close> closed, and \<open>join\<close> cannot complete.
\<close>
theorem late_connection_outlives_stop:
  assumes "sv_reachable ls s" and "\<not> sv_terminated s" and "sv_coros s c = Some Spawned"
  defines "s' \<equiv> fe_join (coro_start c (fe_stop s))"
  shows "sv_reachable ls s' \<and> sv_going_down s' \<and> c \<in> set (sv_conns s') \<and> c \<in> sv_open s' \<and>
         \<not> fe_joined s'"
proof -
  note wf = sv_reachable_wf [OF assms(1)]
  have c: "c \<in> sv_open s" "c < sv_next s" "c \<notin> set (sv_conns s)"
    using sv_wfD(2,3,5) [OF wf] assms(3) by auto
  have "sv_step s (fe_stop s)" by (rule Step_stop [OF assms(2)])
  moreover have "sv_step (fe_stop s) (coro_start c (fe_stop s))"
    using assms(2,3) by (intro Step_start) (simp_all add: fe_stop_def cn_close_def)
  moreover have "sv_step (coro_start c (fe_stop s)) s'"
    using assms(2) unfolding s'_def
    by (intro Step_join) (simp add: fe_stop_def cn_close_def coro_start_def)
  ultimately have "sv_reachable ls s'" using assms(1) Reach_step by metis
  moreover have "sv_coros s' c = Some Serving \<and> c < sv_next s'"
    using c by (simp add: s'_def fe_join_def Let_def coro_start_def fe_stop_def cn_close_def)
  then have "\<not> fe_joined s'" by (auto simp: fe_joined_def list_all_iff)
  ultimately show ?thesis
    using c by (simp add: s'_def fe_join_def Let_def coro_start_def fe_stop_def cn_close_def cn_add_def)
qed

text \<open>The listeners \<open>init\<close> leaves accepting when every call succeeds, and a run up to one accept.\<close>

definition demo_listeners :: "listener list" where
  "demo_listeners =
     map (\<lambda>l. l\<lparr>l_open := True, l_bound := True, l_accepting := True\<rparr>)
       (initial_listeners FrontendConfig_new)"

definition demo_accepted :: server where
  "demo_accepted = fe_accept 0 no_error (server_new demo_listeners)"

lemma demo_accepted_reachable: "sv_reachable demo_listeners demo_accepted"
  unfolding demo_accepted_def
  by (rule Reach_step [OF Reach_init Step_accept])
    (simp_all add: server_new_def demo_listeners_def initial_listeners_def)

lemma demo_accepted_simps:
  "\<not> sv_terminated demo_accepted" "sv_coros demo_accepted 0 = Some Spawned"
  "sv_open demo_accepted = {0}" "sv_conns demo_accepted = []"
  by (simp_all add: demo_accepted_def fe_accept_def server_new_def demo_listeners_def
      initial_listeners_def no_error_def failed_def Let_def)

theorem connection_list_exact_witness:
  "set (sv_conns demo_accepted) = {c. sv_coros demo_accepted c = Some Serving \<and> c \<in> sv_open demo_accepted}"
  using connection_list_exact [OF demo_accepted_reachable] by blast

theorem stop_closes_connections_witness:
  "sv_open (fe_stop demo_accepted) = {c. sv_coros demo_accepted c = Some Spawned}"
  using stop_closes_connections [OF demo_accepted_reachable] by blast

theorem late_connection_outlives_stop_witness:
  "0 \<in> sv_open (fe_join (coro_start 0 (fe_stop demo_accepted)))"
  using late_connection_outlives_stop [OF demo_accepted_reachable demo_accepted_simps(1,2)] by blast

lemma fe_accept_length [simp]: "length (sv_listeners (fe_accept i ec s)) = length (sv_listeners s)"
  by (simp add: fe_accept_def Let_def)

text \<open>A step never makes another listener accept, nor one with no accept pending.\<close>

lemma step_keeps_idle_listener:
  assumes "sv_step s s'" and "i < length (sv_listeners s)" and "\<not> l_accepting (sv_listeners s ! i)"
  shows "i < length (sv_listeners s') \<and> \<not> l_accepting (sv_listeners s' ! i)"
  using assms
proof (cases rule: sv_step.cases)
  case (Step_accept k ec)
  then show ?thesis using assms by (auto simp: fe_accept_def Let_def nth_list_update)
qed (use assms in \<open>auto simp: coro_start_def coro_end_def fe_stop_def fe_join_def cn_close_def Let_def\<close>)

text \<open>
  One failed accept ends accepting. When an accept on a listener completes with an error the
  listener is never armed again: in whatever way the server runs on, no accept is pending on it,
  although its acceptor stays open.
\<close>
lemma accept_error_ends_accepting:
  assumes "i < length (sv_listeners s)" and "failed ec"
    and "rtranclp sv_step (fe_accept i ec s) s'"
  shows "\<not> l_accepting (sv_listeners s' ! i) \<and>
         l_open (sv_listeners (fe_accept i ec s) ! i) = l_open (sv_listeners s ! i)"
proof -
  have "i < length (sv_listeners s') \<and> \<not> l_accepting (sv_listeners s' ! i)"
    using assms(3)
  proof (induction rule: rtranclp_induct)
    case base
    with assms(1,2) show ?case by (auto simp: fe_accept_def Let_def)
  next
    case (step y z)
    then show ?case using step_keeps_idle_listener by blast
  qed
  moreover have "l_open (sv_listeners (fe_accept i ec s) ! i) = l_open (sv_listeners s ! i)"
    using assms(1,2) by (auto simp: fe_accept_def Let_def)
  ultimately show ?thesis by blast
qed

lemma accept_error_ends_accepting_example:
  "\<not> l_accepting (sv_listeners (fe_stop (fe_accept 0 \<lparr>ec_is = Other_error, ec_value = 24\<rparr>
      (server_new demo_listeners))) ! 0)"
proof -
  let ?s = "fe_accept 0 \<lparr>ec_is = Other_error, ec_value = 24\<rparr> (server_new demo_listeners)"
  have "\<not> sv_terminated ?s" by (simp add: fe_accept_def server_new_def Let_def failed_def)
  then have "rtranclp sv_step ?s (fe_stop ?s)" by (intro r_into_rtranclp Step_stop)
  from accept_error_ends_accepting [OF _ _ this] show ?thesis
    by (simp add: server_new_def demo_listeners_def initial_listeners_def failed_def)
qed

section \<open>Properties of init\<close>

text \<open>Numeric error values are positive, as the system's are.\<close>

definition errno_contract :: "'w net \<Rightarrow> bool" where
  "errno_contract N \<longleftrightarrow>
     (\<forall>w fam. failed (fst (n_open N w fam)) \<longrightarrow> 0 < ec_value (fst (n_open N w fam))) \<and>
     (\<forall>w. failed (fst (n_v6_only N w)) \<longrightarrow> 0 < ec_value (fst (n_v6_only N w))) \<and>
     (\<forall>w fam port. failed (fst (n_bind N w fam port)) \<longrightarrow> 0 < ec_value (fst (n_bind N w fam port)))"

lemma listen_on_turn:
  assumes "errno_contract N" and "listen_on N conf l w = (t, l', w')" and "l_open l" "\<not> l_accepting l"
  shows "case t of
      Listening \<Rightarrow> l_accepting l' \<and> l_open l' \<and> l_bound l' \<and>
        l_backlog l' = Some (backlog (n_max_listen N) conf)
    | Skipped \<Rightarrow> False
    | Init_failed v \<Rightarrow> 0 < v \<and> \<not> l_accepting l'
    | Init_thrown e \<Rightarrow> \<not> l_accepting l'"
  using assms unfolding listen_on_def errno_contract_def
  by (auto split: prod.splits if_splits) (metis fst_conv)

lemma init_listener_turn:
  assumes i: "errno_contract N" and run: "init_listener N conf l w = (t, l', w')"
    and l: "\<not> l_accepting l" "\<not> l_open l"
  shows "case t of
      Listening \<Rightarrow> l_accepting l' \<and> l_open l' \<and> l_bound l' \<and>
        l_backlog l' = Some (backlog (n_max_listen N) conf)
    | Skipped \<Rightarrow> \<not> l_accepting l' \<and> \<not> l_open l'
    | Init_failed v \<Rightarrow> 0 < v \<and> \<not> l_accepting l'
    | Init_thrown e \<Rightarrow> \<not> l_accepting l'"
proof -
  obtain ec w1 where o: "n_open N w (l_family l) = (ec, w1)" by fastforce
  with i have pos: "failed ec \<Longrightarrow> 0 < ec_value ec" unfolding errno_contract_def by (metis fst_conv)
  obtain ec2 w2 where v: "n_v6_only N w1 = (ec2, w2)" by fastforce
  with i have pos2: "failed ec2 \<Longrightarrow> 0 < ec_value ec2" unfolding errno_contract_def by (metis fst_conv)
  show ?thesis
  proof (cases "failed ec \<or> l_family l = V6 \<and> failed ec2")
    case True
    with run o v pos pos2 l show ?thesis by (auto simp: init_listener_def split: if_splits)
  next
    case False
    then obtain k w3 where "listen_on N conf k w3 = (t, l', w')" "l_open k" "\<not> l_accepting k"
      using run o v l by (auto simp: init_listener_def split: if_splits)
    from listen_on_turn [OF i this] show ?thesis by (cases t) auto
  qed
qed

lemma init_loop_result:
  assumes i: "errno_contract N"
  shows "init_loop N conf ls b w = (r, ls', w') \<Longrightarrow> \<forall>l \<in> set ls. \<not> l_accepting l \<and> \<not> l_open l \<Longrightarrow>
     length ls' = length ls \<and>
     (\<forall>l \<in> set ls'. l_accepting l \<longrightarrow>
        l_open l \<and> l_bound l \<and> l_backlog l = Some (backlog (n_max_listen N) conf)) \<and>
     (r = Inr 1 \<longrightarrow> (b \<or> (\<exists>l \<in> set ls'. l_accepting l)) \<and>
        (\<forall>l \<in> set ls'. l_accepting l \<or> \<not> l_open l)) \<and>
     (\<forall>n. r = Inr n \<longrightarrow> n \<noteq> 1 \<longrightarrow> n < 0)"
proof (induction ls arbitrary: b w r ls' w')
  case Nil
  then show ?case by (auto simp: EINVAL_def split: if_splits)
next
  case (Cons l ls)
  obtain t l1 w1 where t: "init_listener N conf l w = (t, l1, w1)" by (metis surj_pair)
  have turn: "case t of
      Listening \<Rightarrow> l_accepting l1 \<and> l_open l1 \<and> l_bound l1 \<and>
        l_backlog l1 = Some (backlog (n_max_listen N) conf)
    | Skipped \<Rightarrow> \<not> l_accepting l1 \<and> \<not> l_open l1
    | Init_failed v \<Rightarrow> 0 < v \<and> \<not> l_accepting l1
    | Init_thrown e \<Rightarrow> \<not> l_accepting l1"
    using init_listener_turn [OF i t] Cons.prems(2) by simp
  obtain r2 ls2 w2 where go: "init_loop N conf ls (t = Listening \<or> b) w1 = (r2, ls2, w2)"
    by (metis surj_pair)
  note IH = Cons.IH [OF this]
  show ?case
  proof (cases t)
    case (Init_failed v)
    with Cons.prems t turn show ?thesis by auto
  next
    case (Init_thrown e)
    with Cons.prems t turn show ?thesis by auto
  next
    case Listening
    with Cons.prems t turn go IH show ?thesis by auto
  next
    case Skipped
    with Cons.prems t turn go IH show ?thesis by auto
  qed
qed

text \<open>
  What happens to the listeners, one after the other: \<open>us\<close> are the worlds in which \<open>init\<close> got to
  them. A listener whose acceptor cannot be opened is passed over if the system does not know its
  address family, and is the last one if the error is another; one that was opened accepts, or is the
  last one.
\<close>

definition opens_as :: "'w net \<Rightarrow> listener list \<Rightarrow> 'w list \<Rightarrow> int \<Rightarrow> nat \<Rightarrow> bool" where
  "opens_as N ls us n i =
     (let ec = fst (n_open N (us ! i) (l_family (ls ! i))) in
      if failed ec then
        \<not> l_open (ls ! i) \<and> (ec_is ec = Address_family_not_supported \<or> n = - ec_value ec \<and> Suc i = length us)
      else l_open (ls ! i) \<and> (l_accepting (ls ! i) \<or> n < 0 \<and> Suc i = length us))"

lemma opens_as_Suc: "opens_as N (l # ls) (u # us) n (Suc i) = opens_as N ls us n i"
  by (simp add: opens_as_def Let_def)

lemma listen_on_frame:
  assumes "listen_on N conf l w = (t, l', w')"
  shows "l_open l' = l_open l \<and> l_family l' = l_family l"
  using assms unfolding listen_on_def by (auto split: prod.splits if_splits)

lemma init_listener_opens:
  assumes "init_listener N conf l w = (t, l', w')" and "\<not> l_open l"
  shows "l_family l' = l_family l" and "failed (fst (n_open N w (l_family l))) \<longleftrightarrow> \<not> l_open l'"
    and "\<not> l_open l' \<Longrightarrow> t = (if ec_is (fst (n_open N w (l_family l))) = Address_family_not_supported then Skipped
           else Init_failed (ec_value (fst (n_open N w (l_family l)))))"
    and "l_open l' \<Longrightarrow> t \<noteq> Skipped"
proof -
  obtain ec w1 where o: "n_open N w (l_family l) = (ec, w1)" by fastforce
  show "l_family l' = l_family l" "failed (fst (n_open N w (l_family l))) \<longleftrightarrow> \<not> l_open l'"
    "\<not> l_open l' \<Longrightarrow> t = (if ec_is (fst (n_open N w (l_family l))) = Address_family_not_supported then Skipped
           else Init_failed (ec_value (fst (n_open N w (l_family l)))))"
    "l_open l' \<Longrightarrow> t \<noteq> Skipped"
    using assms o by (auto simp: init_listener_def listen_on_def split: prod.splits if_splits)
qed

definition passed_over :: "'w net \<Rightarrow> 'w \<Rightarrow> listener \<Rightarrow> bool" where
  "passed_over N u l \<longleftrightarrow>
     failed (fst (n_open N u (l_family l))) \<and> ec_is (fst (n_open N u (l_family l))) = Address_family_not_supported"

definition turns_made :: "'w net \<Rightarrow> listener list \<Rightarrow> bool \<Rightarrow> 'w \<Rightarrow> int \<Rightarrow> listener list \<Rightarrow> 'w list \<Rightarrow> bool" where
  "turns_made N ls b w n ls' us \<longleftrightarrow>
     (ls \<noteq> [] \<longrightarrow> us \<noteq> [] \<and> hd us = w) \<and> length us \<le> length ls \<and> (\<forall>i < length us. opens_as N ls' us n i) \<and>
     map l_family ls' = map l_family ls \<and> drop (length us) ls' = drop (length us) ls \<and>
     (n = 1 \<longrightarrow> length us = length ls) \<and>
     (\<not> b \<and> length us = length ls \<and> (\<forall>i < length us. passed_over N (us ! i) (ls' ! i)) \<longrightarrow> n = - EINVAL)"

lemma turns_made_Cons:
  assumes rest: "turns_made N ls b' w1 n ls2 us" and first: "opens_as N (l1 # ls2) (w # us) n 0"
    and fam: "l_family l1 = l_family l" and b: "\<not> b \<Longrightarrow> passed_over N w l1 \<Longrightarrow> \<not> b'"
  shows "turns_made N (l # ls) b w n (l1 # ls2) (w # us)"
proof -
  have "opens_as N (l1 # ls2) (w # us) n i" if "i < length (w # us)" for i
  proof (cases i)
    case (Suc j)
    from rest have "\<forall>i < length us. opens_as N ls2 us n i" unfolding turns_made_def by (elim conjE)
    with that Suc have "opens_as N ls2 us n j" by simp
    with Suc show ?thesis by (simp only: opens_as_Suc)
  qed (use first in simp)
  moreover have "n = - EINVAL" if "\<not> b" "length us = length ls"
    and "\<forall>i < length (w # us). passed_over N ((w # us) ! i) ((l1 # ls2) ! i)"
  proof -
    from that(3) [rule_format, of 0] b that(1) have "\<not> b'" by simp
    moreover have "\<forall>i < length us. passed_over N (us ! i) (ls2 ! i)"
    proof (intro allI impI)
      fix i
      assume "i < length us"
      with that(3) [rule_format, of "Suc i"] show "passed_over N (us ! i) (ls2 ! i)" by simp
    qed
    ultimately show ?thesis using rest that(2) unfolding turns_made_def by blast
  qed
  moreover have "length us \<le> length ls" "map l_family ls2 = map l_family ls" "drop (length us) ls2 = drop (length us) ls"
    "n = 1 \<longrightarrow> length us = length ls" using rest unfolding turns_made_def by blast+
  ultimately show ?thesis using fam unfolding turns_made_def by auto
qed

lemma init_loop_opens:
  assumes i: "errno_contract N"
  shows "init_loop N conf ls b w = (Inr n, ls', w') \<Longrightarrow> \<forall>l \<in> set ls. \<not> l_accepting l \<and> \<not> l_open l \<Longrightarrow>
     \<exists>us. turns_made N ls b w n ls' us"
proof (induction ls arbitrary: b w ls')
  case Nil
  then show ?case by (intro exI [of _ "[]"]) (auto simp: turns_made_def split: if_splits)
next
  case (Cons l ls)
  obtain t l1 w1 where t: "init_listener N conf l w = (t, l1, w1)" by (metis surj_pair)
  have l: "\<not> l_accepting l" "\<not> l_open l" using Cons.prems(2) by simp_all
  note turn = init_listener_turn [OF i t l] and opens = init_listener_opens [OF t l(2)]
  show ?case
  proof (cases "t = Listening \<or> t = Skipped")
    case True
    obtain r2 ls2 w2 where go: "init_loop N conf ls (t = Listening \<or> b) w1 = (r2, ls2, w2)"
      by (metis surj_pair)
    with True Cons.prems(1) t have r: "r2 = Inr n" "ls' = l1 # ls2" "w2 = w'" by auto
    have "\<forall>l \<in> set ls. \<not> l_accepting l \<and> \<not> l_open l" using Cons.prems(2) by simp
    from Cons.IH [OF go [unfolded r] this] obtain us where us: "turns_made N ls (t = Listening \<or> b) w1 n ls2 us" ..
    have "opens_as N (l1 # ls2) (w # us) n 0"
      using True turn opens by (auto simp: opens_as_def Let_def split: if_splits)
    moreover have "t \<noteq> Listening" if "passed_over N w l1"
      using that turn opens(1,2) by (auto simp: passed_over_def)
    ultimately have "turns_made N (l # ls) b w n (l1 # ls2) (w # us)"
      using turns_made_Cons [OF us _ opens(1), of w b] by blast
    with r(2) show ?thesis by blast
  next
    case False
    with Cons.prems(1) t obtain v where v: "t = Init_failed v" "n = - v" "ls' = l1 # ls" by (cases t) auto
    then have v0: "0 < v" using turn by simp
    have "opens_as N ls' [w] n 0"
      using opens v v0 by (auto simp: opens_as_def Let_def split: if_splits)
    moreover have "\<not> passed_over N w l1" using opens(1-3) v(1) by (auto simp: passed_over_def)
    ultimately have "turns_made N (l # ls) b w n ls' [w]" using v v0 opens(1) by (auto simp: turns_made_def)
    then show ?thesis ..
  qed
qed

text \<open>
  C38: \<open>init\<close> reports faithfully. Let \<open>us\<close> be the states of the system in which it got to the listeners,
  the first of them the state it was called in; the listeners it did not get to are as they were.
  It returns 1 only when it got to all of them and at least one accepts, and then each of the others
  was passed over because the system answered to its \<open>open\<close> that it does not support the address
  family. Any other error of \<open>open\<close> is what it returns, negated, and it goes no further. It returns
  \<open>-EINVAL\<close> when all were passed over, and whatever is not 1 is negative. A listener that accepts is
  open and bound, and listens with a backlog of at most the configured maximum and the system's.
\<close>
theorem init_reports_listeners:
  assumes "errno_contract N" and "AsioFrontend_init N conf w = (Inr n, ls, w')"
  shows "\<exists>us. us \<noteq> [] \<and> hd us = w \<and> length us \<le> length ls \<and>
           drop (length us) ls = drop (length us) (initial_listeners conf) \<and>
           map l_family ls = [V4, V6] \<and>
           (n = 1 \<longrightarrow> length us = length ls \<and> (\<exists>l \<in> set ls. l_accepting l)) \<and>
           (n \<noteq> 1 \<longrightarrow> n < 0) \<and>
           (\<forall>i < length us.
              let ec = fst (n_open N (us ! i) (l_family (ls ! i))) in
              (n = 1 \<longrightarrow> l_accepting (ls ! i) \<or>
                 failed ec \<and> ec_is ec = Address_family_not_supported \<and> \<not> l_open (ls ! i)) \<and>
              (failed ec \<and> ec_is ec \<noteq> Address_family_not_supported \<longrightarrow> n = - ec_value ec \<and> Suc i = length us)) \<and>
           (length us = length ls \<and>
              (\<forall>i < length us.
                 let ec = fst (n_open N (us ! i) (l_family (ls ! i))) in
                 failed ec \<and> ec_is ec = Address_family_not_supported) \<longrightarrow> n = - EINVAL) \<and>
           (\<forall>l \<in> set ls. l_accepting l \<longrightarrow> l_open l \<and> l_bound l \<and>
              (\<exists>k. l_backlog l = Some k \<and> k \<le> fc_max_connection_backlog conf \<and> k \<le> n_max_listen N))"
proof -
  let ?ls = "initial_listeners conf"
  have new: "\<forall>l \<in> set ?ls. \<not> l_accepting l \<and> \<not> l_open l" "?ls \<noteq> []" "map l_family ?ls = [V4, V6]"
    by (simp_all add: initial_listeners_def Listener_new_def)
  note run = assms(2) [unfolded AsioFrontend_init_def]
  note result = init_loop_result [OF assms(1) run new(1)]
  have less: "backlog k conf \<le> fc_max_connection_backlog conf \<and> backlog k conf \<le> k" for k
    by (simp add: backlog_def)
  from init_loop_opens [OF assms(1) run new(1)] obtain us where u: "turns_made N ?ls False w n ls us" ..
  have us: "us \<noteq> []" "hd us = w" "length us \<le> length ?ls" "\<forall>i < length us. opens_as N ls us n i"
      "map l_family ls = [V4, V6]" "drop (length us) ls = drop (length us) ?ls" "n = 1 \<longrightarrow> length us = length ?ls"
      "length us = length ?ls \<Longrightarrow> \<forall>i < length us. passed_over N (us ! i) (ls ! i) \<Longrightarrow> n = - EINVAL"
    using u [unfolded turns_made_def new(3)] new(2) by blast+
  have len: "length ls = length ?ls" using result by simp
  have neg: "n \<noteq> 1 \<longrightarrow> n < 0" using result by simp
  have each: "let ec = fst (n_open N (us ! i) (l_family (ls ! i))) in
      (n = 1 \<longrightarrow> l_accepting (ls ! i) \<or> failed ec \<and> ec_is ec = Address_family_not_supported \<and> \<not> l_open (ls ! i)) \<and>
      (failed ec \<and> ec_is ec \<noteq> Address_family_not_supported \<longrightarrow> n = - ec_value ec \<and> Suc i = length us)"
    if i: "i < length us" for i
  proof -
    obtain ec u where o: "n_open N (us ! i) (l_family (ls ! i)) = (ec, u)" by fastforce
    with assms(1) have "failed ec \<longrightarrow> 0 < ec_value ec" unfolding errno_contract_def by (metis fst_conv)
    with us(4) i o show ?thesis by (auto simp: opens_as_def Let_def split: if_splits)
  qed
  have all: "n = - EINVAL" if "length us = length ls" and f: "\<forall>i < length us.
      let ec = fst (n_open N (us ! i) (l_family (ls ! i))) in failed ec \<and> ec_is ec = Address_family_not_supported"
    using us(8) that len by (simp add: passed_over_def Let_def)
  have "\<forall>l \<in> set ls. l_accepting l \<longrightarrow> l_open l \<and> l_bound l \<and>
      (\<exists>k. l_backlog l = Some k \<and> k \<le> fc_max_connection_backlog conf \<and> k \<le> n_max_listen N)"
    using result less by blast
  moreover have "n = 1 \<longrightarrow> length us = length ls \<and> (\<exists>l \<in> set ls. l_accepting l)" using result us(7) len by auto
  moreover from each have "\<forall>i < length us.
      let ec = fst (n_open N (us ! i) (l_family (ls ! i))) in
      (n = 1 \<longrightarrow> l_accepting (ls ! i) \<or> failed ec \<and> ec_is ec = Address_family_not_supported \<and> \<not> l_open (ls ! i)) \<and>
      (failed ec \<and> ec_is ec \<noteq> Address_family_not_supported \<longrightarrow> n = - ec_value ec \<and> Suc i = length us)"
    by (intro allI impI)
  moreover from all have "length us = length ls \<and> (\<forall>i < length us.
      let ec = fst (n_open N (us ! i) (l_family (ls ! i))) in
      failed ec \<and> ec_is ec = Address_family_not_supported) \<longrightarrow> n = - EINVAL" by (intro impI) (elim conjE)
  moreover have "length us \<le> length ls" using us(3) len by simp
  ultimately show ?thesis using us(1,2,5,6) neg by (intro exI [of _ us] conjI)
qed

text \<open>A system without IPv6 (error 97), and one where the port is taken for IPv6 (error 98).\<close>

definition demo_net :: "bool \<Rightarrow> unit net" where
  "demo_net v6 =
     \<lparr>n_open = (\<lambda>w fam. (if fam = V6 \<and> \<not> v6
         then \<lparr>ec_is = Address_family_not_supported, ec_value = 97\<rparr> else no_error, w)),
      n_v6_only = (\<lambda>w. (no_error, w)),
      n_reuse = (\<lambda>w. (no_error, w)),
      n_bind = (\<lambda>w fam port. (if fam = V6 then \<lparr>ec_is = Other_error, ec_value = 98\<rparr> else no_error, w)),
      n_listen = (\<lambda>w k. (no_error, w)),
      n_max_listen = 4096\<rparr>"

lemma demo_net_errno: "errno_contract (demo_net v6)"
  by (simp add: errno_contract_def demo_net_def failed_def no_error_def)

lemma demo_net_init:
  "fst (AsioFrontend_init (demo_net v6) FrontendConfig_new ()) = Inr (if v6 then - 98 else 1)"
  "map l_accepting (fst (snd (AsioFrontend_init (demo_net v6) FrontendConfig_new ()))) = [True, False]"
  by (simp_all add: AsioFrontend_init_def initial_listeners_def init_listener_def listen_on_def
      demo_net_def Listener_new_def no_error_def failed_def)

theorem init_reports_listeners_witness:
  "(\<exists>ls us. AsioFrontend_init (demo_net False) FrontendConfig_new () = (Inr 1, ls, ()) \<and>
     (\<exists>l \<in> set ls. l_accepting l) \<and> length us = length ls \<and>
     ec_is (fst (n_open (demo_net False) (us ! 1) (l_family (ls ! 1)))) = Address_family_not_supported)"
proof -
  obtain r ls w' where run: "AsioFrontend_init (demo_net False) FrontendConfig_new () = (r, ls, w')"
    by (metis surj_pair)
  with demo_net_init [of False] have r: "r = Inr 1" "map l_accepting ls = [True, False]" by simp_all
  from run r(1) have "AsioFrontend_init (demo_net False) FrontendConfig_new () = (Inr 1, ls, w')" by simp
  from init_reports_listeners [OF demo_net_errno this] obtain us where us: "length us = length ls" "\<exists>l \<in> set ls. l_accepting l"
    "\<forall>i < length us. let ec = fst (n_open (demo_net False) (us ! i) (l_family (ls ! i))) in
      (l_accepting (ls ! i) \<or> failed ec \<and> ec_is ec = Address_family_not_supported \<and> \<not> l_open (ls ! i))"
    unfolding Let_def by blast
  from r(2) obtain l1 l2 where ls: "ls = [l1, l2]" "\<not> l_accepting l2" by (auto simp: map_eq_Cons_conv)
  with us(3) [rule_format, of 1] us(1) have "ec_is (fst (n_open (demo_net False) (us ! 1) (l_family (ls ! 1)))) = Address_family_not_supported"
    by (simp add: Let_def)
  with run r(1) us(1,2) show ?thesis by auto
qed

text \<open>
  \<open>main\<close> does not look at what \<open>init\<close> reports: whatever value it returns, the server is run
  until a signal, stopped and joined, and the program exits with success. So with the port taken
  for IPv6 only, the program serves IPv4 although \<open>init\<close> returned an error.
\<close>
lemma main_ignores_init_result:
  "fe_main conf 0 0 (Inr n) = fe_main conf 0 0 (Inr 1) \<and>
   Call_run \<in> set (fst (fe_main conf 0 0 (Inr n))) \<and> snd (fe_main conf 0 0 (Inr n)) = Some 0 \<and>
   fst (AsioFrontend_init (demo_net True) FrontendConfig_new ()) = Inr (- 98) \<and>
   map l_accepting (fst (snd (AsioFrontend_init (demo_net True) FrontendConfig_new ()))) = [True, False]"
  using demo_net_init [of True] by (simp add: fe_main_def)

text \<open>
  Shutting down by a signal. Before any signal \<open>wait_shutdown\<close> blocks; the first delivery of
  any of the three signals lets it return without harm to the program; the same signal once more
  kills it, however far the shutdown has got.
\<close>
lemma signal_wakes_then_kills:
  "wait_shutdown initialize = None \<and>
   (\<forall>signum \<in> {SIGTERM, SIGINT, SIGUSR1}.
      wait_shutdown (deliver_signal signum initialize) \<noteq> None \<and>
      \<not> sg_killed (deliver_signal signum initialize) \<and>
      sg_killed (deliver_signal signum (deliver_signal signum initialize)))"
  by (simp add: wait_shutdown_def deliver_signal_def initialize_def register_signal_def
      signal_fd_init_def signal_shutdown_def SIGTERM_def SIGINT_def SIGUSR1_def)

lemma signal_wakes_then_kills_example:
  "sg_killed (deliver_signal SIGTERM (deliver_signal SIGTERM initialize))"
  using signal_wakes_then_kills by blast

end
