(* ===== verification/Truncation.thy ===== *)
theory Truncation
  imports Connection
begin

text \<open>
  What is on the wire when a write fails: every output operation of the request path that throws has
  put a first part of its text there and nothing else. This is what \<open>sends\<close> of \<open>ClientIO\<close> leaves
  open, which speaks of the operations that return.
\<close>

section \<open>Failing operations\<close>

text \<open>
  \<open>cuts B wire J m E\<close>, when every operation completes: from a state in which \<open>J\<close> holds of the world, \<open>m\<close> throws only because a
  write failed, with the error of the system, and then the wire is a first part of what was
  accepted before and a text that satisfies \<open>E\<close>.
\<close>

definition cuts ::
    "'w boost \<Rightarrow> ('w \<Rightarrow> bytes) \<Rightarrow> ('w \<Rightarrow> bool) \<Rightarrow> ('w clientio, 'a) action \<Rightarrow> (bytes \<Rightarrow> bool) \<Rightarrow> bool" where
  "cuts B wire J m E \<longleftrightarrow>
     (\<forall>s e s'. completes B \<longrightarrow> ob_wf s \<longrightarrow> J (ob_sink s) \<longrightarrow> m s = (Inl e, s') \<longrightarrow>
        \<not> reliable B \<and> (\<exists>n. e = Sys_error n) \<and>
        (\<exists>bs. E bs \<and> prefix (wire (ob_sink s')) (accepted wire s @ bs)))"

lemma cutsD:
  assumes "cuts B wire J m E" and "completes B" and "ob_wf s" and "J (ob_sink s)" and "m s = (Inl e, s')"
  shows "\<not> reliable B" and "\<exists>n. e = Sys_error n"
    and "\<exists>bs. E bs \<and> prefix (wire (ob_sink s')) (accepted wire s @ bs)"
  using assms unfolding cuts_def by blast+

lemma write_data_err:
  "completes B \<Longrightarrow> write_data B bs w = (Inl e, w') \<Longrightarrow> \<not> reliable B \<and> (\<exists>n. e = Sys_error n)"
  using reliable_write [of B bs w] by (auto simp: write_data_def split: prod.splits if_splits)

lemma cuts_total: "(\<And>s. \<not> isl (fst (m s))) \<Longrightarrow> cuts B wire J m E"
  unfolding cuts_def by (metis fst_conv isl_def)

lemma cuts_ret: "cuts B wire J (ret x) E"
  by (rule cuts_total) (simp add: ret_def)

lemma cuts_now: "cuts B wire J (cl_now B) E"
  by (rule cuts_total) (simp add: cl_now_def split: prod.split)

lemma cuts_sputn:
  assumes t: "transport_contract B wire" and E: "\<exists>cs. E (bs @ cs)"
  shows "cuts B wire J (cl_sputn B bs) E"
  unfolding cuts_def
proof (intro allI impI)
  fix s :: "'a clientio" and e s'
  assume c: "completes B" and wf: "ob_wf s" and "cl_sputn B bs s = (Inl e, s')"
  then have run: "sputn (write_data B) bs s = (Inl e, s')" by (simp add: cl_sputn_def bindE_eq_Inl ret_def)
  obtain cs where "E (bs @ cs)" using E by blast
  moreover have "prefix (wire (ob_sink s')) (accepted wire s @ bs @ cs)"
    using stream_sink.sputn_err [OF t wf run] prefix_prefix [of _ "accepted wire s @ bs" cs] by simp
  ultimately show "\<not> reliable B \<and> (\<exists>n. e = Sys_error n) \<and>
      (\<exists>bs. E bs \<and> prefix (wire (ob_sink s')) (accepted wire s @ bs))"
    using sputn_only_sink_throws [OF wf run] write_data_err [OF c, of _ _ e] by (auto intro!: exI [of _ "bs @ cs"])
qed

lemma cuts_flush:
  assumes t: "transport_contract B wire" and E: "\<exists>cs. E cs"
  shows "cuts B wire J (cl_flush B) E"
  unfolding cuts_def
proof (intro allI impI)
  fix s :: "'a clientio" and e s'
  assume c: "completes B" and "cl_flush B s = (Inl e, s')"
  then have run: "ob_sync (write_data B) s = (Inl e, s')" by (simp add: cl_flush_def bindE_eq_Inl ret_def)
  obtain cs where "E cs" using E by blast
  moreover have "prefix (wire (ob_sink s')) (accepted wire s @ cs)"
    using stream_sink.ob_sync_err_prefix [OF t run] by (rule prefix_prefix)
  ultimately show "\<not> reliable B \<and> (\<exists>n. e = Sys_error n) \<and>
      (\<exists>bs. E bs \<and> prefix (wire (ob_sink s')) (accepted wire s @ bs))"
    using ob_sync_only_sink_throws [OF run] write_data_err [OF c, of _ _ e] by (auto intro!: exI [of _ cs])
qed

text \<open>Two operations in sequence; what the first does to the world keeps \<open>J\<close>.\<close>

lemma cuts_bind:
  assumes c: "steps_contract B R mu" and J: "\<And>w w'. R w w' \<Longrightarrow> J w \<Longrightarrow> J w'"
    and m: "sends wire m P" "within B R mu m" "cuts B wire J m E"
    and f: "\<And>r bs. P r bs \<Longrightarrow> cuts B wire J (f r) (\<lambda>cs. E (bs @ cs))"
  shows "cuts B wire J (bindE m f) E"
  unfolding cuts_def
proof (intro allI impI)
  fix s e s'
  assume cp: "completes B" and wf: "ob_wf s" and js: "J (ob_sink s)" and run: "bindE m f s = (Inl e, s')"
  then consider (first) "m s = (Inl e, s')" | (second) r s1 where "m s = (Inr r, s1)" "f r s1 = (Inl e, s')"
    by (auto simp: bindE_eq_Inl)
  then show "\<not> reliable B \<and> (\<exists>n. e = Sys_error n) \<and>
      (\<exists>bs. E bs \<and> prefix (wire (ob_sink s')) (accepted wire s @ bs))"
  proof cases
    case first
    with cutsD [OF m(3) cp wf js] show ?thesis by blast
  next
    case second
    from sendsD [OF m(1) wf second(1)] obtain bs where s1: "ob_wf s1"
      "accepted wire s1 = accepted wire s @ bs" "P r bs" by blast
    have "J (ob_sink s1)" using J withinD(1) [OF m(2) c second(1)] js by blast
    from cutsD [OF f [OF s1(3)] cp s1(1) this second(2)] s1(2) show ?thesis by auto
  qed
qed

lemma cuts_keep_alive:
  assumes "\<And>w. J w \<Longrightarrow> b_keep_alive B w = k" and "cuts B wire J (f k) E"
  shows "cuts B wire J (bindE (cl_keep_alive B) f) E"
  using assms unfolding cuts_def bindE_def cl_keep_alive_def by auto

section \<open>The parts of an answer\<close>

lemma cuts_send_status:
  assumes t: "transport_contract B wire" and "length (status_line st name) < STATUS_BUF_SIZE"
    and "\<exists>cs. E (status_line st name @ cs)"
  shows "cuts B wire J (cl_send_status B st name) E"
  using assms(2,3) by (simp add: cl_send_status_def cuts_sputn [OF t])

lemma cuts_send_100_continue:
  assumes t: "transport_contract B wire" and c: "steps_contract B R mu"
    and J: "\<And>w w'. R w w' \<Longrightarrow> J w \<Longrightarrow> J w'" and E: "E (continue_line @ cs)"
  shows "cuts B wire J (cl_send_100_continue B) E"
  unfolding cl_send_100_continue_def
  by (intro cuts_bind [OF c J sends_cl_sputn [OF t] cl_sputn_within] cuts_sputn [OF t]
      cuts_bind [OF c J sends_cl_flush [OF t] cl_flush_within] cuts_flush [OF t] cuts_ret)
     (use E in \<open>auto simp: exactly_def\<close>)

lemma cuts_send_header:
  assumes t: "transport_contract B wire" and c: "steps_contract B R mu"
    and J: "\<And>w w'. R w w' \<Longrightarrow> J w \<Longrightarrow> J w'" and E: "E (header_line name val @ cs)"
  shows "cuts B wire J (cl_send_header B name val) E"
  unfolding cl_send_header_def
  by (intro cuts_bind [OF c J sends_cl_sputn [OF t] cl_sputn_within] cuts_sputn [OF t] cuts_ret)
     (use E in \<open>auto simp: exactly_def header_line_def\<close>)

lemma cuts_complete_header:
  assumes t: "transport_contract B wire" and c: "steps_contract B R mu"
    and J: "\<And>w w'. R w w' \<Longrightarrow> J w \<Longrightarrow> J w'" and k: "\<And>w. J w \<Longrightarrow> b_keep_alive B w = keep"
    and E: "\<And>now. E (header_tail now keep)"
  shows "cuts B wire J (cl_complete_header B) E"
proof -
  have date: "cuts B wire J (case dump_date_header now of None \<Rightarrow> ret 0 | Some l \<Rightarrow> cl_sputn B l) E" for now
    using E [of now] by (cases "dump_date_header now")
      (auto simp: header_tail_def intro!: cuts_ret cuts_sputn [OF t])
  show ?thesis
    unfolding cl_complete_header_def
    apply (rule cuts_bind [OF c J sends_cl_now [OF t] now_within cuts_now], assumption+)
    subgoal for now bs
      apply (rule cuts_bind [OF c J sends_date [OF t] send_date_within], assumption+)
      subgoal using date by simp
      apply (rule cuts_keep_alive [OF k], assumption)
      apply (intro cuts_bind [OF c J sends_cl_sputn [OF t] cl_sputn_within] cuts_sputn [OF t]
          cuts_bind [OF c J sends_cl_flush [OF t] cl_flush_within] cuts_flush [OF t] cuts_ret)
      using E [of now] by (auto simp: exactly_def header_tail_def)
    done
qed

text \<open>The answer to an upload.\<close>

lemma cuts_upload_answer:
  assumes t: "transport_contract B wire" and c: "steps_contract B R mu"
    and J: "\<And>w w'. R w w' \<Longrightarrow> J w \<Longrightarrow> J w'" and k: "\<And>w. J w \<Longrightarrow> b_keep_alive B w = keep"
  shows "cuts B wire J (upload_answer B)
           (\<lambda>bs. \<exists>now. bs = status_line 200 ''OK'' @ header_line ''Content-Length'' ''0'' @ header_tail now keep)"
  (is "cuts B wire J _ ?E")
proof -
  have st: "cuts B wire J (cl_send_status B 200 ''OK'') ?E"
    by (rule cuts_send_status [OF t status_200_fits]) auto
  show ?thesis
    unfolding upload_answer_def cl_complete_request_def
    apply (rule cuts_bind [OF c J sends_send_status [OF t] send_status_within st], assumption+)
    apply (rule cuts_bind [OF c J sends_send_header [OF t] send_header_within], assumption+)
    subgoal for r bs
      using status_200_fits by (intro cuts_send_header [OF t c J, where cs = "header_tail None keep"])
        (auto simp: exactly_def)
    apply (rule cuts_bind [OF c J sends_complete_header [OF t] complete_header_within], assumption+)
    subgoal for r bs r' bs'
      using status_200_fits by (intro cuts_complete_header [OF t c J k]) (auto simp: exactly_def)
    by (auto intro!: cuts_bind [OF c J sends_ret] cuts_ret simp: ret_def bindE_def cuts_def)
qed

end
