(* ===== verification/Transcript.thy ===== *)
theory Transcript
  imports Truncation
begin

text \<open>
  A whole connection of the front end against a reference: what \<open>handle_connection\<close>, \<open>ClientIO\<close>
  and \<open>process\<close> together put on the wire for a peer that sends a list of requests is the
  concatenation of one reply per request, a function of the request alone, up to the first request
  that ends the connection; and a first part of it when a write fails.
\<close>

section \<open>The reference\<close>

text \<open>A request, the number of bytes of its body, and whether the parser says to keep the connection.\<close>

record exchange =
  x_request :: request
  x_body :: nat
  x_keep :: bool

definition content_length_field :: "request \<Rightarrow> string option" where
  "content_length_field rq = find_field Content_length (rev (rq_fields rq))"

text \<open>
  The reply to one request and how it ends, with the time for its date: an upload is told to
  continue and is then answered, unless its length is missing, no number or not usable; the other
  methods get nothing.
\<close>

definition reply :: "exchange \<Rightarrow> tm option \<Rightarrow> (exn + unit) \<times> bytes" where
  "reply x now =
     (if rq_verb (x_request x) \<in> {Put, Post} then
        (case content_length_field (x_request x) of
           None \<Rightarrow> (Inr (), continue_line)
         | Some v \<Rightarrow>
             (case stoi v of
                Inl e \<Rightarrow> (Inl e, continue_line)
              | Inr n \<Rightarrow>
                  if n = INT_MAX then (Inl (Undefined ''signed overflow in need_len + 1''), continue_line)
                  else if n < -1 then (Inl (Std_exception ''bad_array_new_length''), continue_line)
                  else if n = -1 then (Inl (Undefined ''store outside the body buffer''), continue_line)
                  else (Inr (), upload_head @ header_tail now (x_keep x))))
      else (Inr (), []))"

text \<open>The connection: one reply after the other, each with its own time.\<close>

fun transcript :: "exchange list \<Rightarrow> (nat \<Rightarrow> tm option) \<Rightarrow> (exn + unit) \<times> bytes" where
  "transcript [] ts = (Inr (), [])"
| "transcript (x # xs) ts =
     (case reply x (ts 0) of
        (Inl e, out) \<Rightarrow> (Inl e, out)
      | (Inr _, out) \<Rightarrow>
          if x_keep x then
            (case transcript xs (\<lambda>i. ts (Suc i)) of (r, rest) \<Rightarrow> (r, out @ rest))
          else (Inr (), out))"

section \<open>The peer\<close>

text \<open>
  A peer that sends the requests \<open>todo w\<close>, each with its body, and then closes its end: the parser
  delivers the headers in order; \<open>pend w\<close> is what it has still to deliver of the current body and
  \<open>keep w\<close> its answer to \<open>keep_alive\<close>. The output and the clock change none of this, and every read
  and write completes. Reading may also fail at any time: that of a header with an error of \<open>F\<close>, that of
  a body with any error unless \<open>F\<close> is empty, which is a \<open>steady\<close> connection.
\<close>

definition steady :: "(error_code \<Rightarrow> bool) \<Rightarrow> bool" where
  "steady F \<longleftrightarrow> (\<forall>ec. \<not> F ec)"

abbreviation no_failure :: "error_code \<Rightarrow> bool" where
  "no_failure \<equiv> \<lambda>_. False"

lemma steady_no_failure [simp]: "steady no_failure"
  by (simp add: steady_def)

lemma not_steady: "F ec \<Longrightarrow> \<not> steady F"
  by (auto simp: steady_def)

definition same_peer ::
  "('w \<Rightarrow> exchange list) \<Rightarrow> ('w \<Rightarrow> nat) \<Rightarrow> ('w \<Rightarrow> bool) \<Rightarrow> 'w \<Rightarrow> 'w \<Rightarrow> bool" where
  "same_peer todo pend keep w w' \<longleftrightarrow> todo w' = todo w \<and> keep w' = keep w \<and> pend w' \<le> pend w"

definition peer_headers ::
  "'w boost \<Rightarrow> (error_code \<Rightarrow> bool) \<Rightarrow> ('w \<Rightarrow> exchange list) \<Rightarrow> ('w \<Rightarrow> nat) \<Rightarrow> ('w \<Rightarrow> bool) \<Rightarrow> bool" where
  "peer_headers B F todo pend keep \<longleftrightarrow>
     (\<forall>w. todo w = [] \<longrightarrow> (case fst (fst (b_read_header B w)) of
        ec \<Rightarrow> stop_reading ec \<or> failed ec \<and> F ec)) \<and>
     (\<forall>w x xs. todo w = x # xs \<longrightarrow> pend w = 0 \<longrightarrow>
        (case fst (fst (b_read_header B w)) of ec \<Rightarrow> failed ec \<and> F ec) \<or>
        (\<exists>ec w1. b_read_header B w = ((ec, x_request x), w1) \<and> \<not> failed ec \<and>
           todo w1 = xs \<and> pend w1 = x_body x \<and> keep w1 = x_keep x))"

definition peer_body ::
  "'w boost \<Rightarrow> (error_code \<Rightarrow> bool) \<Rightarrow> ('w \<Rightarrow> exchange list) \<Rightarrow> ('w \<Rightarrow> nat) \<Rightarrow> ('w \<Rightarrow> bool) \<Rightarrow> bool" where
  "peer_body B F todo pend keep \<longleftrightarrow>
     (\<forall>w k ec bs w'. b_read_some B w k = ((ec, bs), w') \<longrightarrow>
        same_peer todo pend keep w w' \<and> (\<not> failed ec \<or> ec_is ec = Need_buffer \<or> \<not> steady F) \<and>
        (0 < k \<longrightarrow> 0 < pend w \<longrightarrow> \<not> failed ec \<or> ec_is ec = Need_buffer \<longrightarrow> pend w' < pend w))"

definition peer_quiet ::
  "'w boost \<Rightarrow> (error_code \<Rightarrow> bool) \<Rightarrow> ('w \<Rightarrow> exchange list) \<Rightarrow> ('w \<Rightarrow> nat) \<Rightarrow> ('w \<Rightarrow> bool) \<Rightarrow> bool" where
  "peer_quiet B F todo pend keep \<longleftrightarrow>
     (\<forall>w. b_is_done B w = (pend w = 0) \<and> b_keep_alive B w = keep w \<and>
        (\<not> failed (fst (b_local_port B w)) \<or> \<not> steady F) \<and> same_peer todo pend keep w (b_shutdown B w) \<and>
        same_peer todo pend keep w (snd (b_now B w))) \<and>
     (\<forall>w bs. same_peer todo pend keep w (snd (b_async_write B w bs)))"

definition peer_contract ::
  "'w boost \<Rightarrow> (error_code \<Rightarrow> bool) \<Rightarrow> ('w \<Rightarrow> exchange list) \<Rightarrow> ('w \<Rightarrow> nat) \<Rightarrow> ('w \<Rightarrow> bool) \<Rightarrow> bool" where
  "peer_contract B F todo pend keep \<longleftrightarrow> completes B \<and>
     peer_headers B F todo pend keep \<and> peer_body B F todo pend keep \<and> peer_quiet B F todo pend keep"

lemma peer_header:
  assumes "peer_contract B F todo pend keep"
  shows "todo w = [] \<Longrightarrow> b_read_header B w = ((ec, rq), w1) \<Longrightarrow> stop_reading ec \<or> failed ec \<and> F ec"
    and "todo w = x # xs \<Longrightarrow> pend w = 0 \<Longrightarrow>
        (case fst (fst (b_read_header B w)) of ec \<Rightarrow> failed ec \<and> F ec) \<or>
        (\<exists>ec w1. b_read_header B w = ((ec, x_request x), w1) \<and> \<not> failed ec \<and>
           todo w1 = xs \<and> pend w1 = x_body x \<and> keep w1 = x_keep x)"
  using assms unfolding peer_contract_def peer_headers_def by force+

lemma peer_read:
  assumes "peer_contract B F todo pend keep" and "b_read_some B w k = ((ec, bs), w')"
  shows "same_peer todo pend keep w w'" and "failed ec \<Longrightarrow> ec_is ec \<noteq> Need_buffer \<Longrightarrow> \<not> steady F"
    and "0 < k \<Longrightarrow> 0 < pend w \<Longrightarrow> \<not> failed ec \<or> ec_is ec = Need_buffer \<Longrightarrow> pend w' < pend w"
  using assms unfolding peer_contract_def peer_body_def by blast+

lemma peer_quietD:
  assumes "peer_contract B F todo pend keep"
  shows "b_is_done B w = (pend w = 0)" and "b_keep_alive B w = keep w"
    and "\<not> failed (fst (b_local_port B w)) \<or> \<not> steady F" and "completes B"
  using assms unfolding peer_contract_def peer_quiet_def by blast+

lemma same_peer_refl [simp]: "same_peer todo pend keep w w"
  by (simp add: same_peer_def)

lemma same_peer_trans:
  "same_peer todo pend keep u v \<Longrightarrow> same_peer todo pend keep v w \<Longrightarrow> same_peer todo pend keep u w"
  by (simp add: same_peer_def)

text \<open>What every step on the way does: the peer stays the same, and the wire only grows.\<close>

definition goes_on ::
  "('w \<Rightarrow> bytes) \<Rightarrow> ('w \<Rightarrow> exchange list) \<Rightarrow> ('w \<Rightarrow> nat) \<Rightarrow> ('w \<Rightarrow> bool) \<Rightarrow> 'w \<Rightarrow> 'w \<Rightarrow> bool" where
  "goes_on wire todo pend keep w w' \<longleftrightarrow> same_peer todo pend keep w w' \<and> prefix (wire w) (wire w')"

lemma write_grows:
  assumes "transport_contract B wire"
  shows "prefix (wire w) (wire (snd (b_async_write B w bs)))"
proof -
  obtain ec n w' where w: "b_async_write B w bs = ((ec, n), w')" by (metis surj_pair)
  from write_contract_any [OF transport_contractD(1) [OF assms] w]
  obtain k where "wire w' = wire w @ take k bs" ..
  with w show ?thesis by auto
qed

lemma peer_steps:
  assumes t: "transport_contract B wire" and p: "peer_contract B F todo pend keep"
  shows "steps_contract B (goes_on wire todo pend keep) pend"
proof -
  have refl: "goes_on wire todo pend keep w w" for w by (simp add: goes_on_def)
  have trans: "goes_on wire todo pend keep u w" if "goes_on wire todo pend keep u v" "goes_on wire todo pend keep v w"
    for u v w using that by (auto simp: goes_on_def intro: same_peer_trans prefix_order.trans)
  have rd: "goes_on wire todo pend keep w w'" if "b_read_some B w k = ((ec, bs), w')" for w k ec bs w'
    using peer_read(1) [OF p that] transport_contractD(4) [OF t, of w k] that by (simp add: goes_on_def)
  have rest: "goes_on wire todo pend keep w (b_shutdown B w)" "goes_on wire todo pend keep w (snd (b_now B w))"
    "goes_on wire todo pend keep w (snd (b_async_write B w bs))" for w bs
    using p write_grows [OF t] transport_contractD(2,3) [OF t]
    unfolding peer_contract_def peer_quiet_def goes_on_def by simp_all
  have less: "pend w' < pend w" if "b_read_some B w k = ((ec, bs), w')" "0 < k" "\<not> b_is_done B w"
      "\<not> failed ec \<or> ec_is ec = Need_buffer" for w k ec bs w'
    using peer_read(3) [OF p that(1,2) _ that(4)] that(3) peer_quietD(1) [OF p, of w] by simp
  show ?thesis
    unfolding steps_contract_def
    by (intro conjI allI impI refl rest peer_quietD(4) [OF p]) (blast intro: trans rd less)+
qed

lemma recv_outcome:
  assumes p: "peer_contract B F todo pend keep"
  shows "\<exists>r w'. recv_loop B got k w = Some (r, w') \<and> (\<forall>e. r = Inl e \<longrightarrow> \<not> steady F \<and> (\<exists>n. e = Sys_error n))"
proof (induction "pend w" arbitrary: got k w rule: less_induct)
  case less
  show ?case
  proof (cases "0 < k \<and> 0 < pend w")
    case False
    then show ?thesis by (subst recv_loop.simps) (auto simp: peer_quietD(1,4) [OF p])
  next
    case True
    obtain ec bs w1 where rd: "b_read_some B w k = ((ec, bs), w1)" by (metis surj_pair)
    consider (last) "ec_is ec = Need_buffer" | (broken) "ec_is ec \<noteq> Need_buffer" "failed ec" | (more) "\<not> failed ec"
      by blast
    then show ?thesis
    proof cases
      case last
      with True rd show ?thesis by (subst recv_loop.simps) (simp add: peer_quietD(1,4) [OF p])
    next
      case broken
      with True rd peer_read(2) [OF p rd] show ?thesis by (subst recv_loop.simps) (simp add: peer_quietD(1,4) [OF p])
    next
      case more
      then have "recv_loop B got k w = recv_loop B (got @ bs) (k - length bs) w1"
        using True rd by (subst recv_loop.simps) (auto simp: peer_quietD(1,4) [OF p] failed_def)
      with less peer_read(3) [OF p rd] True more show ?thesis by simp
    qed
  qed
qed

lemma discard_outcome:
  assumes p: "peer_contract B F todo pend keep"
  shows "\<exists>d w'. discard_loop B w = Some (d, w') \<and>
           (if d then same_peer todo pend keep w w' \<and> pend w' = 0 else \<not> steady F)"
proof (induction "pend w" arbitrary: w rule: less_induct)
  case less
  show ?case
  proof (cases "pend w = 0")
    case True
    then have "discard_loop B w = Some (True, w)" by (subst discard_loop.simps) (simp add: peer_quietD(1,4) [OF p])
    with True show ?thesis by auto
  next
    case False
    obtain ec bs w1 where rd: "b_read_some B w 1024 = ((ec, bs), w1)" by (metis surj_pair)
    show ?thesis
    proof (cases "\<not> failed ec \<or> ec_is ec = Need_buffer")
      case broken: False
      with False rd peer_read(2) [OF p rd] show ?thesis
        by (subst discard_loop.simps) (auto simp: peer_quietD(1,4) [OF p])
    next
      case True
      then have "discard_loop B w = discard_loop B w1"
        using False rd by (subst discard_loop.simps) (auto simp: peer_quietD(1,4) [OF p] failed_def)
      moreover from peer_read(3) [OF p rd] False True have "pend w1 < pend w" by simp
      from less [OF this] obtain d w' where "discard_loop B w1 = Some (d, w')"
        "if d then same_peer todo pend keep w1 w' \<and> pend w' = 0 else \<not> steady F" by blast
      ultimately show ?thesis using peer_read(1) [OF p rd] same_peer_trans by (cases d) fastforce+
    qed
  qed
qed

section \<open>One request\<close>

text \<open>The end of the header block says what the parser says, which nothing changes on the way.\<close>

lemma complete_header_keep:
  assumes t: "transport_contract B wire" and p: "peer_contract B F todo pend keep" and wf: "ob_wf s"
    and run: "cl_complete_header B s = (Inr n, s')"
  shows "\<exists>now. wire (ob_sink s') = accepted wire s @ header_tail now (keep (ob_sink s))"
proof -
  note c = peer_steps [OF t p]
  from run obtain s1 a b cc s2 s3 s4 d where 1: "cl_now B s = (Inr a, s1)"
    and 2: "(case dump_date_header a of None \<Rightarrow> ret 0 | Some l \<Rightarrow> cl_sputn B l) s1 = (Inr b, s2)"
    and 3: "cl_sputn B (connection_line (b_keep_alive B (ob_sink s2))) s2 = (Inr cc, s3)"
    and 4: "cl_sputn B CRLF s3 = (Inr d, s4)" and 5: "cl_flush B s4 = (Inr (), s')"
    by (auto simp: cl_complete_header_def bindE_eq_Inr ret_def cl_keep_alive_def)
  note w1 = sendsD [OF sends_cl_now [OF t] wf 1]
  note w2 = sendsD [OF sends_date [OF t] w1(1) 2]
  note w3 = sendsD [OF sends_cl_sputn [OF t] w2(1) 3]
  note w4 = sendsD [OF sends_cl_sputn [OF t] w3(1) 4]
  note w5 = sendsD [OF sends_cl_flush [OF t] w4(1) 5]
  have "same_peer todo pend keep (ob_sink s) (ob_sink s2)"
    using withinD(1) [OF now_within c 1] withinD(1) [OF send_date_within c 2] same_peer_trans
    by (auto simp: goes_on_def)
  then have k: "b_keep_alive B (ob_sink s2) = keep (ob_sink s)"
    by (simp add: peer_quietD(2) [OF p] same_peer_def)
  have "accepted wire s' = accepted wire s @ header_tail a (keep (ob_sink s))"
    using w1(3) w2(3) w3(3) w4(3) w5(3) k by (auto simp: exactly_def header_tail_def)
  moreover have "pending s' = []" using cl_flush_empties [OF t w4(1) 5] by simp
  ultimately show ?thesis by (auto simp: accepted_def)
qed

lemma find_field_env:
  "map_of (map env_binding hs) ''CONTENT_LENGTH'' = find_field Content_length hs"
proof (induction hs)
  case (Cons h hs)
  obtain fld name val where h: "h = (fld, name, val)" by (cases h)
  have "env_name name \<noteq> ''CONTENT_LENGTH''" using env_name_prefix [of name] by auto
  with Cons h show ?case by (simp add: env_binding_def)
qed simp

lemma init_env_run:
  assumes "length g = BufferSizeV"
  shows "\<exists>s. init_env rq (ClientIO_new g ssl port addr w) = (Inr 0, s) \<and> ob_wf s \<and> pending s = [] \<and>
           ob_sink s = w \<and> get_val ''CONTENT_LENGTH'' s = content_length_field rq"
proof -
  obtain s where s: "init_env rq (ClientIO_new g ssl port addr w) = (Inr 0, s)"
    by (simp add: init_env_def Let_def)
  then have "ob_wf s" "pending s = []" "ob_sink s = w"
    using assms by (auto simp: init_env_def Let_def ClientIO_new_def ob_wf_def pending_def)
  moreover have "get_val ''CONTENT_LENGTH'' s = content_length_field rq"
    using s by (auto simp: init_env_def Let_def ClientIO_new_def get_val_def env_uri_def env_headers_map
        map_add_def content_length_field_def find_field_env [of "rev _", unfolded rev_map [symmetric]]
        split: option.splits)
  ultimately show ?thesis using s by blast
qed

text \<open>How a result matches a reply.\<close>

definition replies :: "('w \<Rightarrow> bytes) \<Rightarrow> 'w \<Rightarrow> exchange \<Rightarrow> exn + int \<Rightarrow> 'w \<Rightarrow> bool" where
  "replies wire w x r w' \<longleftrightarrow>
     (\<exists>now. wire w' = wire w @ snd (reply x now) \<and>
        (case r of Inl e \<Rightarrow> fst (reply x now) = Inl e | Inr n \<Rightarrow> fst (reply x now) = Inr () \<and> 0 \<le> n))"

text \<open>
  How a failing write or read shows: the exception of the system, and a first part of a reply. A
  transport that works, on a steady connection, never does this.
\<close>

definition cut_off :: "'w boost \<Rightarrow> (error_code \<Rightarrow> bool) \<Rightarrow> ('w \<Rightarrow> bytes) \<Rightarrow> 'w \<Rightarrow> exchange \<Rightarrow> exn + int \<Rightarrow> 'w \<Rightarrow> bool" where
  "cut_off B F wire w x r w' \<longleftrightarrow>
     \<not> (reliable B \<and> steady F) \<and> (\<exists>n. r = Inl (Sys_error n)) \<and> (\<exists>now. prefix (wire w') (wire w @ snd (reply x now)))"

lemma reply_not_diverges: "fst (reply x now) \<noteq> Inl Diverges"
  by (auto simp: reply_def stoi_def Let_def split: option.splits sum.splits prod.splits if_splits)

lemma reply_starts:
  assumes "rq_verb (x_request x) \<in> {Put, Post}"
  shows "\<exists>out. snd (reply x now) = continue_line @ out"
  using assms by (auto simp: reply_def upload_head_def split: option.split sum.split)

text \<open>An upload whose length is missing or not usable, after the 100-continue.\<close>

lemma refused_upload:
  assumes t: "transport_contract B wire" and p: "peer_contract B F todo pend keep"
    and wf: "ob_wf s" and pend: "pending s = []"
    and up: "rq_verb (x_request x) \<in> {Put, Post}"
    and len: "get_val ''CONTENT_LENGTH'' s = content_length_field (x_request x)"
    and bad: "\<And>v n. content_length_field (x_request x) = Some v \<Longrightarrow> stoi v = Inr n \<Longrightarrow> n < 0 \<or> n = INT_MAX"
    and s1: "cl_send_100_continue B s = (Inr k, s1)"
  shows "\<exists>res s'. process B (rq_verb (x_request x)) h s = (res, s') \<and>
           (replies wire (ob_sink s) x res (ob_sink s') \<or> cut_off B F wire (ob_sink s) x res (ob_sink s'))"
proof -
  note after = continue_flushed [OF t wf s1]
  have acc: "wire (ob_sink s1) = wire (ob_sink s) @ continue_line" using after(3) pend by (simp add: accepted_def)
  have len1: "get_val ''CONTENT_LENGTH'' s1 = content_length_field (x_request x)"
    using more_get_val [OF after(2)] len by simp
  note run = process_def putobj_split bindE_def env_lookup_def liftE_def ret_def replies_def reply_def
    new_char_array_def throw_def INT_MAX_def
  consider (none) "content_length_field (x_request x) = None"
    | (garbled) v e where "content_length_field (x_request x) = Some v" "stoi v = Inl e"
    | (number) v n where "content_length_field (x_request x) = Some v" "stoi v = Inr n"
    by (metis not_None_eq obj_sumE)
  then show ?thesis
  proof cases
    case none
    with s1 up len1 acc show ?thesis by (auto simp: run)
  next
    case garbled
    with s1 up len1 acc show ?thesis by (auto simp: run)
  next
    case number
    from bad [OF number] consider "n = INT_MAX \<or> n < -1" | "n = -1" by linarith
    then show ?thesis
    proof cases
      case 1
      with number s1 up len1 acc show ?thesis by (auto simp: run)
    next
      case 2
      obtain r w' where rl: "recv_loop B [] (nat (n mod 2 ^ 64)) (ob_sink s1) = Some (r, w')"
        and bad: "\<forall>e. r = Inl e \<longrightarrow> \<not> steady F \<and> (\<exists>n. e = Sys_error n)" using recv_outcome [OF p] by blast
      have w: "wire w' = wire (ob_sink s1)" using recv_loop_wire [OF t rl] by simp
      show ?thesis
      proof (cases r)
        case (Inl e)
        with 2 number s1 up len1 acc rl w bad show ?thesis
          by (auto simp: run cut_off_def fill_buffer_def cl_recv_body_def)
      next
        case (Inr bs)
        with 2 number s1 up len1 acc rl w show ?thesis by (auto simp: run fill_buffer_def cl_recv_body_def)
      qed
    qed
  qed
qed

text \<open>The answer to an upload whose body has arrived, which a failing write cuts off.\<close>

lemma answered_upload:
  assumes t: "transport_contract B wire" and p: "peer_contract B F todo pend keep"
    and wf: "ob_wf s2" and keep: "keep (ob_sink s2) = x_keep x"
    and head: "\<And>now. reply x now = (Inr (), upload_head @ header_tail now (x_keep x))"
    and acc: "accepted wire s2 = wire w @ continue_line"
    and run: "upload_answer B s2 = (res, s')"
  shows "replies wire w x res (ob_sink s') \<or> cut_off B F wire w x res (ob_sink s')"
proof -
  note c = peer_steps [OF t p]
  show ?thesis
  proof (cases res)
    case (Inl e)
    have "cuts B wire (\<lambda>w. keep w = x_keep x) (upload_answer B) (\<lambda>bs. \<exists>now. bs =
        status_line 200 ''OK'' @ header_line ''Content-Length'' ''0'' @ header_tail now (x_keep x))"
      by (rule cuts_upload_answer [OF t c]) (simp_all add: goes_on_def same_peer_def peer_quietD(2) [OF p])
    from cutsD [OF this peer_quietD(4) [OF p] wf keep run [unfolded Inl]] Inl acc head show ?thesis
      by (auto simp: cut_off_def upload_head_def)
  next
    case (Inr r)
    obtain a s3 b s4 cc where 3: "cl_send_status B 200 ''OK'' s2 = (Inr a, s3)"
      and 4: "cl_send_header B ''Content-Length'' ''0'' s3 = (Inr b, s4)"
      and 5: "cl_complete_header B s4 = (Inr cc, s')" and r: "r = 200" and s4: "ob_wf s4"
      and acc4: "accepted wire s4 = accepted wire s2 @ status_line 200 ''OK'' @ header_line ''Content-Length'' ''0''"
      by (rule upload_answer_head [OF t wf run [unfolded Inr]])
    have "keep (ob_sink s4) = x_keep x"
      using withinD(1) [OF send_status_within c 3] withinD(1) [OF send_header_within c 4] keep
      by (auto simp: goes_on_def same_peer_def)
    with complete_header_keep [OF t p s4 5] obtain now
      where "wire (ob_sink s') = accepted wire s4 @ header_tail now (x_keep x)" by auto
    with acc4 acc head [of now] Inr r have "replies wire w x res (ob_sink s')"
      by (auto simp: replies_def upload_head_def intro!: exI [of _ now])
    then show ?thesis ..
  qed
qed

lemma started_upload:
  assumes t: "transport_contract B wire" and p: "peer_contract B F todo pend keep"
    and wf: "ob_wf s" and pend: "pending s = []"
    and up: "rq_verb (x_request x) \<in> {Put, Post}" and keep: "keep (ob_sink s) = x_keep x"
    and len: "get_val ''CONTENT_LENGTH'' s = content_length_field (x_request x)"
    and s1: "cl_send_100_continue B s = (Inr k, s1)"
  shows "\<exists>res s'. process B (rq_verb (x_request x)) h s = (res, s') \<and>
           (replies wire (ob_sink s) x res (ob_sink s') \<or> cut_off B F wire (ob_sink s) x res (ob_sink s'))"
proof (cases "\<exists>v n. content_length_field (x_request x) = Some v \<and> stoi v = Inr n \<and> 0 \<le> n \<and> n < INT_MAX")
  case True
  note c = peer_steps [OF t p]
  obtain v n where v: "content_length_field (x_request x) = Some v" and n: "stoi v = Inr n" "0 \<le> n" "n < INT_MAX"
    using True by (elim exE conjE)
  have m: "rq_verb (x_request x) = Put \<or> rq_verb (x_request x) = Post" using up by auto
  have head: "reply x now = (Inr (), upload_head @ header_tail now (x_keep x))" for now
    using up v n by (auto simp: reply_def)
  obtain r w' where rl: "recv_loop B [] (nat n) (ob_sink s1) = Some (r, w')"
    and bad: "\<forall>e. r = Inl e \<longrightarrow> \<not> steady F \<and> (\<exists>n. e = Sys_error n)" using recv_outcome [OF p] by blast
  show ?thesis
  proof (cases r)
    case (Inl e)
    have "process B (rq_verb (x_request x)) h s = (Inl e, s1\<lparr>ob_sink := w'\<rparr>)"
      using upload_reaches_body [OF t wf m len [unfolded v] n s1] rl Inl by (simp add: bindE_def cl_recv_body_def)
    moreover have "wire w' = wire (ob_sink s) @ continue_line"
      using recv_loop_wire [OF t rl] continue_flushed(3) [OF t wf s1] pend by (simp add: accepted_def)
    moreover have "prefix continue_line (snd (reply x None))" by (simp add: head [of None] upload_head_def)
    ultimately have "cut_off B F wire (ob_sink s) x (Inl e) w'" using Inl bad by (auto simp: cut_off_def)
    with \<open>process B (rq_verb (x_request x)) h s = (Inl e, s1\<lparr>ob_sink := w'\<rparr>)\<close> show ?thesis by auto
  next
  case body: (Inr bs)
  obtain s2 where 2: "cl_recv_body B (nat n) s1 = (Inr bs, s2)" and s2: "ob_wf s2"
    "accepted wire s2 = accepted wire s @ continue_line" "process B (rq_verb (x_request x)) h s = upload_answer B s2"
    by (rule upload_reaches_answer [OF t wf m len [unfolded v] n s1 rl [unfolded body]])
  have k2: "keep (ob_sink s2) = x_keep x"
    using withinD(1) [OF send_100_continue_within c s1] withinD(1) [OF recv_body_within c 2] keep
    by (auto simp: goes_on_def same_peer_def)
  have acc: "accepted wire s2 = wire (ob_sink s) @ continue_line" using s2(2) pend by (simp add: accepted_def [of wire s])
  obtain res s' where run: "upload_answer B s2 = (res, s')" by fastforce
  with answered_upload [OF t p s2(1) k2 head acc run] s2(3) show ?thesis by auto
  qed
next
  case False
  have bad: "n < 0 \<or> n = INT_MAX" if "content_length_field (x_request x) = Some v" "stoi v = Inr n" for v n
  proof -
    have "n \<le> INT_MAX" using that(2) by (auto simp: stoi_def Let_def split: option.splits prod.splits if_splits)
    with False that show ?thesis by force
  qed
  show ?thesis by (rule refused_upload [OF t p wf pend up len bad s1])
qed

lemma upload_outcome:
  assumes t: "transport_contract B wire" and p: "peer_contract B F todo pend keep"
    and wf: "ob_wf s" and pend: "pending s = []"
    and up: "rq_verb (x_request x) \<in> {Put, Post}" and keep: "keep (ob_sink s) = x_keep x"
    and len: "get_val ''CONTENT_LENGTH'' s = content_length_field (x_request x)"
  shows "\<exists>res s'. process B (rq_verb (x_request x)) h s = (res, s') \<and>
           (replies wire (ob_sink s) x res (ob_sink s') \<or> cut_off B F wire (ob_sink s) x res (ob_sink s'))"
proof -
  note c = peer_steps [OF t p]
  obtain r1 s1 where 1: "cl_send_100_continue B s = (r1, s1)" by fastforce
  show ?thesis
  proof (cases r1)
    case (Inl e)
    obtain out where out: "snd (reply x None) = continue_line @ out" using reply_starts [OF up] by blast
    have "cuts B wire (\<lambda>_. True) (cl_send_100_continue B) (\<lambda>bs. bs = snd (reply x None))"
      by (rule cuts_send_100_continue [OF t c]) (simp_all add: out)
    from cutsD [OF this peer_quietD(4) [OF p] wf _ 1 [unfolded Inl]] pend
    have "cut_off B F wire (ob_sink s) x (Inl e) (ob_sink s1)" by (auto simp: cut_off_def accepted_def)
    moreover have "process B (rq_verb (x_request x)) h s = (Inl e, s1)"
      using up 1 Inl by (auto simp: process_def putobj_split bindE_def)
    ultimately show ?thesis by blast
  next
    case (Inr k)
    show ?thesis by (rule started_upload [OF assms 1 [unfolded Inr]])
  qed
qed

lemma request_replied:
  assumes t: "transport_contract B wire" and p: "peer_contract B F todo pend keep"
    and g: "length g = BufferSizeV" and keep: "keep w = x_keep x"
  shows "\<exists>res w'. serve_request B g (x_request x) w = (res, w') \<and> goes_on wire todo pend keep w w' \<and>
           (replies wire w x res w' \<or> cut_off B F wire w x res w')"
proof (cases "failed (fst (b_local_port B w))")
  case True
  with peer_quietD(3) [OF p, of w] have "cut_off B F wire w x (Inl (Sys_error (ec_value (fst (b_local_port B w))))) w"
    by (auto simp: cut_off_def)
  with True show ?thesis by (auto simp: serve_request_def goes_on_def split: prod.splits)
next
  case False
  let ?rq = "x_request x"
  obtain ec port where port: "b_local_port B w = (ec, port)" "\<not> failed ec" using False by (metis prod.collapse)
  obtain s where s: "init_env ?rq (ClientIO_new g False port (snd (b_remote_addr B w)) w) = (Inr 0, s)"
    "ob_wf s" "pending s = []" "ob_sink s = w" "get_val ''CONTENT_LENGTH'' s = content_length_field ?rq"
    using init_env_run [OF g, of ?rq False port "snd (b_remote_addr B w)" w] by (elim exE conjE)
  have "\<exists>res s'. process B (rq_verb ?rq) 0 s = (res, s') \<and>
      (replies wire (ob_sink s) x res (ob_sink s') \<or> cut_off B F wire (ob_sink s) x res (ob_sink s'))"
  proof (cases "rq_verb ?rq \<in> {Put, Post}")
    case False
    then have "\<exists>n. process B (rq_verb ?rq) 0 s = (Inr n, s) \<and> 0 \<le> n"
      by (cases "rq_verb ?rq") (auto simp: process_def ret_def Let_def)
    with False show ?thesis by (auto simp: replies_def reply_def)
  next
    case up: True
    with s(4) keep upload_outcome [OF t p s(2,3) up _ s(5)] show ?thesis by simp
  qed
  then obtain res s' where run: "process B (rq_verb ?rq) 0 s = (res, s')"
    "replies wire w x res (ob_sink s') \<or> cut_off B F wire w x res (ob_sink s')"
    using s(4) by auto
  have sv: "serve_request B g ?rq w = (res, ob_sink s')"
    using port s(1) run(1) by (simp add: serve_request_def bindE_def)
  with serve_request_within [OF peer_steps [OF t p] sv] run(2) show ?thesis by blast
qed

section \<open>The whole connection\<close>

text \<open>
  How a connection ends: as the reference says, or cut off by a write or a read that failed; one that
  fails between two requests, or while a body is discarded, ends the connection without an exception.
  A header that fails with any error but those of \<open>stop_reading\<close> is answered by a response 400
  (\<open>resp 400\<close>, in version 10 or 11), of which a first part is on the wire after the replies to the
  requests before it.
\<close>

definition refused ::
  "(error_code \<Rightarrow> bool) \<Rightarrow> (nat \<Rightarrow> nat \<Rightarrow> bytes) \<Rightarrow> ('w \<Rightarrow> bytes) \<Rightarrow>
    'w \<Rightarrow> exchange list \<Rightarrow> (nat \<Rightarrow> tm option) \<Rightarrow> exn + unit \<Rightarrow> 'w \<Rightarrow> bool" where
  "refused F resp wire w xs ts r w' \<longleftrightarrow>
     (\<exists>ec. F ec \<and> \<not> stop_reading ec) \<and> r = Inr () \<and>
     (\<exists>j v k. j \<le> length xs \<and> (\<forall>x \<in> set (take j xs). x_keep x) \<and> v \<in> {10, 11} \<and>
        fst (transcript (take j xs) ts) = Inr () \<and>
        wire w' = wire w @ snd (transcript (take j xs) ts) @ take k (resp 400 v))"

definition cut_short ::
  "'w boost \<Rightarrow> (error_code \<Rightarrow> bool) \<Rightarrow> ('w \<Rightarrow> bytes) \<Rightarrow> 'w \<Rightarrow> exchange list \<Rightarrow> (nat \<Rightarrow> tm option) \<Rightarrow> exn + unit \<Rightarrow> 'w \<Rightarrow> bool" where
  "cut_short B F wire w xs ts r w' \<longleftrightarrow>
     \<not> (reliable B \<and> steady F) \<and> ((\<exists>n. r = Inl (Sys_error n)) \<or> r = Inr () \<and> \<not> steady F) \<and> prefix (wire w) (wire w') \<and>
     prefix (wire w') (wire w @ snd (transcript xs ts))"

definition as_reference ::
  "('w \<Rightarrow> bytes) \<Rightarrow> 'w \<Rightarrow> exchange list \<Rightarrow> (nat \<Rightarrow> tm option) \<Rightarrow> exn + unit \<Rightarrow> 'w \<Rightarrow> bool" where
  "as_reference wire w xs ts r w' \<longleftrightarrow>
     r = fst (transcript xs ts) \<and> wire w' = wire w @ snd (transcript xs ts)"

abbreviation answers ::
  "'w boost \<Rightarrow> (error_code \<Rightarrow> bool) \<Rightarrow> (nat \<Rightarrow> nat \<Rightarrow> bytes) \<Rightarrow> ('w \<Rightarrow> bytes) \<Rightarrow>
    'w \<Rightarrow> exchange list \<Rightarrow> (nat \<Rightarrow> tm option) \<Rightarrow> exn + unit \<Rightarrow> 'w \<Rightarrow> bool" where
  "answers B F resp wire w xs ts r w' \<equiv>
     as_reference wire w xs ts r w' \<or> cut_short B F wire w xs ts r w' \<or> refused F resp wire w xs ts r w'"

text \<open>On a server whose header reads only fail as \<open>stop_reading\<close> allows, nothing is refused.\<close>

lemma never_refused:
  assumes "\<And>ec. F ec \<Longrightarrow> stop_reading ec"
  shows "\<not> refused F resp wire w xs ts r w'"
  using assms by (auto simp: refused_def)

text \<open>The reference for a list that begins with one more request, at the time \<open>now\<close>.\<close>

definition at_time :: "tm option \<Rightarrow> (nat \<Rightarrow> tm option) \<Rightarrow> nat \<Rightarrow> tm option" where
  "at_time now ts i = (case i of 0 \<Rightarrow> now | Suc j \<Rightarrow> ts j)"

lemma transcript_start: "prefix (snd (reply x now)) (snd (transcript (x # xs) (at_time now ts)))"
  by (auto simp: at_time_def split: prod.split sum.split)

lemma transcript_stop:
  assumes "\<not> (x_keep x \<and> fst (reply x now) = Inr ())"
  shows "transcript (x # xs) (at_time now ts) = reply x now"
  using assms by (auto simp: at_time_def split: prod.split sum.split)

lemma transcript_go_on:
  assumes "x_keep x" and "fst (reply x now) = Inr ()"
  shows "transcript (x # xs) (at_time now ts) =
           (fst (transcript xs ts), snd (reply x now) @ snd (transcript xs ts))"
proof -
  have "(\<lambda>i. at_time now ts (Suc i)) = ts" "at_time now ts 0 = now" by (simp_all add: at_time_def)
  with assms show ?thesis by (cases "reply x now") (simp add: case_prod_beta)
qed

lemma refused_Cons:
  assumes a: "refused F resp wire w3 xs ts r w'" and k: "x_keep x" "fst (reply x now) = Inr ()"
    and w: "wire w3 = wire w @ snd (reply x now)"
  shows "refused F resp wire w (x # xs) (at_time now ts) r w'"
proof -
  from a obtain ec j v q where f: "F ec" "\<not> stop_reading ec" "r = Inr ()"
    and j: "j \<le> length xs" "\<forall>y \<in> set (take j xs). x_keep y" "v \<in> {10, 11}"
      "fst (transcript (take j xs) ts) = Inr ()"
      "wire w' = wire w3 @ snd (transcript (take j xs) ts) @ take q (resp 400 v)"
    unfolding refused_def by (elim exE conjE)
  have "Suc j \<le> length (x # xs)" "\<forall>y \<in> set (take (Suc j) (x # xs)). x_keep y"
    "fst (transcript (take (Suc j) (x # xs)) (at_time now ts)) = Inr ()"
    "wire w' = wire w @ snd (transcript (take (Suc j) (x # xs)) (at_time now ts)) @ take q (resp 400 v)"
    using j k(1) w by (simp_all add: transcript_go_on [OF k] del: transcript.simps)
  with f j(3) show ?thesis unfolding refused_def by blast
qed

lemma answers_Cons:
  assumes a: "answers B F resp wire w3 xs ts r w'" and k: "x_keep x" "fst (reply x now) = Inr ()"
    and w: "wire w3 = wire w @ snd (reply x now)"
  shows "answers B F resp wire w (x # xs) (at_time now ts) r w'"
proof -
  have "prefix (wire w) (wire w')" if "prefix (wire w3) (wire w')"
    using that w append_prefixD by auto
  moreover have "refused F resp wire w (x # xs) (at_time now ts) r w'" if "refused F resp wire w3 xs ts r w'"
    by (rule refused_Cons [where w = w and wire = wire, OF that k w])
  ultimately show ?thesis using a w
    by (auto simp: as_reference_def cut_short_def transcript_go_on [OF k] simp del: transcript.simps)
qed

lemma answers_cut_off:
  assumes "cut_off B F wire w x res w'" and "prefix (wire w) (wire w')"
  shows "\<exists>n ts. res = Inl (Sys_error n) \<and> answers B F resp wire w (x # xs) ts (Inl (Sys_error n)) w'"
proof -
  from assms(1) obtain n now where n: "\<not> (reliable B \<and> steady F)" "res = Inl (Sys_error n)"
    and now: "prefix (wire w') (wire w @ snd (reply x now))" by (auto simp: cut_off_def)
  have "prefix (wire w @ snd (reply x now)) (wire w @ snd (transcript (x # xs) (at_time now (\<lambda>_. now))))"
    using transcript_start by (simp del: transcript.simps)
  with now have "prefix (wire w') (wire w @ snd (transcript (x # xs) (at_time now (\<lambda>_. now))))"
    by (rule prefix_order.trans)
  with n assms(2) show ?thesis by (auto simp: cut_short_def simp del: transcript.simps)
qed

text \<open>One round of the loop: the connection ends here, or goes on with the next request.\<close>

lemma request_served:
  assumes t: "transport_contract B wire" and p: "peer_contract B F todo pend keep" and g: "length g = BufferSizeV"
    and w: "todo w1 = xs" "keep w1 = x_keep x" "wire w1 = wire w"
  obtains res w2 where "serve_request B g (x_request x) w1 = (res, w2)" and "todo w2 = xs"
    and "b_keep_alive B w2 = x_keep x" and "prefix (wire w) (wire w2)"
    and "replies wire w x res w2 \<or> cut_off B F wire w x res w2"
proof -
  obtain res w2 where sv: "serve_request B g (x_request x) w1 = (res, w2)"
    and go: "goes_on wire todo pend keep w1 w2"
    and out: "replies wire w1 x res w2 \<or> cut_off B F wire w1 x res w2"
    using request_replied [where w = w1 and x = x, OF t p g w(2)] by blast
  have "todo w2 = xs" "b_keep_alive B w2 = x_keep x" "prefix (wire w) (wire w2)"
    using go w by (simp_all add: peer_quietD(2) [OF p] same_peer_def goes_on_def)
  moreover have "replies wire w x res w2 \<or> cut_off B F wire w x res w2"
    using out w(3) by (simp add: replies_def cut_off_def)
  ultimately show ?thesis by (rule that [OF sv])
qed

text \<open>After a reply: the rest of the body is discarded and the next request read, or the connection ends.\<close>

lemma reply_done:
  assumes t: "transport_contract B wire" and p: "peer_contract B F todo pend keep"
    and h: "b_read_header B w = ((ec, x_request x), w1)" "\<not> failed ec" "\<not> stop_reading ec"
    and sv: "serve_request B g (x_request x) w1 = (res, w2)" and w2: "todo w2 = xs" "b_keep_alive B w2 = x_keep x"
    and now: "wire w2 = wire w @ snd (reply x now)"
    and n: "res = Inr n" "x_keep x" "0 \<le> n" "fst (reply x now) = Inr ()"
  shows "(\<exists>ts r w'. handle_connection B g w = Some (r, w') \<and> answers B F resp wire w (x # xs) ts r w') \<or>
         (\<exists>now w3. handle_connection B g w = handle_connection B g w3 \<and> pend w3 = 0 \<and> todo w3 = xs \<and>
            x_keep x \<and> fst (reply x now) = Inr () \<and> wire w3 = wire w @ snd (reply x now))"
proof -
  obtain d w3 where d: "discard_loop B w2 = Some (d, w3)"
    "if d then same_peer todo pend keep w2 w3 \<and> pend w3 = 0 else \<not> steady F" using discard_outcome [OF p] by blast
  have w3: "wire w3 = wire w @ snd (reply x now)" using discard_quiet [OF t d(1)] now by simp
  show ?thesis
  proof (cases d)
    case True
    then have "handle_connection B g w = handle_connection B g w3"
      using h sv w2(2) n d(1) by (subst handle_connection.simps) (simp add: peer_quietD(4) [OF p])
    moreover have "todo w3 = xs" "pend w3 = 0" using w2(1) d(2) True by (simp_all add: same_peer_def)
    ultimately show ?thesis using n w3 by blast
  next
    case False
    then have "handle_connection B g w = Some (Inr (), w3)"
      using h sv w2(2) n d(1) by (subst handle_connection.simps) (simp add: peer_quietD(4) [OF p])
    moreover have "cut_short B F wire w (x # xs) (at_time now (\<lambda>_. now)) (Inr ()) w3"
      using False d(2) w3 transcript_start [of x now xs "\<lambda>_. now"] by (simp add: cut_short_def del: transcript.simps)
    ultimately show ?thesis by blast
  qed
qed

text \<open>A header that could not be read, with the response that is sent for it.\<close>

lemma header_failed:
  assumes t: "transport_contract B wire" and p: "peer_contract B F todo pend keep"
    and rc: "\<And>ec. F ec \<Longrightarrow> stop_reading ec \<or> response_contract B wire resp"
    and h: "b_read_header B w = ((ec, rq), w1)" "failed ec" "F ec"
  shows "\<exists>ts r w'. handle_connection B g w = Some (r, w') \<and> answers B F resp wire w xs ts r w'"
proof -
  have ww: "wire w1 = wire w" using h(1) transport_contractD(5) [OF t, of w] by simp
  show ?thesis
  proof (cases "stop_reading ec")
    case True
    then have "handle_connection B g w = Some (Inr (), w1)"
      using h(1) by (subst handle_connection.simps) (simp add: peer_quietD(4) [OF p])
    moreover have "cut_short B F wire w xs ts (Inr ()) w1" for ts
      using ww not_steady [of F ec] h(3) by (simp add: cut_short_def)
    ultimately show ?thesis by blast
  next
    case False
    define v :: nat where "v = (if rq_version rq = 10 then 10 else 11)"
    obtain e2 w2 where r: "b_write_response B w1 400 v = (e2, w2)" by fastforce
    from False rc [OF h(3)] have "response_contract B wire resp" by blast
    from response_contractD [OF this r] obtain k where "wire w2 = wire w1 @ take k (resp 400 v)" ..
    with ww False h(3) have "refused F resp wire w xs ts (Inr ()) w2" for ts
      unfolding refused_def by (intro conjI exI [of _ ec] exI [of _ 0] exI [of _ v] exI [of _ k]) (auto simp: v_def)
    moreover have "handle_connection B g w = Some (Inr (), w2)"
      using h(1,2) False r
      by (subst handle_connection.simps) (simp add: peer_quietD(4) [OF p] flip: v_def)
    ultimately show ?thesis by blast
  qed
qed

lemma connection_step:
  assumes t: "transport_contract B wire" and p: "peer_contract B F todo pend keep" and g: "length g = BufferSizeV"
    and rc: "\<And>ec. F ec \<Longrightarrow> stop_reading ec \<or> response_contract B wire resp"
    and w: "pend w = 0" "todo w = x # xs"
  shows "(\<exists>ts r w'. handle_connection B g w = Some (r, w') \<and> answers B F resp wire w (x # xs) ts r w') \<or>
         (\<exists>now w3. handle_connection B g w = handle_connection B g w3 \<and> pend w3 = 0 \<and> todo w3 = xs \<and>
            x_keep x \<and> fst (reply x now) = Inr () \<and> wire w3 = wire w @ snd (reply x now))"
proof (cases "\<exists>ec w1. b_read_header B w = ((ec, x_request x), w1) \<and> \<not> failed ec \<and>
    todo w1 = xs \<and> pend w1 = x_body x \<and> keep w1 = x_keep x")
  case False
  obtain ec rq w1 where h: "b_read_header B w = ((ec, rq), w1)" by (metis surj_pair)
  from False peer_header(2) [OF p w(2,1)] h have "failed ec" "F ec" by auto
  from header_failed [OF t p rc h this] show ?thesis by blast
next
  case True
  then obtain ec w1 where h: "b_read_header B w = ((ec, x_request x), w1)" "\<not> failed ec"
    and w1: "todo w1 = xs" "pend w1 = x_body x" "keep w1 = x_keep x" by blast
  have ns: "\<not> stop_reading ec" using h(2) by (auto simp: stop_reading_def failed_def)
  have ww: "wire w1 = wire w" using h(1) transport_contractD(5) [OF t, of w] by simp
  obtain res w2 where sv: "serve_request B g (x_request x) w1 = (res, w2)" and w2: "todo w2 = xs"
      "b_keep_alive B w2 = x_keep x" "prefix (wire w) (wire w2)"
    and out: "replies wire w x res w2 \<or> cut_off B F wire w x res w2"
    by (rule request_served [OF t p g w1(1,3) ww])
  from out show ?thesis
  proof
    assume "cut_off B F wire w x res w2"
    from answers_cut_off [OF this w2(3)] obtain n ts where n: "res = Inl (Sys_error n)"
      and a: "answers B F resp wire w (x # xs) ts (Inl (Sys_error n)) w2" by blast
    have "handle_connection B g w = Some (Inl (Sys_error n), w2)"
      using h ns sv n by (subst handle_connection.simps) (simp add: peer_quietD(4) [OF p])
    with a show ?thesis by blast
  next
    assume "replies wire w x res w2"
    then obtain now where now: "wire w2 = wire w @ snd (reply x now)"
      and res: "case res of Inl e \<Rightarrow> fst (reply x now) = Inl e | Inr n \<Rightarrow> fst (reply x now) = Inr () \<and> 0 \<le> n"
      by (auto simp: replies_def)
    show ?thesis
    proof (cases "\<exists>n. res = Inr n \<and> x_keep x")
      case False
      then have "\<not> (x_keep x \<and> fst (reply x now) = Inr ())" using res by (cases res) auto
      from transcript_stop [OF this] now have "as_reference wire w (x # xs) (at_time now (\<lambda>_. now)) (fst (reply x now)) w2"
        by (simp add: as_reference_def del: transcript.simps)
      moreover have "handle_connection B g w = Some (fst (reply x now), w2)"
        using False h ns sv w2(2) res reply_not_diverges [of x now]
        by (subst handle_connection.simps) (auto simp: peer_quietD(4) [OF p] split: sum.splits)
      ultimately show ?thesis by blast
    next
      case True
      then obtain n where n: "res = Inr n" "x_keep x" "0 \<le> n" "fst (reply x now) = Inr ()" using res by auto
      show ?thesis by (rule reply_done [OF t p h ns sv w2(1,2) now n])
    qed
  qed
qed

lemma connection_runs:
  assumes t: "transport_contract B wire" and p: "peer_contract B F todo pend keep" and g: "length g = BufferSizeV"
    and rc: "\<And>ec. F ec \<Longrightarrow> stop_reading ec \<or> response_contract B wire resp"
  shows "pend w = 0 \<Longrightarrow> todo w = xs \<Longrightarrow>
    \<exists>ts r w'. handle_connection B g w = Some (r, w') \<and> answers B F resp wire w xs ts r w'"
proof (induction xs arbitrary: w)
  case Nil
  obtain ec rq w1 where h: "b_read_header B w = ((ec, rq), w1)" by (metis surj_pair)
  show ?case
  proof (cases "stop_reading ec")
    case True
    with h transport_contractD(5) [OF t, of w] show ?thesis
      by (subst handle_connection.simps) (simp add: as_reference_def peer_quietD(4) [OF p])
  next
    case False
    with peer_header(1) [OF p Nil(2) h] have "failed ec" "F ec" by auto
    from header_failed [OF t p rc h this] show ?thesis .
  qed
next
  case (Cons x xs)
  from connection_step [OF t p g rc Cons(2,3)] show ?case
  proof
    assume "\<exists>now w3. handle_connection B g w = handle_connection B g w3 \<and> pend w3 = 0 \<and> todo w3 = xs \<and>
      x_keep x \<and> fst (reply x now) = Inr () \<and> wire w3 = wire w @ snd (reply x now)"
    then obtain now w3 where w3: "handle_connection B g w = handle_connection B g w3" "pend w3 = 0" "todo w3 = xs"
      and k: "x_keep x" "fst (reply x now) = Inr ()" "wire w3 = wire w @ snd (reply x now)" by blast
    from Cons(1) [OF w3(2,3)] obtain ts r w' where
      "handle_connection B g w3 = Some (r, w')" "answers B F resp wire w3 xs ts r w'" by blast
    with answers_Cons [OF this(2) k] w3(1) show ?thesis by metis
  qed
qed

text \<open>
  C3: The server is equivalent to its reference. On a transport that works, with a peer that sends any
  list of requests, each with its body, and then closes, \<open>handle_connection\<close> returns, ends the way
  the reference \<open>transcript\<close> ends, and puts on the wire exactly the bytes of the reference for some
  times of the clock: one reply per request in their order, each a function of its request alone,
  up to the first request whose handling throws or after which the connection is not kept. What is
  left of a body is never taken for the next request, and nothing a request leaves in the
  buffers reaches another reply.
\<close>
theorem connection_equals_reference:
  assumes "reliable B" and "transport_contract B wire" and "peer_contract B no_failure todo pend keep"
    and "length g = BufferSizeV" and "pend w = 0"
  shows "\<exists>ts w'. handle_connection B g w = Some (fst (transcript (todo w) ts), w') \<and>
           wire w' = wire w @ snd (transcript (todo w) ts)"
  using connection_runs [OF assms(2-4) _ assms(5) refl] assms(1)
  by (auto simp: as_reference_def cut_short_def refused_def)

text \<open>
  C4: A failing transport only truncates. Whatever writes fail and however little of them reaches the
  wire, and with whatever error reading a header or a body fails at any point: when every operation
  completes, \<open>handle_connection\<close> returns, and one of three things is the case. It is as if nothing
  had failed; or it ends with the error of the system (or, when a read fails between two requests,
  without one) and the wire holds a first part of the bytes of the reference; or the reading of a
  header failed with another error than the four that end the connection at once, and the wire holds
  the complete replies to the requests before it and a first part of the response 400 that the code
  sends then. No byte of a reply is repeated, reordered, or sent after a gap, and no request after the
  failure is served.
\<close>
theorem failing_transport_truncates:
  assumes "transport_contract B wire" and "peer_contract B F todo pend keep"
    and "response_contract B wire resp" and "length g = BufferSizeV" and "pend w = 0"
  shows "\<exists>ts r w'. handle_connection B g w = Some (r, w') \<and>
           ((r = fst (transcript (todo w) ts) \<and> wire w' = wire w @ snd (transcript (todo w) ts)) \<or>
            (((\<exists>n. r = Inl (Sys_error n)) \<or> r = Inr () \<and> \<not> steady F) \<and>
             (\<exists>k. wire w' = wire w @ take k (snd (transcript (todo w) ts)))) \<or>
            (r = Inr () \<and> (\<exists>ec. F ec \<and> \<not> stop_reading ec) \<and>
             (\<exists>j v k. j \<le> length (todo w) \<and> v \<in> {10, 11} \<and> (\<forall>x \<in> set (take j (todo w)). x_keep x) \<and>
                fst (transcript (take j (todo w)) ts) = Inr () \<and>
                wire w' = wire w @ snd (transcript (take j (todo w)) ts) @ take k (resp 400 v))))"
proof -
  obtain ts r w' where run: "handle_connection B g w = Some (r, w')"
    and a: "answers B F resp wire w (todo w) ts r w'"
    using connection_runs [OF assms(1,2,4) _ assms(5) refl] assms(3) by blast
  have "\<exists>k. wire w' = wire w @ take k (snd (transcript (todo w) ts))" if c: "cut_short B F wire w (todo w) ts r w'"
  proof -
    from c obtain bs where bs: "wire w' = wire w @ bs" by (auto simp: cut_short_def prefix_def)
    with c have "prefix bs (snd (transcript (todo w) ts))" by (simp add: cut_short_def)
    with bs show ?thesis by (auto simp: prefix_def intro!: exI [of _ "length bs"])
  qed
  with run a show ?thesis
    unfolding as_reference_def cut_short_def refused_def by (intro exI [of _ ts] exI [of _ r] exI [of _ w']) blast
qed

text \<open>The witness: a peer that gets, uploads more than it announced, and uploads without a length.\<close>

type_synonym script_world = "exchange list \<times> nat \<times> bool \<times> bytes"

definition script_boost :: "script_world boost" where
  "script_boost =
     \<lparr>b_async_write = (\<lambda>(xs, p, k, out) bs. ((no_error, length bs), (xs, p, k, out @ bs))),
      b_shutdown = (\<lambda>w. w),
      b_read_header = (\<lambda>(xs, p, k, out).
        case xs of
          [] \<Rightarrow> ((\<lparr>ec_is = End_of_stream, ec_value = 1\<rparr>, get_request), (xs, p, k, out))
        | x # xs' \<Rightarrow> ((no_error, x_request x), (xs', x_body x, x_keep x, out))),
      b_read_some = (\<lambda>(xs, p, k, out) n. ((no_error, replicate (min n p) CHR ''x''), (xs, p - min n p, k, out))),
      b_is_done = (\<lambda>(xs, p, k, out). p = 0),
      b_keep_alive = (\<lambda>(xs, p, k, out). k),
      b_local_port = (\<lambda>w. (no_error, 8888)),
      b_remote_addr = (\<lambda>w. (no_error, ''10.0.0.1'')),
      b_write_response = (\<lambda>w status version. (no_error, w)),
      b_now = (\<lambda>w. (None, w)), b_read_waits = (\<lambda>w. False), b_write_waits = (\<lambda>w. False)\<rparr>"

definition script_wire :: "script_world \<Rightarrow> bytes" where
  "script_wire w = snd (snd (snd w))"

lemma script_reliable: "reliable script_boost"
  by (auto simp: reliable_def script_boost_def failed_def no_error_def)

lemma script_transport: "transport_contract script_boost script_wire"
  by (auto simp: transport_contract_def write_contract_def quiet_contract_def script_boost_def script_wire_def
      failed_def no_error_def split: list.splits)

lemma script_peer: "peer_contract script_boost F fst (fst \<circ> snd) (fst \<circ> snd \<circ> snd)"
  by (auto simp: peer_contract_def peer_headers_def peer_body_def peer_quiet_def same_peer_def script_boost_def
      completes_def stop_reading_def failed_def no_error_def split: list.splits)

definition upload_request :: "header list \<Rightarrow> request" where
  "upload_request hs = \<lparr>rq_verb = Put, rq_method_string = ''PUT'', rq_target = ''/x'', rq_version = 11, rq_fields = hs\<rparr>"

definition script_requests :: "exchange list" where
  "script_requests =
     [\<lparr>x_request = get_request, x_body = 0, x_keep = True\<rparr>,
      \<lparr>x_request = upload_request [(Content_length, ''Content-Length'', ''3'')], x_body = 5, x_keep = True\<rparr>,
      \<lparr>x_request = upload_request [], x_body = 0, x_keep = False\<rparr>]"

lemma script_transcript:
  "\<exists>now. transcript script_requests ts = (Inr (), upload_head @ header_tail now True @ continue_line)"
proof -
  have "stoi ''3'' = Inr 3" by code_simp
  then show ?thesis
    by (auto simp: script_requests_def reply_def get_request_def upload_request_def
        content_length_field_def INT_MAX_def)
qed

theorem connection_equals_reference_witness:
  "\<exists>now w'. handle_connection script_boost (replicate BufferSizeV NUL) (script_requests, 0, True, []) =
       Some (Inr (), w') \<and> script_wire w' = upload_head @ header_tail now True @ continue_line"
proof -
  let ?w = "(script_requests, 0 :: nat, True, [] :: bytes)"
  obtain ts w' where run: "handle_connection script_boost (replicate BufferSizeV NUL) ?w =
      Some (fst (transcript script_requests ts), w')" "script_wire w' = snd (transcript script_requests ts)"
    using connection_equals_reference [OF script_reliable script_transport script_peer, of "replicate BufferSizeV NUL" ?w]
    by (auto simp: script_wire_def)
  with script_transcript [of ts] show ?thesis by force
qed

text \<open>The second witness: a socket that takes twenty bytes of a write and then breaks.\<close>

definition flaky_boost :: "script_world boost" where
  "flaky_boost = script_boost\<lparr>b_async_write :=
     (\<lambda>(xs, p, k, out) bs. ((\<lparr>ec_is = Broken_pipe, ec_value = 32\<rparr>, 20), (xs, p, k, out @ take 20 bs)))\<rparr>"

lemma flaky_transport: "transport_contract flaky_boost script_wire"
  by (auto simp: transport_contract_def write_contract_def quiet_contract_def script_boost_def script_wire_def
      flaky_boost_def failed_def no_error_def split: list.splits)

lemma flaky_peer: "peer_contract flaky_boost F fst (fst \<circ> snd) (fst \<circ> snd \<circ> snd)"
  by (auto simp: peer_contract_def peer_headers_def peer_body_def peer_quiet_def same_peer_def script_boost_def
      completes_def flaky_boost_def stop_reading_def failed_def no_error_def split: list.splits)

text \<open>And a peer that sends something that is not a request, with the response in version 1.1.\<close>

definition bad_request :: bytes where
  "bad_request = ''HTTP/1.1 400 Bad Request'' @ CRLF @ ''Content-Length: 0'' @ CRLF @ CRLF"

definition garbled_boost :: "script_world boost" where
  "garbled_boost = script_boost\<lparr>
     b_read_header := (\<lambda>w. ((\<lparr>ec_is = Other_error, ec_value = 1\<rparr>, get_request), w)),
     b_write_response := (\<lambda>(xs, p, k, out) status version. (no_error, (xs, p, k, out @ bad_request)))\<rparr>"

lemma flaky_response: "response_contract flaky_boost script_wire (\<lambda>_ _. [])"
  by (auto simp: response_contract_def flaky_boost_def script_boost_def failed_def no_error_def)

lemma garbled_contracts:
  "transport_contract garbled_boost script_wire"
  "peer_contract garbled_boost (\<lambda>ec. ec_is ec = Other_error) fst (fst \<circ> snd) (fst \<circ> snd \<circ> snd)"
  "response_contract garbled_boost script_wire (\<lambda>_ _. bad_request)"
  by (auto simp: transport_contract_def write_contract_def quiet_contract_def response_contract_def
      peer_contract_def peer_headers_def peer_body_def peer_quiet_def same_peer_def script_boost_def
      completes_def garbled_boost_def script_wire_def steady_def stop_reading_def failed_def no_error_def)

lemma garbled_run:
  "handle_connection garbled_boost g (xs, p, k, out) = Some (Inr (), (xs, p, k, out @ bad_request))"
  by (subst handle_connection.simps)
    (simp add: garbled_boost_def script_boost_def stop_reading_def failed_def)

theorem failing_transport_truncates_witness:
  "(\<exists>k now r w'. handle_connection flaky_boost (replicate BufferSizeV NUL) (script_requests, 0, True, []) =
       Some (r, w') \<and> script_wire w' = take k (upload_head @ header_tail now True @ continue_line)) \<and>
   (\<exists>j k ts w'. handle_connection garbled_boost (replicate BufferSizeV NUL) (script_requests, 0, True, []) =
       Some (Inr (), w') \<and> script_wire w' = bad_request \<and>
       (script_wire w' = take k (snd (transcript script_requests ts)) \<or>
        script_wire w' = snd (transcript (take j script_requests) ts) @ take k bad_request))"
proof (intro conjI)
  let ?w = "(script_requests, 0 :: nat, True, [] :: bytes)" and ?g = "replicate BufferSizeV NUL"
  obtain ts r w' k where run: "handle_connection flaky_boost ?g ?w = Some (r, w')"
    "script_wire w' = take k (snd (transcript script_requests ts))"
    using failing_transport_truncates [OF flaky_transport flaky_peer flaky_response, of ?g ?w stop_reading]
    by (auto simp: script_wire_def) (metis take_all_iff le_refl)
  with script_transcript [of ts] show "\<exists>k now r w'. handle_connection flaky_boost ?g ?w =
       Some (r, w') \<and> script_wire w' = take k (upload_head @ header_tail now True @ continue_line)" by force
  obtain ts j k where "bad_request = take k (snd (transcript script_requests ts)) \<or>
      bad_request = snd (transcript (take j script_requests) ts) @ take k bad_request"
    using failing_transport_truncates [OF garbled_contracts, of ?g ?w]
    by (auto simp: script_wire_def garbled_run) (metis take_all_iff le_refl)
  then show "\<exists>j k ts w'. handle_connection garbled_boost ?g ?w = Some (Inr (), w') \<and> script_wire w' = bad_request \<and>
       (script_wire w' = take k (snd (transcript script_requests ts)) \<or>
        script_wire w' = snd (transcript (take j script_requests) ts) @ take k bad_request)"
    by (auto simp: garbled_run script_wire_def)
qed

end
