(* ===== verification/ServerRun.thy ===== *)
theory ServerRun
  imports Frontend Transcript
begin

text \<open>
  The running server together with the connections it serves: the step relation of \<open>Frontend\<close>, in
  which a coroutine ends with what \<open>handle_connection\<close> makes of its peer. The coroutines share the
  list of connections, the thread pool and the static \<open>discard_buffer\<close>; into the last every one of
  them reads and none looks at it, so its content is not part of the state and each connection has a
  world of its own (a peer that stays silent leaves its coroutine waiting: it takes no step). What they
  put on their wires is that of \<open>Transcript\<close>, and an exception that leaves one of them ends the
  program with all the others.
\<close>

section \<open>The state\<close>

text \<open>
  How a connection ended: \<open>Served\<close> when its socket was open until \<open>handle_connection\<close> was done, \<open>Closed\<close>
  when \<open>stop\<close> had closed it. \<open>rn_ended\<close> only records history. The world of a connection is what its
  peer is and has got so far.
\<close>

datatype ending = Served "exn + unit" | Closed "exn + unit"

primrec ending_result :: "ending \<Rightarrow> exn + unit" where
  "ending_result (Served r) = r"
| "ending_result (Closed r) = r"

record 'w running =
  rn_server :: server
  rn_world :: "nat \<Rightarrow> 'w"
  rn_ended :: "nat \<Rightarrow> ending option"

definition running_new :: "listener list \<Rightarrow> (nat \<Rightarrow> 'w) \<Rightarrow> 'w running" where
  "running_new ls W = \<lparr>rn_server = server_new ls, rn_world = W, rn_ended = Map.empty\<rparr>"

text \<open>A step of the server that touches no connection's wire.\<close>

definition rn_move :: "(server \<Rightarrow> server) \<Rightarrow> 'w running \<Rightarrow> 'w running" where
  "rn_move f R = R\<lparr>rn_server := f (rn_server R)\<rparr>"

text \<open>The end of a coroutine: the handler's result and what it left behind.\<close>

definition rn_finish :: "nat \<Rightarrow> ending \<Rightarrow> 'w \<Rightarrow> 'w running \<Rightarrow> 'w running" where
  "rn_finish c e w' R =
     R\<lparr>rn_server := coro_end c (ending_result e) (rn_server R),
       rn_world := (rn_world R)(c := w'),
       rn_ended := (rn_ended R)(c \<mapsto> e)\<rparr>"

text \<open>
  \<open>G c\<close> is what the output buffer of connection \<open>c\<close> holds when it is built. Closing a socket makes its
  operations fail from some point on, so a connection that was closed ran on one of the sockets \<open>K\<close>
  that do this, and not on \<open>B\<close>.
\<close>

inductive rn_step :: "'w boost \<Rightarrow> ('w boost \<Rightarrow> bool) \<Rightarrow> (nat \<Rightarrow> bytes) \<Rightarrow> 'w running \<Rightarrow> 'w running \<Rightarrow> bool"
  for B :: "'w boost" and K :: "'w boost \<Rightarrow> bool" and G :: "nat \<Rightarrow> bytes" where
  Run_accept: "\<not> sv_terminated (rn_server R) \<Longrightarrow> i < length (sv_listeners (rn_server R)) \<Longrightarrow>
      l_accepting (sv_listeners (rn_server R) ! i) \<Longrightarrow> rn_step B K G R (rn_move (fe_accept i ec) R)"
| Run_start: "\<not> sv_terminated (rn_server R) \<Longrightarrow> sv_coros (rn_server R) c = Some Spawned \<Longrightarrow>
      rn_step B K G R (rn_move (coro_start c) R)"
| Run_served: "\<not> sv_terminated (rn_server R) \<Longrightarrow> sv_coros (rn_server R) c = Some Serving \<Longrightarrow>
      c \<in> sv_open (rn_server R) \<Longrightarrow> handle_connection B (G c) (rn_world R c) = Some (r, w') \<Longrightarrow>
      rn_step B K G R (rn_finish c (Served r) w' R)"
| Run_closed: "\<not> sv_terminated (rn_server R) \<Longrightarrow> sv_coros (rn_server R) c = Some Serving \<Longrightarrow>
      c \<notin> sv_open (rn_server R) \<Longrightarrow> K C \<Longrightarrow> handle_connection C (G c) (rn_world R c) = Some (r, w') \<Longrightarrow>
      rn_step B K G R (rn_finish c (Closed r) w' R)"
| Run_stop: "\<not> sv_terminated (rn_server R) \<Longrightarrow> rn_step B K G R (rn_move fe_stop R)"
| Run_join: "\<not> sv_terminated (rn_server R) \<Longrightarrow> rn_step B K G R (rn_move fe_join R)"

inductive_cases rn_stepE: "rn_step B K G R R'"

inductive rn_reachable ::
    "'w boost \<Rightarrow> ('w boost \<Rightarrow> bool) \<Rightarrow> (nat \<Rightarrow> bytes) \<Rightarrow> listener list \<Rightarrow> (nat \<Rightarrow> 'w) \<Rightarrow> 'w running \<Rightarrow> bool"
  for B :: "'w boost" and K :: "'w boost \<Rightarrow> bool" and G :: "nat \<Rightarrow> bytes" and ls :: "listener list" and W :: "nat \<Rightarrow> 'w" where
  Run_init: "rn_reachable B K G ls W (running_new ls W)"
| Run_on: "rn_reachable B K G ls W R \<Longrightarrow> rn_step B K G R R' \<Longrightarrow> rn_reachable B K G ls W R'"

lemmas running_defs = rn_move_def rn_finish_def running_new_def

text \<open>Every run is a run of the server alone: what holds there holds here.\<close>

lemma rn_step_simulates: "rn_step B K G R R' \<Longrightarrow> sv_step (rn_server R) (rn_server R')"
  by (erule rn_stepE) (auto simp: running_defs intro: sv_step.intros)

lemma rn_simulates: "rn_reachable B K G ls W R \<Longrightarrow> sv_reachable ls (rn_server R)"
  by (induction rule: rn_reachable.induct)
    (auto simp: running_new_def intro: Reach_init Reach_step dest: rn_step_simulates)

section \<open>The invariant\<close>

text \<open>Who has not ended has its world still as it was; who has ended has left.\<close>

definition worlds_kept :: "(nat \<Rightarrow> 'w) \<Rightarrow> 'w running \<Rightarrow> bool" where
  "worlds_kept W R \<longleftrightarrow>
     (\<forall>c. rn_ended R c = None \<longrightarrow> rn_world R c = W c) \<and>
     (\<forall>c. sv_coros (rn_server R) c \<noteq> None \<longrightarrow> rn_ended R c = None) \<and>
     (\<forall>c. sv_next (rn_server R) \<le> c \<longrightarrow> rn_ended R c = None)"

text \<open>The connections that were served and those that were closed, and the only way the program ends by itself.\<close>

definition rn_ok :: "'w boost \<Rightarrow> ('w boost \<Rightarrow> bool) \<Rightarrow> (nat \<Rightarrow> bytes) \<Rightarrow> (nat \<Rightarrow> 'w) \<Rightarrow> 'w running \<Rightarrow> bool" where
  "rn_ok B K G W R \<longleftrightarrow>
     (\<forall>c r. rn_ended R c = Some (Served r) \<longrightarrow> handle_connection B (G c) (W c) = Some (r, rn_world R c)) \<and>
     (\<forall>c r. rn_ended R c = Some (Closed r) \<longrightarrow>
        (\<exists>C. K C \<and> handle_connection C (G c) (W c) = Some (r, rn_world R c))) \<and>
     sv_terminated (rn_server R) = (\<exists>c e x. rn_ended R c = Some e \<and> ending_result e = Inl x)"

lemma accept_server:
  "sv_terminated (fe_accept i ec s) = sv_terminated s" "sv_next s \<le> sv_next (fe_accept i ec s)"
  "sv_coros (fe_accept i ec s) c \<noteq> None \<Longrightarrow> sv_coros s c \<noteq> None \<or> c = sv_next s"
  by (auto simp: fe_accept_def Let_def split: if_splits)

lemma other_server:
  "sv_terminated (coro_start c s) = sv_terminated s" "sv_next (coro_start c s) = sv_next s"
  "sv_terminated (fe_stop s) = sv_terminated s" "sv_next (fe_stop s) = sv_next s" "sv_coros (fe_stop s) = sv_coros s"
  "sv_terminated (fe_join s) = sv_terminated s" "sv_next (fe_join s) = sv_next s" "sv_coros (fe_join s) = sv_coros s"
  by (simp_all add: coro_start_def fe_stop_def fe_join_def Let_def cn_close_def)

lemma worlds_kept_step:
  assumes step: "rn_step B K G R R'" and wf: "sv_wf (rn_server R)" and k: "worlds_kept W R"
  shows "worlds_kept W R'"
  using step
proof (cases rule: rn_step.cases)
  case (Run_accept i ec)
  have old: "rn_ended R d = None" if "sv_coros (fe_accept i ec (rn_server R)) d \<noteq> None" for d
    using accept_server(3) [OF that] k by (auto simp: worlds_kept_def)
  have new: "rn_ended R d = None" if "sv_next (fe_accept i ec (rn_server R)) \<le> d" for d
    using order.trans [OF accept_server(2) that] k by (simp add: worlds_kept_def)
  from k Run_accept(1) old new show ?thesis by (simp add: worlds_kept_def rn_move_def)
next
  case (Run_served c r w')
  with k sv_wfD(5) [OF wf, of c] show ?thesis
    by (auto simp: worlds_kept_def rn_finish_def coro_end_def)
next
  case (Run_closed c C r w')
  with k sv_wfD(5) [OF wf, of c] show ?thesis
    by (auto simp: worlds_kept_def rn_finish_def coro_end_def)
qed (use k in \<open>auto simp: worlds_kept_def rn_move_def other_server coro_start_def\<close>)

lemma rn_ok_step:
  assumes step: "rn_step B K G R R'" and k: "worlds_kept W R" and ok: "rn_ok B K G W R"
  shows "rn_ok B K G W R'"
  using step
proof (cases rule: rn_step.cases)
  case (Run_accept i ec)
  with ok show ?thesis by (simp add: rn_ok_def rn_move_def accept_server(1))
next
  case (Run_served c r w')
  with k have "handle_connection B (G c) (W c) = Some (r, w')" "rn_ended R c = None"
    by (auto simp: worlds_kept_def)
  with ok Run_served show ?thesis
    by (auto simp: rn_ok_def rn_finish_def coro_end_def split: sum.splits)
next
  case (Run_closed c C r w')
  with k have "handle_connection C (G c) (W c) = Some (r, w')" "rn_ended R c = None"
    by (auto simp: worlds_kept_def)
  with ok Run_closed show ?thesis
    by (auto simp: rn_ok_def rn_finish_def coro_end_def split: sum.splits)
qed (use ok in \<open>simp_all add: rn_ok_def rn_move_def other_server\<close>)

lemma rn_invariant:
  assumes "rn_reachable B K G ls W R"
  shows "worlds_kept W R" and "rn_ok B K G W R"
proof -
  have "worlds_kept W R \<and> rn_ok B K G W R"
    using assms
  proof (induction rule: rn_reachable.induct)
    case Run_init
    show ?case by (simp add: worlds_kept_def rn_ok_def running_new_def server_new_def)
  next
    case (Run_on R R')
    with sv_reachable_wf [OF rn_simulates [OF Run_on(1)]] show ?case
      by (blast intro: worlds_kept_step rn_ok_step)
  qed
  then show "worlds_kept W R" and "rn_ok B K G W R" by blast+
qed

section \<open>Properties\<close>

text \<open>
  The peers of a server: each sends its own list of requests, and nothing is half delivered. On the
  sockets \<open>K\<close> they do so too, until an operation fails (reading a header with one of the errors of
  \<open>stop_reading\<close>, as it does on a socket that was closed).
\<close>

definition peers_contract ::
  "'w boost \<Rightarrow> ('w boost \<Rightarrow> bool) \<Rightarrow> ('w \<Rightarrow> bytes) \<Rightarrow> ('w \<Rightarrow> exchange list) \<Rightarrow> (nat \<Rightarrow> bytes) \<Rightarrow> (nat \<Rightarrow> 'w) \<Rightarrow> bool" where
  "peers_contract B K wire todo G W \<longleftrightarrow>
     (\<exists>pend keep. transport_contract B wire \<and> peer_contract B no_failure todo pend keep \<and>
        (\<forall>C. K C \<longrightarrow> transport_contract C wire \<and> peer_contract C stop_reading todo pend keep) \<and>
        (\<forall>c. length (G c) = BufferSizeV \<and> pend (W c) = 0))"

abbreviation answered ::
  "'w boost \<Rightarrow> (error_code \<Rightarrow> bool) \<Rightarrow> ('w \<Rightarrow> bytes) \<Rightarrow>
    'w \<Rightarrow> exchange list \<Rightarrow> (nat \<Rightarrow> tm option) \<Rightarrow> exn + unit \<Rightarrow> 'w \<Rightarrow> bool" where
  "answered B F wire w xs ts r w' \<equiv> as_reference wire w xs ts r w' \<or> cut_short B F wire w xs ts r w'"

lemma peer_served:
  assumes "peers_contract B K wire todo G W"
  shows "\<exists>ts r w'. handle_connection B (G c) (W c) = Some (r, w') \<and> answered B no_failure wire (W c) (todo (W c)) ts r w'"
    and "K C \<Longrightarrow> \<exists>ts r w'. handle_connection C (G c) (W c) = Some (r, w') \<and>
           answered C stop_reading wire (W c) (todo (W c)) ts r w'"
proof -
  from assms obtain pend keep where t: "transport_contract B wire" and p: "peer_contract B no_failure todo pend keep"
    and K: "\<And>C. K C \<Longrightarrow> transport_contract C wire \<and> peer_contract C stop_reading todo pend keep"
    and g: "length (G c) = BufferSizeV" "pend (W c) = 0" unfolding peers_contract_def by blast
  have *: "\<exists>ts r w'. handle_connection C (G c) (W c) = Some (r, w') \<and> answered C F wire (W c) (todo (W c)) ts r w'"
    if "transport_contract C wire" "peer_contract C F todo pend keep" "\<And>ec. F ec \<Longrightarrow> stop_reading ec" for C F
  proof -
    have "\<And>ec. F ec \<Longrightarrow> stop_reading ec \<or> response_contract C wire (\<lambda>_ _. [])" using that(3) by simp
    from connection_runs [OF that(1,2) g(1) this g(2) refl] never_refused [OF that(3)] show ?thesis by fastforce
  qed
  show "\<exists>ts r w'. handle_connection B (G c) (W c) = Some (r, w') \<and>
      answered B no_failure wire (W c) (todo (W c)) ts r w'"
    by (rule * [OF t p]) simp
  assume "K C"
  with K [OF this] show "\<exists>ts r w'. handle_connection C (G c) (W c) = Some (r, w') \<and>
           answered C stop_reading wire (W c) (todo (W c)) ts r w'"
    by (intro *) simp_all
qed

text \<open>
  C1: The server answers everyone independently. Whatever the operating system reports for accepts and
  in whatever order coroutines are spawned, run and finished, before or after \<open>stop\<close> and \<open>join\<close>:
  the wire of every connection that was served on an open socket holds the reference for the
  requests of its own peer (or a first part of it, with the system's error, when a write failed),
  as if the server had no other connection; one that \<open>stop\<close> closed, at whatever point, has sent a first
  part of its reference and nothing else; and the program has ended by itself exactly if some
  connection ended with an exception, no other step does that.
\<close>
theorem running_server_answers:
  assumes "peers_contract B K wire todo G W" and "rn_reachable B K G ls W R"
  shows "(\<forall>c r. rn_ended R c = Some (Served r) \<longrightarrow>
            (\<exists>ts. answered B no_failure wire (W c) (todo (W c)) ts r (rn_world R c))) \<and>
         (\<forall>c r. rn_ended R c = Some (Closed r) \<longrightarrow>
            (\<exists>ts. prefix (wire (W c)) (wire (rn_world R c)) \<and>
               prefix (wire (rn_world R c)) (wire (W c) @ snd (transcript (todo (W c)) ts)))) \<and>
         (sv_terminated (rn_server R) \<longleftrightarrow> (\<exists>c e x. rn_ended R c = Some e \<and> ending_result e = Inl x)) \<and>
         sv_reachable ls (rn_server R)"
proof -
  note ok = rn_invariant(2) [OF assms(2)]
  have "\<exists>ts. answered B no_failure wire (W c) (todo (W c)) ts r (rn_world R c)" if "rn_ended R c = Some (Served r)" for c r
  proof -
    from ok that have "handle_connection B (G c) (W c) = Some (r, rn_world R c)" by (simp add: rn_ok_def)
    with peer_served(1) [OF assms(1), of c] show ?thesis by auto
  qed
  moreover have "\<exists>ts. prefix (wire (W c)) (wire (rn_world R c)) \<and>
      prefix (wire (rn_world R c)) (wire (W c) @ snd (transcript (todo (W c)) ts))"
    if "rn_ended R c = Some (Closed r)" for c r
  proof -
    from ok that have "\<exists>C. K C \<and> handle_connection C (G c) (W c) = Some (r, rn_world R c)"
      by (simp add: rn_ok_def)
    then obtain C where C: "K C" "handle_connection C (G c) (W c) = Some (r, rn_world R c)" by blast
    with peer_served(2) [OF assms(1) C(1), of c] obtain ts
      where "answered C stop_reading wire (W c) (todo (W c)) ts r (rn_world R c)" by auto
    then show ?thesis by (auto simp: as_reference_def cut_short_def)
  qed
  ultimately show ?thesis using ok rn_simulates [OF assms(2)] by (auto simp: rn_ok_def)
qed

lemma refused_transcript:
  assumes "reply x (ts 0) = (Inl e, out)"
  shows "transcript (x # xs) ts = (Inl e, out)"
  using assms by simp

lemma long_upload_refused:
  assumes "rq_verb (x_request x) \<in> {Put, Post}" and "content_length_field (x_request x) = Some (dec n)"
    and "INT_MAX < int n"
  shows "reply x now = (Inl (Std_exception ''out_of_range''), continue_line)"
  using assms by (auto simp: reply_def stoi_dec_cases)

lemma refused_answers:
  assumes "answered B no_failure wire w (x # xs) ts r w'" and "\<And>now. reply x now = (Inl e, out)"
  shows "\<exists>err. r = Inl err" and "prefix (wire w') (wire w @ out)"
  using assms(1) refused_transcript [OF assms(2), of xs ts]
  by (auto simp: as_reference_def cut_short_def simp del: transcript.simps)

text \<open>
  C2: One request ends the program. A peer whose first request is an upload that announces 2147483648
  bytes or more needs only to be served: it can be served at once, and in whatever way the run
  goes on, once it has been served the program has terminated, with no step possible for any other
  connection, and the peer got no more than the line that tells it to continue. (\<open>std::stoi\<close> throws
  and nothing between \<open>process\<close> and the function of the thread catches.)
\<close>
theorem long_upload_ends_program:
  assumes peers: "peers_contract B K wire todo G W" and reach: "rn_reachable B K G ls W R"
    and run: "\<not> sv_terminated (rn_server R)"
    and c: "sv_coros (rn_server R) c = Some Serving" "c \<in> sv_open (rn_server R)"
    and x: "todo (W c) = x # xs" "rq_verb (x_request x) \<in> {Put, Post}"
      "content_length_field (x_request x) = Some (dec n)" "INT_MAX < int n"
  shows "(\<exists>R' r. rn_step B K G R R' \<and> rn_ended R' c = Some (Served r)) \<and>
         (\<forall>R' r. rtranclp (rn_step B K G) R R' \<longrightarrow> rn_ended R' c = Some (Served r) \<longrightarrow>
            sv_terminated (rn_server R') \<and> (\<nexists>R''. rn_step B K G R' R'') \<and>
            prefix (wire (rn_world R' c)) (wire (W c) @ continue_line))"
proof -
  note refused = long_upload_refused [OF x(2-4)]
  have first: "\<exists>R' r. rn_step B K G R R' \<and> rn_ended R' c = Some (Served r)"
  proof -
    from rn_invariant(1) [OF reach] c(1) have "rn_world R c = W c" by (simp add: worlds_kept_def)
    moreover obtain r w' where "handle_connection B (G c) (W c) = Some (r, w')"
      using peer_served(1) [OF peers] by blast
    ultimately have "rn_step B K G R (rn_finish c (Served r) w' R)" using run c by (intro Run_served) simp_all
    then show ?thesis by (auto simp: rn_finish_def)
  qed
  have ended: "sv_terminated (rn_server R') \<and> prefix (wire (rn_world R' c)) (wire (W c) @ continue_line)"
    if "rtranclp (rn_step B K G) R R'" and e: "rn_ended R' c = Some (Served r)" for R' r
  proof -
    from that(1) reach have "rn_reachable B K G ls W R'"
      by (induction rule: rtranclp_induct) (auto intro: Run_on)
    from rn_invariant(2) [OF this] e have h: "handle_connection B (G c) (W c) = Some (r, rn_world R' c)"
      and t: "sv_terminated (rn_server R') = (\<exists>c e x. rn_ended R' c = Some e \<and> ending_result e = Inl x)"
      by (auto simp: rn_ok_def)
    from h peer_served(1) [OF peers, of c] x(1) obtain ts
      where a: "answered B no_failure wire (W c) (x # xs) ts r (rn_world R' c)" by auto
    from refused_answers [OF a refused] e t show ?thesis by fastforce
  qed
  have "\<nexists>R''. rn_step B K G R' R''" if "sv_terminated (rn_server R')" for R'
    using that by (auto elim: rn_stepE)
  with first ended show ?thesis by blast
qed

text \<open>The witnesses: peers that all send the same requests, and a run up to the first being served.\<close>

definition demo_peers :: "exchange list \<Rightarrow> nat \<Rightarrow> script_world" where
  "demo_peers xs c = (xs, 0, True, [])"

definition demo_buffers :: "nat \<Rightarrow> bytes" where
  "demo_buffers c = replicate BufferSizeV NUL"

definition demo_running :: "exchange list \<Rightarrow> script_world running" where
  "demo_running xs =
     rn_move (coro_start 0) (rn_move (fe_accept 0 no_error) (running_new demo_listeners (demo_peers xs)))"

definition huge_upload :: exchange where
  "huge_upload =
     \<lparr>x_request = upload_request [(Content_length, ''Content-Length'', dec 2147483648)], x_body = 7, x_keep = True\<rparr>"

text \<open>A socket that was closed: nothing can be read or written any more.\<close>

definition closed_boost :: "script_world boost" where
  "closed_boost = script_boost\<lparr>
     b_read_header := (\<lambda>w. ((\<lparr>ec_is = Bad_descriptor, ec_value = 9\<rparr>, get_request), w)),
     b_read_some := (\<lambda>w k. ((\<lparr>ec_is = Bad_descriptor, ec_value = 9\<rparr>, []), w)),
     b_async_write := (\<lambda>w bs. ((\<lparr>ec_is = Bad_descriptor, ec_value = 9\<rparr>, 0), w)),
     b_local_port := (\<lambda>w. (\<lparr>ec_is = Bad_descriptor, ec_value = 9\<rparr>, 0))\<rparr>"

definition script_closing :: "script_world boost \<Rightarrow> bool" where
  "script_closing C \<longleftrightarrow> C = script_boost \<or> C = closed_boost"

lemma closed_transport: "transport_contract closed_boost script_wire"
  by (auto simp: transport_contract_def write_contract_def quiet_contract_def script_boost_def script_wire_def
      closed_boost_def failed_def no_error_def)

lemma closed_peer: "peer_contract closed_boost stop_reading fst (fst \<circ> snd) (fst \<circ> snd \<circ> snd)"
  using not_steady [of stop_reading "\<lparr>ec_is = Bad_descriptor, ec_value = 9\<rparr>"]
  by (auto simp: peer_contract_def peer_headers_def peer_body_def peer_quiet_def same_peer_def script_boost_def
      completes_def closed_boost_def stop_reading_def failed_def no_error_def)

lemma demo_contract: "peers_contract script_boost script_closing script_wire fst demo_buffers (demo_peers xs)"
  unfolding peers_contract_def
  by (intro exI [of _ "fst \<circ> snd"] exI [of _ "fst \<circ> snd \<circ> snd"])
    (auto simp: script_transport script_peer closed_transport closed_peer script_closing_def demo_buffers_def demo_peers_def)

lemma demo_running_reachable: "rn_reachable script_boost script_closing demo_buffers demo_listeners (demo_peers xs) (demo_running xs)"
proof -
  let ?R0 = "running_new demo_listeners (demo_peers xs)"
  have "rn_step script_boost script_closing demo_buffers ?R0 (rn_move (fe_accept 0 no_error) ?R0)"
    by (rule Run_accept) (simp_all add: running_new_def server_new_def demo_listeners_def initial_listeners_def)
  moreover have "rn_step script_boost script_closing demo_buffers (rn_move (fe_accept 0 no_error) ?R0) (demo_running xs)"
    unfolding demo_running_def using demo_accepted_simps(1,2)
    by (intro Run_start) (simp_all add: running_new_def rn_move_def demo_accepted_def)
  ultimately show ?thesis by (meson Run_init Run_on)
qed

lemma demo_running_simps:
  "\<not> sv_terminated (rn_server (demo_running xs))" "sv_coros (rn_server (demo_running xs)) 0 = Some Serving"
  "0 \<in> sv_open (rn_server (demo_running xs))" "rn_world (demo_running xs) = demo_peers xs"
  using demo_accepted_simps
  by (simp_all add: demo_running_def rn_move_def running_new_def coro_start_def demo_accepted_def)

theorem running_server_answers_witness:
  "\<exists>R now. rn_reachable script_boost script_closing demo_buffers demo_listeners (demo_peers script_requests) R \<and>
     rn_ended R 0 = Some (Served (Inr ())) \<and>
     script_wire (rn_world R 0) = upload_head @ header_tail now True @ continue_line"
proof -
  let ?R = "demo_running script_requests" and ?W = "demo_peers script_requests"
  obtain r w' where h: "handle_connection script_boost (demo_buffers 0) (?W 0) = Some (r, w')"
    using peer_served(1) [OF demo_contract] by blast
  let ?R' = "rn_finish 0 (Served r) w' ?R"
  have "rn_step script_boost script_closing demo_buffers ?R ?R'"
    using demo_running_simps h by (intro Run_served) simp_all
  with demo_running_reachable have reach: "rn_reachable script_boost script_closing demo_buffers demo_listeners ?W ?R'" by (rule Run_on)
  from running_server_answers [OF demo_contract this, THEN conjunct1, rule_format, of 0 r]
  obtain ts where "answered script_boost no_failure script_wire (?W 0) (fst (?W 0)) ts r w'" by (auto simp: rn_finish_def)
  with script_reliable script_transcript [of ts]
  have "r = Inr () \<and> (\<exists>now. script_wire w' = upload_head @ header_tail now True @ continue_line)"
    by (auto simp: as_reference_def cut_short_def demo_peers_def script_wire_def)
  with reach show ?thesis by (intro exI [of _ ?R']) (auto simp: rn_finish_def)
qed

theorem long_upload_ends_program_witness:
  "\<exists>R' r. rn_step script_boost script_closing demo_buffers (demo_running [huge_upload]) R' \<and>
     sv_terminated (rn_server R') \<and> prefix (script_wire (rn_world R' 0)) continue_line"
proof -
  have "rq_verb (x_request huge_upload) \<in> {Put, Post}"
    "content_length_field (x_request huge_upload) = Some (dec 2147483648)"
    by (simp_all add: huge_upload_def upload_request_def content_length_field_def)
  from long_upload_ends_program [OF demo_contract demo_running_reachable demo_running_simps(1-3) _ this, of "[huge_upload]" "[]"]
  show ?thesis by (auto simp: demo_peers_def script_wire_def INT_MAX_def)
qed

text \<open>A connection that is stopped before it was served has sent nothing.\<close>

lemma stopped_connection_silent:
  "\<exists>R. rn_reachable script_boost script_closing demo_buffers demo_listeners (demo_peers xs) R \<and>
     rn_ended R 0 = Some (Closed (Inr ())) \<and> script_wire (rn_world R 0) = []"
proof -
  let ?R = "rn_move fe_stop (demo_running xs)" and ?w = "demo_peers xs 0"
  have "rn_step script_boost script_closing demo_buffers (demo_running xs) ?R"
    by (rule Run_stop [OF demo_running_simps(1)])
  with demo_running_reachable have "rn_reachable script_boost script_closing demo_buffers demo_listeners (demo_peers xs) ?R"
    by (rule Run_on)
  moreover have "handle_connection closed_boost (demo_buffers 0) ?w = Some (Inr (), ?w)"
    by (subst handle_connection.simps) (simp add: closed_boost_def script_boost_def stop_reading_def)
  then have "rn_step script_boost script_closing demo_buffers ?R (rn_finish 0 (Closed (Inr ())) ?w ?R)"
    using demo_running_simps demo_accepted_simps
    by (intro Run_closed [where C = closed_boost])
      (simp_all add: script_closing_def rn_move_def fe_stop_def cn_close_def demo_running_def running_new_def
        coro_start_def cn_add_def demo_accepted_def [symmetric])
  ultimately show ?thesis
    by (intro exI [of _ "rn_finish 0 (Closed (Inr ())) ?w ?R"])
      (auto simp: rn_finish_def demo_peers_def script_wire_def intro: Run_on)
qed

text \<open>
  While the server runs without being told to stop, every connection that ended was served, so with
  peers whose every request has a good reply and a transport that works the program does not end.
\<close>

lemma open_while_up:
  assumes "rn_reachable B K G ls W R"
  shows "\<not> sv_going_down (rn_server R) \<Longrightarrow>
    (\<forall>c. sv_coros (rn_server R) c \<noteq> None \<longrightarrow> c \<in> sv_open (rn_server R)) \<and> (\<forall>c r. rn_ended R c \<noteq> Some (Closed r))"
  using assms
proof (induction rule: rn_reachable.induct)
  case (Run_on R R')
  from Run_on(2) show ?case
  proof (cases rule: rn_step.cases)
    case (Run_accept i ec)
    with Run_on show ?thesis by (auto simp: rn_move_def fe_accept_def Let_def split: if_splits)
  qed (use Run_on in \<open>auto simp: running_defs coro_start_def coro_end_def fe_stop_def fe_join_def cn_close_def
      Let_def split: if_splits\<close>)
qed (simp add: running_new_def server_new_def)

lemma good_transcript: "\<forall>x \<in> set xs. \<forall>now. fst (reply x now) = Inr () \<Longrightarrow> fst (transcript xs ts) = Inr ()"
proof (induction xs arbitrary: ts)
  case (Cons x xs)
  moreover obtain r out where "reply x (ts 0) = (r, out)" by (metis surj_pair)
  ultimately show ?case by (auto simp: case_prod_beta split: sum.split) (metis fst_conv sum.distinct(1))
qed simp

lemma good_peers_never_end_program:
  assumes "peers_contract B K wire todo G W" and "rn_reachable B K G ls W R" and "reliable B"
    and "\<forall>c. \<forall>x \<in> set (todo (W c)). \<forall>now. fst (reply x now) = Inr ()" and "\<not> sv_going_down (rn_server R)"
  shows "\<not> sv_terminated (rn_server R)"
proof
  assume "sv_terminated (rn_server R)"
  then obtain c e x where e: "rn_ended R c = Some e" "ending_result e = Inl x"
    using rn_invariant(2) [OF assms(2)] by (auto simp: rn_ok_def)
  with open_while_up [OF assms(2,5)] have s: "rn_ended R c = Some (Served (Inl x))" by (cases e) auto
  with rn_invariant(2) [OF assms(2)] have "handle_connection B (G c) (W c) = Some (Inl x, rn_world R c)"
    by (simp add: rn_ok_def)
  with peer_served(1) [OF assms(1), of c] obtain ts
    where "answered B no_failure wire (W c) (todo (W c)) ts (Inl x) (rn_world R c)" by auto
  moreover have "fst (transcript (todo (W c)) ts) = Inr ()" by (rule good_transcript) (use assms(4) in blast)
  ultimately show False using assms(3) by (simp add: as_reference_def cut_short_def)
qed

end
