(* ===== verification/BoostHttp.thy ===== *)
theory BoostHttp
  imports Process
begin

text \<open>
  \<open>boost_cpp/httpserver/boost_http.cc\<close>: the static file server. The media type of a path, the path
  of a target below the document root, the response to a request, the session loop with its
  sender, the listening loop and the command line. The stream, the file system and the two facts
  about a message that Beast computes are parameters, one record \<open>'w web\<close>.
\<close>

section \<open>mime_type and path_cat\<close>

definition ascii_tolower :: "char \<Rightarrow> char" where
  "ascii_tolower c =
     (let k = of_char c :: nat in if 65 \<le> k \<and> k \<le> 90 then char_of (k + 32) else c)"

definition iequals :: "string \<Rightarrow> string \<Rightarrow> bool" where
  "iequals a b \<longleftrightarrow> map ascii_tolower a = map ascii_tolower b"

text \<open>From the last dot on, nothing when there is none.\<close>

definition extension :: "string \<Rightarrow> string" where
  "extension path =
     (if CHR ''.'' \<in> set path
      then CHR ''.'' # rev (takeWhile (\<lambda>c. c \<noteq> CHR ''.'') (rev path))
      else [])"

definition mime_table :: "(string \<times> string) list" where
  "mime_table =
     [(''.htm'', ''text/html''), (''.html'', ''text/html''), (''.php'', ''text/html''),
      (''.css'', ''text/css''), (''.txt'', ''text/plain''), (''.js'', ''application/javascript''),
      (''.json'', ''application/json''), (''.xml'', ''application/xml''),
      (''.swf'', ''application/x-shockwave-flash''), (''.flv'', ''video/x-flv''),
      (''.png'', ''image/png''), (''.jpe'', ''image/jpeg''), (''.jpeg'', ''image/jpeg''),
      (''.jpg'', ''image/jpeg''), (''.gif'', ''image/gif''), (''.bmp'', ''image/bmp''),
      (''.ico'', ''image/vnd.microsoft.icon''), (''.tiff'', ''image/tiff''),
      (''.tif'', ''image/tiff''), (''.svg'', ''image/svg+xml''), (''.svgz'', ''image/svg+xml'')]"

fun first_match :: "string \<Rightarrow> (string \<times> string) list \<Rightarrow> string" where
  "first_match ext [] = ''application/text''"
| "first_match ext ((e, t) # ets) = (if iequals ext e then t else first_match ext ets)"

definition mime_type :: "string \<Rightarrow> string" where
  "mime_type path = first_match (extension path) mime_table"

definition path_cat :: "string \<Rightarrow> string \<Rightarrow> string" where
  "path_cat base path =
     (if base = [] then path
      else (if last base = CHR ''/'' then butlast base else base) @ path)"

section \<open>handle_request\<close>

record web_request = request +
  rq_keep_alive :: bool

datatype body = String_body string | Empty_body | File_body bytes

record response =
  rs_status :: nat
  rs_version :: nat
  rs_server :: string
  rs_content_type :: string
  rs_content_length :: "nat option"
  rs_keep_alive :: bool
  rs_body :: body

text \<open>The world of the server: reading a request from the stream, writing a response to it,
  whether a response needs the end of the stream as its end, opening a file (with its content),
  shutting down, and the version string.\<close>

record 'w web =
  wb_read :: "'w \<Rightarrow> (error_code \<times> web_request) \<times> 'w"
  wb_write :: "'w \<Rightarrow> response \<Rightarrow> error_code \<times> 'w"
  wb_need_eof :: "response \<Rightarrow> bool"
  wb_open :: "'w \<Rightarrow> string \<Rightarrow> error_code \<times> bytes"
  wb_message :: "error_code \<Rightarrow> string"
  wb_shutdown :: "'w \<Rightarrow> 'w"
  wb_server :: string

text \<open>The three responses with a string body; \<open>prepare_payload\<close> sets the length to the body's.\<close>

definition text_response :: "'w web \<Rightarrow> nat \<Rightarrow> web_request \<Rightarrow> string \<Rightarrow> response" where
  "text_response W status req msg =
     \<lparr>rs_status = status, rs_version = rq_version req, rs_server = wb_server W,
      rs_content_type = ''text/html'', rs_content_length = Some (length msg),
      rs_keep_alive = rq_keep_alive req, rs_body = String_body msg\<rparr>"

definition bad_request :: "'w web \<Rightarrow> web_request \<Rightarrow> string \<Rightarrow> response" where
  "bad_request W req why = text_response W 400 req why"

definition not_found :: "'w web \<Rightarrow> web_request \<Rightarrow> string \<Rightarrow> response" where
  "not_found W req target =
     text_response W 404 req (''The resource '' @ [CHR 0x27] @ target @ [CHR 0x27] @ '' was not found.'')"

definition server_error :: "'w web \<Rightarrow> web_request \<Rightarrow> string \<Rightarrow> response" where
  "server_error W req what =
     text_response W 500 req (''An error occurred: '' @ [CHR 0x27] @ what @ [CHR 0x27])"

fun has_dotdot :: "string \<Rightarrow> bool" where
  "has_dotdot (a # b # cs) = (a = CHR ''.'' \<and> b = CHR ''.'' \<or> has_dotdot (b # cs))"
| "has_dotdot _ = False"

definition illegal_target :: "string \<Rightarrow> bool" where
  "illegal_target target \<longleftrightarrow> target = [] \<or> hd target \<noteq> CHR ''/'' \<or> has_dotdot target"

text \<open>The path handed to \<open>open\<close>, a C string.\<close>

definition file_path :: "string \<Rightarrow> string \<Rightarrow> string" where
  "file_path doc_root target =
     (let path = path_cat doc_root target
      in if last target = CHR ''/'' then path @ ''index.html'' else path)"

definition c_str :: "string \<Rightarrow> string" where
  "c_str s = takeWhile (\<lambda>c. c \<noteq> NUL) s"

definition ok_response :: "'w web \<Rightarrow> web_request \<Rightarrow> string \<Rightarrow> nat \<Rightarrow> body \<Rightarrow> response" where
  "ok_response W req path len b =
     \<lparr>rs_status = 200, rs_version = rq_version req, rs_server = wb_server W,
      rs_content_type = mime_type path, rs_content_length = Some len,
      rs_keep_alive = rq_keep_alive req, rs_body = b\<rparr>"

definition handle_request :: "'w web \<Rightarrow> string \<Rightarrow> web_request \<Rightarrow> 'w \<Rightarrow> response" where
  "handle_request W doc_root req w =
     (if rq_verb req \<noteq> Get \<and> rq_verb req \<noteq> Head then bad_request W req ''Unknown HTTP-method''
      else if illegal_target (rq_target req) then bad_request W req ''Illegal request-target''
      else
        (let path = file_path doc_root (rq_target req)
         in case wb_open W w (c_str path) of
              (ec, content) \<Rightarrow>
                if ec_is ec = No_such_file then not_found W req (rq_target req)
                else if failed ec then server_error W req (wb_message W ec)
                else if rq_verb req = Head then ok_response W req path (length content) Empty_body
                else ok_response W req path (length content) (File_body content)))"

section \<open>The session\<close>

datatype session_end = Graceful | Fail error_code string

text \<open>\<open>send_lambda\<close>: the flag it sets, and the error code of the write.\<close>

definition send_lambda :: "'w web \<Rightarrow> response \<Rightarrow> 'w \<Rightarrow> bool \<times> error_code \<times> 'w" where
  "send_lambda W msg w = (case wb_write W w msg of (ec, w') \<Rightarrow> (wb_need_eof W msg, ec, w'))"

partial_function (option) do_session :: "'w web \<Rightarrow> string \<Rightarrow> 'w \<Rightarrow> (session_end \<times> 'w) option" where
  "do_session W doc_root w =
     (case wb_read W w of
        ((ec, req), w1) \<Rightarrow>
          if ec_is ec = End_of_stream then Some (Graceful, wb_shutdown W w1)
          else if failed ec then Some (Fail ec ''read'', w1)
          else
            (case send_lambda W (handle_request W doc_root req w1) w1 of
               (close, ec, w2) \<Rightarrow>
                 if failed ec then Some (Fail ec ''write'', w2)
                 else if close then Some (Graceful, wb_shutdown W w2)
                 else do_session W doc_root w2))"

section \<open>Listening and the command line\<close>

datatype listen_event = Accept_failed error_code | Session_spawned

text \<open>
  Setting up the acceptor, given the answers to \<open>open\<close>, \<open>set_option\<close>, \<open>bind\<close> and \<open>listen\<close>: the
  failure reported, if any. Then the loop, on the error codes of the accepts that complete.
\<close>

definition listen_setup :: "error_code \<Rightarrow> error_code \<Rightarrow> error_code \<Rightarrow> error_code \<Rightarrow> (error_code \<times> string) option" where
  "listen_setup opened option_set bound listening =
     (if failed opened then Some (opened, ''open'')
      else if failed option_set then Some (option_set, ''set_option'')
      else if failed bound then Some (bound, ''bind'')
      else if failed listening then Some (listening, ''listen'')
      else None)"

fun do_listen :: "error_code list \<Rightarrow> listen_event list" where
  "do_listen [] = []"
| "do_listen (ec # ecs) = (if failed ec then Accept_failed ec else Session_spawned) # do_listen ecs"

text \<open>\<open>std::atoi\<close>: 0 without digits; beyond \<open>int\<close> its behaviour is undefined.\<close>

definition atoi :: "string \<Rightarrow> exn + int" where
  "atoi s =
     (case stoi s of
        Inr v \<Rightarrow> Inr v
      | Inl (Std_exception x) \<Rightarrow>
          if x = ''invalid_argument'' then Inr 0 else Inl (Undefined ''atoi out of range'')
      | Inl e \<Rightarrow> Inl e)"

datatype web_main = Usage | Serve int string int

text \<open>The port, the document root and the number of threads that run the context; the address is
  parsed by Asio.\<close>

definition web_main_args :: "string list \<Rightarrow> exn + web_main" where
  "web_main_args argv =
     (case argv of
        [prog, address, port_arg, root, threads_arg] \<Rightarrow>
          (case atoi port_arg of
             Inl e \<Rightarrow> Inl e
           | Inr p \<Rightarrow>
               (case atoi threads_arg of
                  Inl e \<Rightarrow> Inl e
                | Inr t \<Rightarrow> Inr (Serve (p mod 65536) root (if 1 < t then t else 1))))
      | _ \<Rightarrow> Inr Usage)"

section \<open>Paths and their meaning\<close>

text \<open>
  The components of a path, and where they lead, as the list of names from the root of the file
  system: an absolute path starts at that root and another one in the working directory, and two dots
  lead one directory up. Links in the file system are not followed.
\<close>

fun components :: "string \<Rightarrow> string list" where
  "components [] = [[]]"
| "components (c # cs) =
     (if c = CHR ''/'' then [] # components cs
      else case components cs of [] \<Rightarrow> [[c]] | d # ds \<Rightarrow> (c # d) # ds)"

definition descend :: "string list \<Rightarrow> string \<Rightarrow> string list" where
  "descend ds d =
     (if d = [] \<or> d = ''.'' then ds
      else if d = ''..'' then butlast ds
      else ds @ [d])"

definition is_absolute :: "string \<Rightarrow> bool" where
  "is_absolute path \<longleftrightarrow> path \<noteq> [] \<and> hd path = CHR ''/''"

definition resolve :: "string list \<Rightarrow> string \<Rightarrow> string list" where
  "resolve cwd path = foldl descend (if is_absolute path then [] else cwd) (components path)"

text \<open>Names of entries of a directory.\<close>

definition names :: "string list \<Rightarrow> bool" where
  "names ds \<longleftrightarrow> [] \<notin> set ds \<and> ''.'' \<notin> set ds \<and> ''..'' \<notin> set ds"

lemma components_nonempty [simp]: "components s \<noteq> []"
  by (cases s) (auto split: list.split)

lemma components_slash: "components (a @ CHR ''/'' # b) = components a @ components b"
  by (induction a) (auto split: list.splits)

lemma has_dotdot_Cons: "\<not> has_dotdot (c # cs) \<Longrightarrow> \<not> has_dotdot cs"
  by (cases cs) auto

lemma components_no_dotdot: "\<not> has_dotdot s \<Longrightarrow> ''..'' \<notin> set (components s)"
proof (induction s)
  case (Cons c cs)
  have cs: "\<not> has_dotdot cs" using Cons.prems by (rule has_dotdot_Cons)
  note IH = Cons.IH [OF cs]
  show ?case
  proof (cases "c = CHR ''/''")
    case True
    with IH show ?thesis by simp
  next
    case False
    obtain d ds where d: "components cs = d # ds" by (cases "components cs") auto
    have "c # d \<noteq> ''..''"
    proof
      assume e: "c # d = ''..''"
      then have "c = CHR ''.''" "d = ''.''" by auto
      with d have "\<exists>cs'. cs = CHR ''.'' # cs'"
        by (cases cs) (auto split: list.splits if_splits)
      with Cons.prems \<open>c = CHR ''.''\<close> show False by auto
    qed
    with IH d False show ?thesis by auto
  qed
qed simp

lemma descend_below: "''..'' \<notin> set ds \<Longrightarrow> \<exists>rest. foldl descend base ds = base @ rest \<and> names rest"
proof (induction ds arbitrary: base)
  case (Cons d ds)
  then have ds: "''..'' \<notin> set ds" by simp
  from Cons.prems have "descend base d = base \<or> descend base d = base @ [d] \<and> names [d]"
    by (auto simp: descend_def names_def)
  then show ?case
  proof
    assume "descend base d = base"
    with Cons.IH [OF ds, of base] show ?thesis by simp
  next
    assume d: "descend base d = base @ [d] \<and> names [d]"
    with Cons.IH [OF ds, of "base @ [d]"] obtain rest where "foldl descend base (d # ds) = base @ d # rest" "names rest"
      by auto
    with d show ?thesis by (intro exI [of _ "d # rest"]) (simp add: names_def)
  qed
qed (simp add: names_def)

lemma has_dotdot_take: "has_dotdot (takeWhile P s) \<Longrightarrow> has_dotdot s"
proof (induction s)
  case (Cons a s)
  then have "P a" and t: "has_dotdot (a # takeWhile P s)" by (auto split: if_splits)
  obtain b cs where b: "takeWhile P s = b # cs" using t by (cases "takeWhile P s") auto
  then obtain s' where s: "s = b # s'" by (cases s) (auto split: if_splits)
  with t b Cons.IH show ?case by auto
qed simp

lemma has_dotdot_index:
  assumes "\<not> has_dotdot t" and "t \<noteq> []" and "last t = CHR ''/''"
  shows "\<not> has_dotdot (t @ ''index.html'')"
  using assms by (induction t rule: has_dotdot.induct) (auto split: if_splits)

lemma resolve_append_slash:
  assumes "\<not> has_dotdot rest" and "base \<noteq> []"
  shows "\<exists>ds. resolve cwd (base @ CHR ''/'' # rest) = resolve cwd base @ ds \<and> names ds"
proof -
  have "is_absolute (base @ CHR ''/'' # rest) = is_absolute base" using assms(2) by (simp add: is_absolute_def)
  with descend_below [OF components_no_dotdot [OF assms(1)]] show ?thesis
    unfolding resolve_def components_slash foldl_append by simp
qed

text \<open>An empty document root is the root of the file system.\<close>

definition root_dir :: "string list \<Rightarrow> string \<Rightarrow> string list" where
  "root_dir cwd root = (if root = [] then [] else resolve cwd root)"

lemma resolve_target:
  assumes "\<not> has_dotdot rest"
  shows "\<exists>ds. resolve cwd (CHR ''/'' # rest) = ds \<and> names ds"
  using descend_below [OF components_no_dotdot [OF assms], of "[]"] by (simp add: resolve_def is_absolute_def descend_def)

lemma legal_path_below:
  assumes "\<not> has_dotdot (CHR ''/'' # rest)"
  shows "\<exists>ds. resolve cwd (path_cat root (CHR ''/'' # rest)) = root_dir cwd root @ ds \<and> names ds"
proof -
  note rest = has_dotdot_Cons [OF assms]
  consider (none) "root = []" | (slash) "root = ''/''" | (more) "root \<noteq> []" "root \<noteq> ''/''" by blast
  then show ?thesis
  proof cases
    case none
    with resolve_target [OF rest] show ?thesis by (simp add: path_cat_def root_dir_def)
  next
    case slash
    then have "root_dir cwd root = []" by (simp add: root_dir_def resolve_def is_absolute_def descend_def)
    with slash resolve_target [OF rest] show ?thesis by (simp add: path_cat_def)
  next
    case more
    let ?base = "if last root = CHR ''/'' then butlast root else root"
    have "?base \<noteq> [] \<and> resolve cwd ?base = resolve cwd root"
    proof (cases "last root = CHR ''/''")
      case True
      with append_butlast_last_id [OF more(1)] have r: "root = butlast root @ ''/''" by simp
      with more have ne: "butlast root \<noteq> []" by (metis append_Nil)
      then have "is_absolute (butlast root @ ''/'') = is_absolute (butlast root)" by (simp add: is_absolute_def)
      then have "resolve cwd (butlast root @ ''/'') = resolve cwd (butlast root)"
        using components_slash [of "butlast root" "[]"] by (simp add: resolve_def descend_def)
      with True ne r show ?thesis by simp
    qed (use more in simp)
    with resolve_append_slash [OF rest, of ?base cwd] more(1) show ?thesis by (simp add: path_cat_def root_dir_def)
  qed
qed

lemma path_cat_append: "base \<noteq> [] \<Longrightarrow> path_cat base a @ b = path_cat base (a @ b)"
  by (simp add: path_cat_def)

lemma c_str_path_cat:
  assumes "NUL \<notin> set root"
  shows "c_str (path_cat root t) = path_cat root (c_str t)"
proof -
  have "takeWhile (\<lambda>c. c \<noteq> NUL) (b @ t) = b @ takeWhile (\<lambda>c. c \<noteq> NUL) t" if "set b \<subseteq> set root" for b
    using assms that by (intro takeWhile_append2) auto
  moreover have "set (butlast root) \<subseteq> set root" by (auto dest: in_set_butlastD)
  ultimately show ?thesis by (simp add: c_str_def path_cat_def)
qed

text \<open>What is opened for a legal target lies below the document root.\<close>

lemma opened_below:
  assumes "\<not> illegal_target target" and "NUL \<notin> set root"
  shows "\<exists>ds. resolve cwd (c_str (file_path root target)) = root_dir cwd root @ ds \<and> names ds"
proof -
  from assms(1) obtain t where t: "target = CHR ''/'' # t" and d: "\<not> has_dotdot target"
    by (cases target) (auto simp: illegal_target_def)
  define full where "full = (if last target = CHR ''/'' then target @ ''index.html'' else target)"
  have "\<not> has_dotdot full"
    using d t has_dotdot_index [OF d] by (simp add: full_def del: has_dotdot.simps)
  then have "\<not> has_dotdot (c_str full)" using has_dotdot_take unfolding c_str_def by blast
  moreover have "\<exists>full'. full = CHR ''/'' # full'" by (simp add: full_def t)
  then obtain rest where "c_str full = CHR ''/'' # rest" by (auto simp: c_str_def)
  moreover have "file_path root target = path_cat root full"
    by (auto simp: file_path_def full_def Let_def path_cat_def)
  ultimately show ?thesis
    using legal_path_below [of rest cwd root] c_str_path_cat [OF assms(2), of full] by simp
qed

section \<open>Properties\<close>

text \<open>
  C23: Nothing outside the document root is served. Whatever the working directory, a file for which
  the answer is 200 was asked for by a GET or HEAD of an absolute target without two dots in a row, and
  its path leads, component by component, from the document root down through names only: no
  component of the way is \<open>..\<close>, and an absolute path is not taken for a relative one. (An empty
  document root stands for the root of the file system.) The answer carries that file's content or, for
  HEAD, its length.
\<close>
theorem served_file_below_root:
  assumes "NUL \<notin> set doc_root" and "rs_status (handle_request W doc_root req w) = 200"
  defines "path \<equiv> c_str (file_path doc_root (rq_target req))"
  shows "(\<exists>ds. resolve cwd path = (if doc_root = [] then [] else resolve cwd doc_root) @ ds \<and>
            ''..'' \<notin> set ds \<and> ''.'' \<notin> set ds \<and> [] \<notin> set ds) \<and>
         rq_verb req \<in> {Get, Head} \<and> is_absolute (rq_target req) \<and> \<not> has_dotdot (rq_target req) \<and>
         \<not> failed (fst (wb_open W w path)) \<and>
         rs_content_length (handle_request W doc_root req w) = Some (length (snd (wb_open W w path))) \<and>
         rs_body (handle_request W doc_root req w) =
           (if rq_verb req = Head then Empty_body else File_body (snd (wb_open W w path)))"
proof -
  obtain ec content where op: "wb_open W w path = (ec, content)" by fastforce
  have leg: "\<not> illegal_target (rq_target req)"
    using assms(2) by (auto simp: handle_request_def bad_request_def text_response_def split: if_splits)
  have below: "\<exists>ds. resolve cwd path = (if doc_root = [] then [] else resolve cwd doc_root) @ ds \<and>
      ''..'' \<notin> set ds \<and> ''.'' \<notin> set ds \<and> [] \<notin> set ds"
    using opened_below [OF leg assms(1), of cwd] by (auto simp: path_def root_dir_def names_def)
  have "is_absolute (rq_target req)" "\<not> has_dotdot (rq_target req)"
    using leg by (auto simp: illegal_target_def is_absolute_def)
  moreover have "rq_verb req \<in> {Get, Head} \<and> \<not> failed ec \<and>
      rs_content_length (handle_request W doc_root req w) = Some (length content) \<and>
      rs_body (handle_request W doc_root req w) = (if rq_verb req = Head then Empty_body else File_body content)"
    using assms(2) op leg unfolding path_def
    by (auto simp: handle_request_def bad_request_def not_found_def server_error_def text_response_def
        ok_response_def Let_def split: if_splits)
  ultimately show ?thesis using below op by simp
qed

text \<open>A server with one file and a fixed list of requests to read; it keeps what it wrote.\<close>

type_synonym demo_web = "web_request list \<times> response list"

definition demo_web :: "demo_web web" where
  "demo_web =
     \<lparr>wb_read = (\<lambda>w. case fst w of
        [] \<Rightarrow> ((\<lparr>ec_is = End_of_stream, ec_value = 1\<rparr>,
                 \<lparr>rq_verb = Get, rq_method_string = [], rq_target = [], rq_version = 11, rq_fields = [],
                  rq_keep_alive = False\<rparr>), w)
      | r # rs \<Rightarrow> ((no_error, r), (rs, snd w))),
      wb_write = (\<lambda>w r. (no_error, (fst w, snd w @ [r]))),
      wb_need_eof = (\<lambda>r.
        if rs_content_length r \<noteq> None \<or> rs_status r < 200 \<or> rs_status r \<in> {204, 304} then \<not> rs_keep_alive r else True),
      wb_open = (\<lambda>w p. if p = ''/srv/index.html'' then (no_error, ''hello'')
        else (\<lparr>ec_is = No_such_file, ec_value = 2\<rparr>, [])),
      wb_message = (\<lambda>ec. ''error''),
      wb_shutdown = (\<lambda>w. w),
      wb_server = ''Beast''\<rparr>"

definition demo_get :: web_request where
  "demo_get = \<lparr>rq_verb = Get, rq_method_string = ''GET'', rq_target = ''/'', rq_version = 11,
     rq_fields = [], rq_keep_alive = True\<rparr>"

lemma demo_get_response:
  "handle_request demo_web ''/srv/'' demo_get w =
     \<lparr>rs_status = 200, rs_version = 11, rs_server = ''Beast'', rs_content_type = ''text/html'',
      rs_content_length = Some 5, rs_keep_alive = True, rs_body = File_body ''hello''\<rparr>"
proof -
  have "c_str (file_path ''/srv/'' ''/'') = ''/srv/index.html''" by code_simp
  moreover have "mime_type (file_path ''/srv/'' ''/'') = ''text/html''" by code_simp
  moreover have "\<not> illegal_target ''/''" by code_simp
  ultimately show ?thesis
    by (simp add: handle_request_def demo_get_def demo_web_def ok_response_def no_error_def failed_def Let_def)
qed

theorem served_file_below_root_witness:
  "rs_status (handle_request demo_web ''/srv/'' demo_get ([], [])) = 200 \<and>
   rs_body (handle_request demo_web ''/srv/'' demo_get ([], [])) = File_body ''hello'' \<and>
   (\<exists>ds. resolve [''home''] (c_str (file_path ''/srv/'' ''/'')) = [''srv''] @ ds \<and> ''..'' \<notin> set ds)"
proof -
  have "resolve [''home''] ''/srv/'' = [''srv'']" by code_simp
  moreover have "rs_status (handle_request demo_web ''/srv/'' demo_get ([], [])) = 200" by (simp add: demo_get_response)
  note served_file_below_root [OF _ this, of "[''home'']"]
  ultimately show ?thesis by (simp add: demo_get_response) (auto simp: demo_get_def)
qed

text \<open>
  A HEAD request gets the header of the GET response. When the file can be served the two
  responses differ only in the body, which HEAD does not get; when it cannot, the responses are
  the same one, so the body of the error is sent in answer to a HEAD as well.
\<close>
lemma head_response_is_get_response:
  "let resp = \<lambda>v. handle_request W doc_root (req\<lparr>rq_verb := v\<rparr>) w in
         resp Head = (if rs_status (resp Get) = 200 then (resp Get)\<lparr>rs_body := Empty_body\<rparr> else resp Get) \<and>
         rs_status (resp Get) \<in> {200, 400, 404, 500} \<and>
         (\<exists>len. rs_content_length (resp Head) = Some len) \<and> rs_keep_alive (resp Head) = rq_keep_alive req"
  by (simp add: handle_request_def bad_request_def not_found_def server_error_def text_response_def
      ok_response_def Let_def split: prod.split)

text \<open>
  A stream that delivers the requests of \<open>inp w\<close> and then ends, and takes every response. As Beast
  documents, a response that can have a body and states no length needs the end of the stream as its
  end, and any other one needs it exactly when it does not keep the connection alive.
\<close>

definition script_contract :: "'w web \<Rightarrow> ('w \<Rightarrow> web_request list) \<Rightarrow> ('w \<Rightarrow> response list) \<Rightarrow> bool" where
  "script_contract W inp out \<longleftrightarrow>
     (\<forall>w. inp w = [] \<longrightarrow> ec_is (fst (fst (wb_read W w))) = End_of_stream \<and> out (snd (wb_read W w)) = out w) \<and>
     (\<forall>w r rs. inp w = r # rs \<longrightarrow>
        \<not> failed (fst (fst (wb_read W w))) \<and> snd (fst (wb_read W w)) = r \<and>
        inp (snd (wb_read W w)) = rs \<and> out (snd (wb_read W w)) = out w) \<and>
     (\<forall>w m. \<not> failed (fst (wb_write W w m)) \<and> inp (snd (wb_write W w m)) = inp w \<and>
        out (snd (wb_write W w m)) = out w @ [m]) \<and>
     (\<forall>w. out (wb_shutdown W w) = out w) \<and>
     (\<forall>m. wb_need_eof W m =
        (if rs_content_length m \<noteq> None \<or> rs_status m < 200 \<or> rs_status m \<in> {204, 304} then \<not> rs_keep_alive m
         else True)) \<and>
     (\<forall>w w'. wb_open W w = wb_open W w')"

text \<open>The requests a session answers: up to the first one that does not keep alive.\<close>

fun answered :: "web_request list \<Rightarrow> web_request list" where
  "answered [] = []"
| "answered (r # rs) = (if rq_keep_alive r then r # answered rs else [r])"

lemma handle_request_world:
  assumes "wb_open W w = wb_open W w'"
  shows "handle_request W root req w = handle_request W root req w'"
  using assms by (simp add: handle_request_def)

lemma response_keep_alive: "rs_keep_alive (handle_request W root req w) = rq_keep_alive req"
  by (simp add: handle_request_def bad_request_def not_found_def server_error_def text_response_def
      ok_response_def Let_def split: prod.split)

lemma response_length: "rs_content_length (handle_request W root req w) \<noteq> None"
  by (auto simp: handle_request_def bad_request_def not_found_def server_error_def text_response_def
      ok_response_def Let_def split: prod.split)

text \<open>
  C13: A session answers its requests in order. On such a stream it ends gracefully, having
  written exactly one response for each request up to the first that does not keep the
  connection alive, in the order the requests came. (Every response states its length, so the
  connection is not closed for want of it.)
\<close>
theorem session_answers_in_order:
  assumes "script_contract W inp out"
  shows "\<exists>w'. do_session W root w = Some (Graceful, w') \<and>
           out w' = out w @ map (\<lambda>r. handle_request W root r w) (answered (inp w))"
proof (induction "length (inp w)" arbitrary: w)
  case 0
  obtain ec req w1 where rd: "wb_read W w = ((ec, req), w1)" by (metis surj_pair)
  from assms 0 rd have "ec_is ec = End_of_stream" "out w1 = out w"
    unfolding script_contract_def by (metis fst_conv snd_conv length_0_conv)+
  moreover have "out (wb_shutdown W w1) = out w1" using assms unfolding script_contract_def by blast
  ultimately show ?case using 0 rd by (subst do_session.simps) simp
next
  case (Suc n)
  then obtain r rs where inp: "inp w = r # rs" by (cases "inp w") auto
  obtain ec req w1 where rd: "wb_read W w = ((ec, req), w1)" by (metis surj_pair)
  from assms inp rd have w1: "\<not> failed ec" "req = r" "inp w1 = rs" "out w1 = out w"
    unfolding script_contract_def by (metis fst_conv snd_conv)+
  have files: "wb_open W v = wb_open W w" for v
    using assms unfolding script_contract_def by blast
  have same: "handle_request W root q v = handle_request W root q w" for q v
    by (rule handle_request_world) (rule files)
  let ?m = "handle_request W root r w"
  obtain ec2 w2 where wr: "wb_write W w1 ?m = (ec2, w2)" by fastforce
  from assms wr have w2: "\<not> failed ec2" "inp w2 = inp w1" "out w2 = out w1 @ [?m]"
    unfolding script_contract_def by (metis fst_conv snd_conv)+
  have "wb_need_eof W ?m \<longleftrightarrow> \<not> rs_keep_alive ?m"
    using assms response_length [of W root r w] unfolding script_contract_def by simp
  then have eof: "wb_need_eof W ?m \<longleftrightarrow> \<not> rq_keep_alive r" by (simp only: response_keep_alive)
  have sh: "out (wb_shutdown W w2) = out w2" using assms unfolding script_contract_def by blast
  have eos: "ec_is ec \<noteq> End_of_stream" using w1(1) by (auto simp: failed_def)
  show ?case
  proof (cases "rq_keep_alive r")
    case False
    with rd wr w1 w2 eof sh eos inp same [of r w1] show ?thesis
      by (subst do_session.simps) (simp add: send_lambda_def)
  next
    case True
    have "n = length (inp w2)" using Suc.hyps(2) inp w1 w2 by simp
    from Suc.hyps(1) [OF this] obtain w' where w': "do_session W root w2 = Some (Graceful, w')"
      "out w' = out w2 @ map (\<lambda>r. handle_request W root r w) (answered (inp w2))"
      by (auto simp: same [of _ w2])
    from True rd wr w1 w2 eof eos same [of r w1]
    have "do_session W root w = do_session W root w2"
      by (subst do_session.simps) (simp add: send_lambda_def)
    with w' True inp w1 w2 show ?thesis by simp
  qed
qed

lemma demo_web_script: "script_contract demo_web fst snd"
  by (auto simp: script_contract_def demo_web_def no_error_def failed_def fun_eq_iff)

theorem session_answers_in_order_witness:
  "\<exists>w'. do_session demo_web ''/srv/'' ([demo_get, demo_get\<lparr>rq_keep_alive := False\<rparr>, demo_get], []) =
          Some (Graceful, w') \<and> length (snd w') = 2"
  using session_answers_in_order [OF demo_web_script, of "''/srv/''"
    "([demo_get, demo_get\<lparr>rq_keep_alive := False\<rparr>, demo_get], [])"]
  by (auto simp: demo_get_def)

lemma extension_suffix: "CHR ''.'' \<notin> set x \<Longrightarrow> extension (p @ CHR ''.'' # x) = CHR ''.'' # x"
proof -
  assume "CHR ''.'' \<notin> set x"
  then have "takeWhile (\<lambda>c. c \<noteq> CHR ''.'') (rev x @ CHR ''.'' # rev p) = rev x"
    by (subst takeWhile_append2) auto
  then show ?thesis by (simp add: extension_def)
qed

lemma first_match_lookup:
  assumes "distinct (map (map ascii_tolower \<circ> fst) ets)" and "(e, t) \<in> set ets" and "iequals ext e"
  shows "first_match ext ets = t"
  using assms
proof (induction ext ets rule: first_match.induct)
  case (2 ext e' t' ets)
  show ?case
  proof (cases "iequals ext e'")
    case True
    with 2(4) have "map ascii_tolower e = map ascii_tolower e'" by (simp add: iequals_def)
    with 2(2,3) have "(e, t) = (e', t')" by (force simp: image_iff)
    with True show ?thesis by simp
  qed (use 2 in \<open>auto simp: iequals_def\<close>)
qed simp

text \<open>
  The media type of a path is the table's entry for its extension, whatever the case of its
  letters: a path that ends in a dot and an extension of the table, in any case, has that
  entry's type, and one without a dot the default type.
\<close>
lemma mime_type_by_extension:
  assumes "(e, t) \<in> set mime_table" and "iequals (CHR ''.'' # x) e" and "CHR ''.'' \<notin> set x"
  shows "mime_type (p @ CHR ''.'' # x) = t \<and>
         (\<forall>q. CHR ''.'' \<notin> set q \<longrightarrow> mime_type q = ''application/text'')"
proof -
  have "distinct (map (map ascii_tolower \<circ> fst) mime_table)" by code_simp
  moreover have "first_match [] mime_table = ''application/text''" by code_simp
  ultimately show ?thesis
    using first_match_lookup [OF _ assms(1,2)]
    by (simp add: mime_type_def extension_suffix [OF assms(3)]) (simp add: extension_def)
qed

lemma mime_type_by_extension_example: "mime_type (''/a.b/c'' @ CHR ''.'' # ''HtMl'') = ''text/html''"
proof -
  have "(''.html'', ''text/html'') \<in> set mime_table" by (simp add: mime_table_def)
  moreover have "iequals (CHR ''.'' # ''HtMl'') ''.html''" by code_simp
  ultimately show ?thesis
    using mime_type_by_extension [of "''.html''" "''text/html''" "''HtMl''" "''/a.b/c''"] by simp
qed

text \<open>
  The command line. With a decimal port and thread count that fit an \<open>int\<close> the server is
  started on the port taken modulo 2^16, so a port that is too large is not refused but wraps,
  and with at least one thread; with any other number of arguments the usage is printed.
\<close>
lemma main_arguments:
  assumes "int n \<le> INT_MAX" and "int m \<le> INT_MAX"
  shows "web_main_args [prog, address, dec n, root, dec m] = Inr (Serve (int (n mod 65536)) root (int (max 1 m))) \<and>
         (length argv \<noteq> 5 \<longrightarrow> web_main_args argv = Inr Usage)"
proof
  show "web_main_args [prog, address, dec n, root, dec m] = Inr (Serve (int (n mod 65536)) root (int (max 1 m)))"
    using stoi_dec [OF assms(1)] stoi_dec [OF assms(2)]
    by (simp add: web_main_args_def atoi_def zmod_int max_def)
  show "length argv \<noteq> 5 \<longrightarrow> web_main_args argv = Inr Usage"
    by (auto simp: web_main_args_def split: list.split)
qed

lemma main_arguments_example:
  "web_main_args [''http'', ''0.0.0.0'', dec 65616, ''.'', dec 0] = Inr (Serve 80 ''.'' 1)"
  using main_arguments [of 65616 0 "''http''" "''0.0.0.0''" "''.''" "[]"] by (simp add: INT_MAX_def)

end
