(* ===== verification/ChatServer.thy ===== *)
theory ChatServer
  imports BeastEnv
begin

text \<open>
  \<open>boost_cpp/tcp-chat-server.cpp\<close>: sessions with a queue of outgoing messages, of which at most one
  is being written, and a server that broadcasts to its clients. The asynchronous operations are
  flags of the session; their completions are the steps of the server, in any order. Three
  history variables record what was posted to a session, what was written to its socket, and
  what the server broadcast; no operation reads them.
\<close>

section \<open>Sessions\<close>

record session =
  ss_open :: bool
  ss_streambuf :: bytes
  ss_outgoing :: "string list"
  ss_writing :: "string option"
  ss_reading :: bool
  ss_joined :: nat
  ss_posted :: "string list"
  ss_delivered :: "string list"

definition session_new :: "nat \<Rightarrow> session" where
  "session_new joined =
     \<lparr>ss_open = True, ss_streambuf = [], ss_outgoing = [], ss_writing = None, ss_reading = False,
      ss_joined = joined, ss_posted = [], ss_delivered = []\<rparr>"

text \<open>\<open>async_read\<close> and \<open>async_write\<close>; the buffer written is the front of the queue.\<close>

definition ss_async_read :: "session \<Rightarrow> session" where
  "ss_async_read s = s\<lparr>ss_reading := True\<rparr>"

definition ss_async_write :: "session \<Rightarrow> session" where
  "ss_async_write s = s\<lparr>ss_writing := Some (hd (ss_outgoing s))\<rparr>"

definition ss_post :: "string \<Rightarrow> session \<Rightarrow> session" where
  "ss_post message s =
     (let idle = (ss_outgoing s = []);
          s1 = s\<lparr>ss_outgoing := ss_outgoing s @ [message], ss_posted := ss_posted s @ [message]\<rparr>
      in if idle then ss_async_write s1 else s1)"

text \<open>The state of a session whose socket was closed by an error.\<close>

definition ss_close :: "session \<Rightarrow> session" where
  "ss_close s = s\<lparr>ss_open := False\<rparr>"

section \<open>The server\<close>

record chat =
  ch_sessions :: "nat \<Rightarrow> session option"
  ch_clients :: "nat list"
  ch_next :: nat
  ch_log :: "string list"
  ch_left :: "nat list"

definition chat_new :: chat where
  "chat_new = \<lparr>ch_sessions = Map.empty, ch_clients = [], ch_next = 0, ch_log = [], ch_left = []\<rparr>"

definition on_session :: "nat \<Rightarrow> (session \<Rightarrow> session) \<Rightarrow> chat \<Rightarrow> chat" where
  "on_session c f ch = ch\<lparr>ch_sessions := (ch_sessions ch)(c := map_option f (ch_sessions ch c))\<rparr>"

definition ch_post :: "string \<Rightarrow> chat \<Rightarrow> chat" where
  "ch_post message ch =
     (foldl (\<lambda>ch c. on_session c (ss_post message) ch) ch (ch_clients ch))
       \<lparr>ch_log := ch_log ch @ [message]\<rparr>"

definition welcome_msg :: string where
  "welcome_msg = ''Welcome to chat'' @ [LF, CR]"

definition newcomer_msg :: string where
  "newcomer_msg = ''We have a newcomer'' @ [LF, CR]"

definition one_less_msg :: string where
  "one_less_msg = ''We are one less'' @ [LF, CR]"

text \<open>The accept handler, which does not look at its error code.\<close>

definition on_accept :: "chat \<Rightarrow> chat" where
  "on_accept ch =
     (let client = ch_next ch;
          ch1 = ch\<lparr>ch_sessions := (ch_sessions ch)(client \<mapsto> session_new (Suc (length (ch_log ch)))),
                   ch_next := Suc client\<rparr>;
          ch2 = on_session client (ss_post welcome_msg) ch1;
          ch3 = ch_post newcomer_msg ch2;
          ch4 = ch3\<lparr>ch_clients := ch_clients ch3 @ [client]\<rparr>
      in on_session client ss_async_read ch4)"

text \<open>The \<open>on_error\<close> handler: \<open>erase\<close> tells whether the client was still there.\<close>

definition on_error :: "nat \<Rightarrow> chat \<Rightarrow> chat" where
  "on_error c ch =
     (if c \<in> set (ch_clients ch)
      then ch_post one_less_msg (ch\<lparr>ch_clients := remove1 c (ch_clients ch), ch_left := ch_left ch @ [c]\<rparr>)
      else ch)"

text \<open>
  \<open>on_read\<close>. Inserting \<open>rdbuf()\<close> into the message takes every byte the buffer holds, not only those
  up to the delimiter, so nothing is left for \<open>consume\<close>.
\<close>

definition on_read_ok :: "nat \<Rightarrow> string \<Rightarrow> nat \<Rightarrow> chat \<Rightarrow> chat" where
  "on_read_ok c endpoint bytes_transferred ch =
     (case ch_sessions ch c of
        None \<Rightarrow> ch
      | Some s \<Rightarrow>
          let message = endpoint @ '': '' @ ss_streambuf s;
              extracted = [];
              ch1 = on_session c (\<lambda>s. s\<lparr>ss_reading := False, ss_streambuf := drop bytes_transferred extracted\<rparr>) ch
          in on_session c ss_async_read (ch_post message ch1))"

definition on_read_err :: "nat \<Rightarrow> chat \<Rightarrow> chat" where
  "on_read_err c ch = on_error c (on_session c (\<lambda>s. ss_close (s\<lparr>ss_reading := False\<rparr>)) ch)"

definition on_write_ok :: "nat \<Rightarrow> chat \<Rightarrow> chat" where
  "on_write_ok c ch =
     on_session c (\<lambda>s.
       let s1 = s\<lparr>ss_writing := None, ss_delivered := ss_delivered s @ [the (ss_writing s)],
                  ss_outgoing := tl (ss_outgoing s)\<rparr>
       in if ss_outgoing s1 \<noteq> [] then ss_async_write s1 else s1) ch"

definition on_write_err :: "nat \<Rightarrow> chat \<Rightarrow> chat" where
  "on_write_err c ch = on_error c (on_session c (\<lambda>s. ss_close (s\<lparr>ss_writing := None\<rparr>)) ch)"

text \<open>
  The steps: a completion may come for any operation that is outstanding, also for one of a socket
  that was closed after it succeeded and before its handler ran. A read completes when
  the received bytes include the delimiter; \<open>bs\<close> are the bytes that were read for it.
\<close>

inductive ch_step :: "chat \<Rightarrow> chat \<Rightarrow> bool" where
  Chat_accept: "ch_step ch (on_accept ch)"
| Chat_read: "ch_sessions ch c = Some s \<Longrightarrow> ss_reading s \<Longrightarrow>
      LF \<in> set (ss_streambuf s @ bs) \<Longrightarrow>
      ch_step ch (on_read_ok c endpoint n
        (on_session c (\<lambda>s. s\<lparr>ss_streambuf := ss_streambuf s @ bs\<rparr>) ch))"
| Chat_read_err: "ch_sessions ch c = Some s \<Longrightarrow> ss_reading s \<Longrightarrow> ch_step ch (on_read_err c ch)"
| Chat_write: "ch_sessions ch c = Some s \<Longrightarrow> ss_writing s \<noteq> None \<Longrightarrow>
      ch_step ch (on_write_ok c ch)"
| Chat_write_err: "ch_sessions ch c = Some s \<Longrightarrow> ss_writing s \<noteq> None \<Longrightarrow> ch_step ch (on_write_err c ch)"

inductive ch_reachable :: "chat \<Rightarrow> bool" where
  Reach_new: "ch_reachable chat_new"
| Reach_step: "ch_reachable ch \<Longrightarrow> ch_step ch ch' \<Longrightarrow> ch_reachable ch'"

section \<open>The invariant\<close>

text \<open>Of one session: it delivers what was posted, in order, and writes the front of its queue.\<close>

definition ss_wf :: "session \<Rightarrow> bool" where
  "ss_wf s \<longleftrightarrow>
     ss_delivered s @ ss_outgoing s = ss_posted s \<and>
     (\<forall>m. ss_writing s = Some m \<longrightarrow> ss_outgoing s \<noteq> [] \<and> m = hd (ss_outgoing s)) \<and>
     (ss_open s \<longrightarrow> ss_outgoing s \<noteq> [] \<longrightarrow> ss_writing s \<noteq> None)"

text \<open>Of a client: its socket is open, it is reading, and it was posted the broadcasts since it
  joined, after the welcome.\<close>

definition client_wf :: "string list \<Rightarrow> session \<Rightarrow> bool" where
  "client_wf log s \<longleftrightarrow>
     ss_open s \<and> ss_joined s \<le> length log \<and> ss_posted s = welcome_msg # drop (ss_joined s) log"

definition ch_wf :: "chat \<Rightarrow> bool" where
  "ch_wf ch \<longleftrightarrow>
     (\<forall>c s. ch_sessions ch c = Some s \<longrightarrow> ss_wf s \<and> c < ch_next ch) \<and>
     (\<forall>c \<in> set (ch_clients ch). \<exists>s. ch_sessions ch c = Some s \<and> client_wf (ch_log ch) s) \<and>
     distinct (ch_left ch @ ch_clients ch) \<and> (\<forall>c \<in> set (ch_left ch). c < ch_next ch)"

lemma ss_wf_post [wf_intros]: "ss_wf s \<Longrightarrow> ss_wf (ss_post m s)"
  by (auto simp: ss_wf_def ss_post_def ss_async_write_def Let_def)

lemma ss_wf_new: "ss_wf (session_new j)"
  by (simp add: ss_wf_def session_new_def)

lemma ss_post_simps [simp]:
  "ss_open (ss_post m s) = ss_open s" "ss_joined (ss_post m s) = ss_joined s"
  "ss_posted (ss_post m s) = ss_posted s @ [m]" "ss_reading (ss_post m s) = ss_reading s"
  by (simp_all add: ss_post_def ss_async_write_def Let_def)

lemma client_wf_post: "client_wf log s \<Longrightarrow> client_wf (log @ [m]) (ss_post m s)"
  by (simp add: client_wf_def)

text \<open>A broadcast, session by session.\<close>

lemma foldl_sessions:
  "distinct cs \<Longrightarrow>
     ch_sessions (foldl (\<lambda>ch c. on_session c f ch) ch cs) =
       (\<lambda>c. if c \<in> set cs then map_option f (ch_sessions ch c) else ch_sessions ch c)"
  by (induction cs arbitrary: ch) (auto simp: on_session_def fun_eq_iff)

lemma foldl_other:
  "ch_clients (foldl (\<lambda>ch c. on_session c f ch) ch cs) = ch_clients ch"
  "ch_next (foldl (\<lambda>ch c. on_session c f ch) ch cs) = ch_next ch"
  "ch_left (foldl (\<lambda>ch c. on_session c f ch) ch cs) = ch_left ch"
  by (induction cs arbitrary: ch) (auto simp: on_session_def)

lemma ch_post_simps:
  assumes "distinct (ch_clients ch)"
  shows "ch_sessions (ch_post m ch) =
           (\<lambda>c. if c \<in> set (ch_clients ch) then map_option (ss_post m) (ch_sessions ch c)
                else ch_sessions ch c)"
    and "ch_clients (ch_post m ch) = ch_clients ch" and "ch_next (ch_post m ch) = ch_next ch"
    and "ch_log (ch_post m ch) = ch_log ch @ [m]" and "ch_left (ch_post m ch) = ch_left ch"
  by (simp_all add: ch_post_def foldl_sessions [OF assms] foldl_other)

lemma ch_wf_post [wf_intros]:
  assumes "ch_wf ch"
  shows "ch_wf (ch_post m ch)"
proof -
  have d: "distinct (ch_clients ch)" using assms by (simp add: ch_wf_def)
  have 1: "ss_wf s \<and> c < ch_next ch" if "ch_sessions (ch_post m ch) c = Some s" for c s
    using assms that unfolding ch_wf_def ch_post_simps [OF d] by (auto intro: ss_wf_post split: if_splits)
  have 2: "\<exists>s. ch_sessions (ch_post m ch) c = Some s \<and> client_wf (ch_log ch @ [m]) s"
    if "c \<in> set (ch_clients ch)" for c
    using assms that unfolding ch_wf_def ch_post_simps [OF d] by (fastforce intro: client_wf_post)
  show ?thesis using assms 1 2 by (simp add: ch_wf_def ch_post_simps [OF d])
qed

text \<open>A change of one session that keeps its invariant, and what a client is known by.\<close>

lemma ch_wf_on_session:
  assumes wf: "ch_wf ch" and f: "\<And>s. ch_sessions ch c = Some s \<Longrightarrow> ss_wf s \<Longrightarrow> ss_wf (f s)"
    and cl: "\<And>s. c \<in> set (ch_clients ch) \<Longrightarrow> ch_sessions ch c = Some s \<Longrightarrow> client_wf (ch_log ch) s \<Longrightarrow>
      client_wf (ch_log ch) (f s)"
  shows "ch_wf (on_session c f ch)"
  unfolding ch_wf_def
proof (intro conjI allI impI ballI)
  fix d s
  assume "ch_sessions (on_session c f ch) d = Some s"
  with wf f show "ss_wf s" "d < ch_next (on_session c f ch)"
    by (auto simp: ch_wf_def on_session_def split: if_splits)
next
  fix d
  assume "d \<in> set (ch_clients (on_session c f ch))"
  then have d: "d \<in> set (ch_clients ch)" by (simp add: on_session_def)
  with wf obtain s where "ch_sessions ch d = Some s" "client_wf (ch_log ch) s"
    unfolding ch_wf_def by blast
  with cl d show "\<exists>s. ch_sessions (on_session c f ch) d = Some s \<and> client_wf (ch_log (on_session c f ch)) s"
    by (auto simp: on_session_def)
qed (use wf in \<open>auto simp: ch_wf_def on_session_def\<close>)

lemma ch_wf_remove [wf_intros]:
  assumes "ch_wf ch"
  shows "ch_wf (ch\<lparr>ch_clients := remove1 c (ch_clients ch), ch_left := ch_left ch @ (if c \<in> set (ch_clients ch) then [c] else [])\<rparr>)"
proof -
  have "c \<in> set (ch_clients ch) \<Longrightarrow> c < ch_next ch" using assms unfolding ch_wf_def by blast
  moreover have "set (remove1 c (ch_clients ch)) = set (ch_clients ch) - {c}"
    using assms by (intro set_remove1_eq) (simp add: ch_wf_def)
  ultimately show ?thesis using assms unfolding ch_wf_def by (auto simp: distinct_remove1)
qed

text \<open>A session that is closed leaves the clients in the same step.\<close>

lemma ch_wf_error:
  assumes wf: "ch_wf ch" and f: "\<And>s. ss_wf s \<Longrightarrow> ss_wf (f s)"
  shows "ch_wf (on_error c (on_session c f ch))"
proof (cases "c \<in> set (ch_clients ch)")
  case True
  let ?ch = "ch\<lparr>ch_clients := remove1 c (ch_clients ch), ch_left := ch_left ch @ [c]\<rparr>"
  have "ch_wf ?ch" using ch_wf_remove [OF wf, of c] True by simp
  moreover have "c \<notin> set (ch_clients ?ch)" using wf by (auto simp: ch_wf_def set_remove1_eq)
  ultimately have "ch_wf (on_session c f ?ch)" by (intro ch_wf_on_session) (use f in auto)
  moreover have "on_error c (on_session c f ch) = ch_post one_less_msg (on_session c f ?ch)"
    using True by (cases ch) (simp add: on_error_def on_session_def)
  ultimately show ?thesis by (simp add: ch_wf_post)
next
  case False
  then have "ch_wf (on_session c f ch)" by (intro ch_wf_on_session [OF wf]) (use f in auto)
  with False show ?thesis by (simp add: on_error_def on_session_def)
qed

lemma ch_wf_new: "ch_wf chat_new"
  by (simp add: ch_wf_def chat_new_def)

lemma ch_wf_accept:
  assumes wf: "ch_wf ch"
  shows "ch_wf (on_accept ch)"
proof -
  let ?c = "ch_next ch"
  let ?s = "ss_post welcome_msg (session_new (Suc (length (ch_log ch))))"
  define ch2 where "ch2 = ch\<lparr>ch_next := Suc ?c, ch_sessions := (ch_sessions ch)(?c \<mapsto> ?s)\<rparr>"
  have fresh: "?c \<notin> set (ch_clients ch)" "?c \<notin> set (ch_left ch)"
    using wf unfolding ch_wf_def by blast+
  have s: "ss_wf ?s" by (simp add: ss_wf_new ss_wf_post)
  have "ch_wf ch2"
    using wf s fresh unfolding ch_wf_def ch2_def by (auto simp: less_Suc_eq)
  then have wf3: "ch_wf (ch_post newcomer_msg ch2)" by (rule ch_wf_post)
  have d: "distinct (ch_clients ch2)" using wf by (simp add: ch2_def ch_wf_def)
  have c: "client_wf (ch_log ch @ [newcomer_msg]) ?s" by (simp add: client_wf_def session_new_def)
  let ?ch4 = "(ch_post newcomer_msg ch2)\<lparr>ch_clients := ch_clients (ch_post newcomer_msg ch2) @ [?c]\<rparr>"
  have post: "ch_sessions (ch_post newcomer_msg ch2) ?c = Some ?s"
    "ch_clients (ch_post newcomer_msg ch2) = ch_clients ch" "ch_left (ch_post newcomer_msg ch2) = ch_left ch"
    "ch_log (ch_post newcomer_msg ch2) = ch_log ch @ [newcomer_msg]"
    using fresh by (simp_all add: ch_post_simps [OF d]) (simp_all add: ch2_def)
  have "ch_wf ?ch4"
    using wf3 c fresh post unfolding ch_wf_def by (auto simp: post)
  then have "ch_wf (on_session ?c ss_async_read ?ch4)"
    by (rule ch_wf_on_session) (simp_all add: ss_wf_def client_wf_def ss_async_read_def)
  moreover have "on_accept ch = on_session ?c ss_async_read ?ch4"
    by (simp add: on_accept_def Let_def ch2_def on_session_def)
  ultimately show ?thesis by simp
qed

lemma ch_wf_streambuf:
  assumes "ch_wf ch" and "\<And>s. ss_wf (f s) = ss_wf s" and "\<And>log s. client_wf log (f s) = client_wf log s"
  shows "ch_wf (on_session c f ch)"
  by (rule ch_wf_on_session [OF assms(1)]) (simp_all add: assms(2,3))

lemma ch_wf_read:
  assumes "ch_wf ch"
  shows "ch_wf (on_read_ok c endpoint n (on_session c (\<lambda>s. s\<lparr>ss_streambuf := b s\<rparr>) ch))"
proof -
  have buf: "ss_wf (s\<lparr>ss_streambuf := x, ss_reading := y\<rparr>) = ss_wf s"
    "client_wf log (s\<lparr>ss_streambuf := x, ss_reading := y\<rparr>) = client_wf log s"
    "ss_wf (s\<lparr>ss_reading := y\<rparr>) = ss_wf s" "client_wf log (s\<lparr>ss_reading := y\<rparr>) = client_wf log s"
    "ss_wf (s\<lparr>ss_streambuf := x\<rparr>) = ss_wf s" "client_wf log (s\<lparr>ss_streambuf := x\<rparr>) = client_wf log s"
    "ss_wf (s\<lparr>ss_reading := y, ss_streambuf := x\<rparr>) = ss_wf s"
    "client_wf log (s\<lparr>ss_reading := y, ss_streambuf := x\<rparr>) = client_wf log s"
    "ss_wf (ss_async_read s) = ss_wf s" "client_wf log (ss_async_read s) = client_wf log s" for s x y log
    by (simp_all add: ss_wf_def client_wf_def ss_async_read_def)
  have 1: "ch_wf (on_session c (\<lambda>s. s\<lparr>ss_streambuf := b s\<rparr>) ch)"
    by (rule ch_wf_streambuf [OF assms]) (simp_all add: buf)
  have "ch_wf (on_session c (\<lambda>s. s\<lparr>ss_reading := False, ss_streambuf := []\<rparr>)
      (on_session c (\<lambda>s. s\<lparr>ss_streambuf := b s\<rparr>) ch))"
    by (rule ch_wf_streambuf [OF 1]) (simp_all add: buf)
  from ch_wf_streambuf [OF ch_wf_post [OF this], of ss_async_read] 1 show ?thesis
    by (simp add: on_read_ok_def Let_def buf split: option.split)
qed

lemma ch_wf_write:
  assumes wf: "ch_wf ch" and s: "ch_sessions ch c = Some s" "ss_writing s \<noteq> None"
  shows "ch_wf (on_write_ok c ch)"
  unfolding on_write_ok_def
proof (rule ch_wf_on_session [OF wf])
  fix t
  assume "ch_sessions ch c = Some t" and t: "ss_wf t"
  with s obtain m where m: "ss_writing t = Some m" by auto
  with t obtain ms where "ss_outgoing t = m # ms" unfolding ss_wf_def by (metis list.collapse)
  with m t show "ss_wf (let s1 = t\<lparr>ss_writing := None, ss_delivered := ss_delivered t @ [the (ss_writing t)],
      ss_outgoing := tl (ss_outgoing t)\<rparr> in if ss_outgoing s1 \<noteq> [] then ss_async_write s1 else s1)"
    by (auto simp: ss_wf_def Let_def ss_async_write_def)
qed (simp add: client_wf_def Let_def ss_async_write_def)

lemma ch_step_wf: "ch_step ch ch' \<Longrightarrow> ch_wf ch \<Longrightarrow> ch_wf ch'"
proof (induction rule: ch_step.induct)
  case (Chat_read_err ch c s)
  then show ?case unfolding on_read_err_def
    by (intro ch_wf_error) (auto simp: ss_wf_def ss_close_def)
next
  case (Chat_write_err ch c s)
  then show ?case unfolding on_write_err_def
    by (intro ch_wf_error) (auto simp: ss_wf_def ss_close_def)
qed (auto intro: ch_wf_accept ch_wf_read ch_wf_write)

lemma ch_reachable_wf: "ch_reachable ch \<Longrightarrow> ch_wf ch"
  by (induction rule: ch_reachable.induct) (auto intro: ch_wf_new ch_step_wf)

section \<open>Properties\<close>

text \<open>
  C12: Every client sees the same conversation. In every reachable state what was written to a
  session's socket, followed by its queue, is exactly what was posted to it; and what was posted
  to a client is the welcome followed by everything broadcast since it joined, in the common
  order of the broadcasts.
\<close>
theorem chat_delivers_in_common_order:
  assumes "ch_reachable ch" and "ch_sessions ch c = Some s"
  shows "ss_delivered s @ ss_outgoing s = ss_posted s \<and>
         (c \<in> set (ch_clients ch) \<longrightarrow>
            ss_delivered s @ ss_outgoing s = welcome_msg # drop (ss_joined s) (ch_log ch))"
  using ch_reachable_wf [OF assms(1)] assms(2) unfolding ch_wf_def ss_wf_def client_wf_def by fastforce

text \<open>One client, and a second one after it.\<close>

definition one_client :: chat where
  "one_client = on_accept chat_new"

definition two_clients :: chat where
  "two_clients = on_accept one_client"

lemma two_clients_reachable: "ch_reachable two_clients"
  unfolding two_clients_def one_client_def
  by (rule Reach_step [OF Reach_step [OF Reach_new Chat_accept] Chat_accept])

lemma two_clients_session:
  "ch_sessions two_clients 0 =
     Some \<lparr>ss_open = True, ss_streambuf = [], ss_outgoing = [welcome_msg, newcomer_msg],
       ss_writing = Some welcome_msg, ss_reading = True, ss_joined = 1,
       ss_posted = [welcome_msg, newcomer_msg], ss_delivered = []\<rparr>"
  "ch_clients two_clients = [0, 1]" "ch_log two_clients = [newcomer_msg, newcomer_msg]"
  by (simp_all add: two_clients_def one_client_def on_accept_def chat_new_def on_session_def
      ch_post_def ss_post_def ss_async_read_def ss_async_write_def session_new_def Let_def)

theorem chat_delivers_in_common_order_witness:
  "[] @ [welcome_msg, newcomer_msg] = welcome_msg # drop 1 (ch_log two_clients)"
  using chat_delivers_in_common_order [OF two_clients_reachable two_clients_session(1)]
  by (simp add: two_clients_session(2))

text \<open>
  A session writes one message at a time, the front of its queue, and never sits idle on a
  queue: in every reachable state the message being written is the first of the queue, and an
  open session with messages queued is writing.
\<close>
lemma chat_one_write_outstanding:
  assumes "ch_reachable ch" and "ch_sessions ch c = Some s"
  shows "(\<forall>m. ss_writing s = Some m \<longrightarrow> (\<exists>rest. ss_outgoing s = m # rest)) \<and>
         (ss_open s \<and> ss_outgoing s \<noteq> [] \<longrightarrow> ss_writing s \<noteq> None)"
proof -
  have "ss_wf s" using ch_reachable_wf [OF assms(1)] assms(2) unfolding ch_wf_def by blast
  then show ?thesis unfolding ss_wf_def by (metis list.collapse)
qed

lemma chat_one_write_outstanding_example:
  "\<exists>rest. [welcome_msg, newcomer_msg] = welcome_msg # rest"
  using chat_one_write_outstanding [OF two_clients_reachable two_clients_session(1)] by simp

text \<open>
  A departure is announced once. When both the read and the write of a session fail, the
  first failure removes the client and broadcasts one message to the others, the second one
  broadcasts nothing; and nobody is counted as having left twice or while still a client.
\<close>
lemma chat_departure_announced_once:
  assumes "ch_reachable ch" and "c \<in> set (ch_clients ch)"
  shows "ch_log (on_write_err c (on_read_err c ch)) = ch_log ch @ [one_less_msg] \<and>
         ch_clients (on_write_err c (on_read_err c ch)) = remove1 c (ch_clients ch) \<and>
         distinct (ch_left ch @ ch_clients ch)"
proof -
  have d: "distinct (ch_left ch @ ch_clients ch)" using ch_reachable_wf [OF assms(1)] by (simp add: ch_wf_def)
  let ?ch = "on_read_err c ch"
  have 1: "ch_log ?ch = ch_log ch @ [one_less_msg]" "ch_clients ?ch = remove1 c (ch_clients ch)"
    using assms(2) d ch_post_simps by (simp_all add: on_read_err_def on_error_def on_session_def)
  moreover have "c \<notin> set (ch_clients ?ch)" using d 1(2) by simp
  ultimately show ?thesis using d by (simp add: on_write_err_def on_error_def on_session_def)
qed

lemma chat_departure_announced_once_example:
  "ch_log (on_write_err 0 (on_read_err 0 two_clients)) = ch_log two_clients @ [one_less_msg]"
  using chat_departure_announced_once [OF two_clients_reachable] by (simp add: two_clients_session)

text \<open>
  A read is broadcast with everything behind its line. When a line arrives together with
  further bytes, whatever length the completion reports, the one message that is posted to every client carries them all, and nothing of
  them is left for the next read.
\<close>
lemma chat_read_takes_whole_buffer:
  fixes endpoint :: string and n :: nat
  assumes "ch_reachable ch" and "d \<in> set (ch_clients ch)"
    and "ch_sessions ch c = Some s" and "ss_streambuf s @ bs = line @ LF # rest"
  defines "ch' \<equiv> on_read_ok c endpoint n (on_session c (\<lambda>s. s\<lparr>ss_streambuf := ss_streambuf s @ bs\<rparr>) ch)"
  shows "ch_log ch' = ch_log ch @ [endpoint @ '': '' @ line @ LF # rest] \<and>
         (\<exists>t. ch_sessions ch' d = Some t \<and> last (ss_posted t) = endpoint @ '': '' @ line @ LF # rest) \<and>
         (\<exists>t. ch_sessions ch' c = Some t \<and> ss_streambuf t = [])"
proof -
  let ?f = "\<lambda>s. s\<lparr>ss_reading := False, ss_streambuf := drop n []\<rparr>"
  let ?m = "endpoint @ '': '' @ line @ LF # rest"
  let ?ch0 = "on_session c (\<lambda>s. s\<lparr>ss_streambuf := ss_streambuf s @ bs\<rparr>) ch"
  let ?ch1 = "on_session c ?f ?ch0"
  have d: "distinct (ch_clients ?ch1)"
    using ch_reachable_wf [OF assms(1)] by (simp add: ch_wf_def on_session_def)
  have "ch_sessions ?ch0 c = Some (s\<lparr>ss_streambuf := line @ LF # rest\<rparr>)"
    using assms(3,4) by (simp add: on_session_def)
  then have ch': "ch' = on_session c ss_async_read (ch_post ?m ?ch1)"
    by (simp add: ch'_def on_read_ok_def Let_def)
  obtain t where t: "ch_sessions ch d = Some t"
    using ch_reachable_wf [OF assms(1)] assms(2) unfolding ch_wf_def by blast
  have cl: "ch_clients ?ch1 = ch_clients ch" "ch_log ?ch1 = ch_log ch" by (simp_all add: on_session_def)
  have "ch_log (on_session c ss_async_read ch0) = ch_log ch0" for ch0 by (simp add: on_session_def)
  then have "ch_log ch' = ch_log ch @ [?m]" unfolding ch' by (simp only: ch_post_simps(4) [OF d] cl)
  moreover have "\<exists>t. ch_sessions ch' d = Some t \<and> last (ss_posted t) = ?m"
    using assms(2,3) t cl unfolding ch' on_session_def [of c ss_async_read] ch_post_simps(1) [OF d]
    by (auto simp: on_session_def ss_async_read_def)
  moreover have "\<exists>t. ch_sessions ch' c = Some t \<and> ss_streambuf t = []"
    using assms(3) unfolding ch' on_session_def [of c ss_async_read] ch_post_simps(1) [OF d]
    by (auto simp: on_session_def ss_async_read_def ss_post_def ss_async_write_def Let_def)
  ultimately show ?thesis by blast
qed

lemma chat_read_takes_whole_buffer_example:
  "last (ch_log (on_read_ok 0 ''1.2.3.4:5'' 3
       (on_session 0 (\<lambda>s. s\<lparr>ss_streambuf := ss_streambuf s @ ''hi'' @ LF # ''par''\<rparr>) two_clients))) =
     ''1.2.3.4:5: hi'' @ LF # ''par''"
  using chat_read_takes_whole_buffer [OF two_clients_reachable _ two_clients_session(1),
    of 1 "''hi'' @ LF # ''par''" "''hi''" "''par''" "''1.2.3.4:5''" 3]
  by (simp add: two_clients_session(2))

end
