(* ===== verification/GrpcServer.thy ===== *)
theory GrpcServer
  imports Prelude "HOL-Library.Multiset"
begin

text \<open>
  \<open>boost_cpp/async.cc\<close>: the asynchronous greeter. Each \<open>CallData\<close> is an object that allocates and
  frees itself and goes through the states \<open>CREATE\<close>, \<open>PROCESS\<close> and \<open>FINISH\<close>; the completion queue
  holds the operations that were started with its address as their tag. The gRPC runtime is not
  part of the repository: it is the choice of the next event among the outstanding operations.
\<close>

section \<open>State\<close>

datatype CallStatus = CREATE | PROCESS | FINISH

record CallData =
  cd_status :: CallStatus
  cd_request :: string
  cd_reply :: string

text \<open>An operation the runtime was given: wait for a request, or send a reply.\<close>

datatype cq_op = Request_op nat | Finish_op nat string

fun op_tag :: "cq_op \<Rightarrow> nat" where
  "op_tag (Request_op t) = t"
| "op_tag (Finish_op t r) = t"

text \<open>
  The live objects by address, the next address, the operations outstanding, and two history
  variables: the names received and the replies handed to \<open>Finish\<close>, in order.
\<close>

record server_impl =
  sr_calls :: "nat \<Rightarrow> CallData option"
  sr_new :: nat
  sr_queue :: "cq_op list"
  sr_names :: "string list"
  sr_replies :: "string list"

definition server_impl_new :: server_impl where
  "server_impl_new = \<lparr>sr_calls = Map.empty, sr_new = 0, sr_queue = [], sr_names = [], sr_replies = []\<rparr>"

section \<open>CallData\<close>

definition with_call :: "nat \<Rightarrow> (CallData \<Rightarrow> (server_impl, unit) action) \<Rightarrow> (server_impl, unit) action" where
  "with_call this f s =
     (case sr_calls s this of
        None \<Rightarrow> (Inl (Undefined ''use of a freed CallData''), s)
      | Some c \<Rightarrow> f c s)"

definition set_call :: "nat \<Rightarrow> CallData \<Rightarrow> server_impl \<Rightarrow> server_impl" where
  "set_call this c s = s\<lparr>sr_calls := (sr_calls s)(this \<mapsto> c)\<rparr>"

definition start_op :: "cq_op \<Rightarrow> server_impl \<Rightarrow> server_impl" where
  "start_op op s = s\<lparr>sr_queue := sr_queue s @ [op]\<rparr>"

text \<open>The branch of \<open>Proceed\<close> that the constructor runs.\<close>

definition proceed_create :: "nat \<Rightarrow> CallData \<Rightarrow> (server_impl, unit) action" where
  "proceed_create this c s =
     (Inr (), start_op (Request_op this) (set_call this (c\<lparr>cd_status := PROCESS\<rparr>) s))"

definition CallData_new :: "(server_impl, unit) action" where
  "CallData_new s =
     (let this = sr_new s;
          c = \<lparr>cd_status = CREATE, cd_request = [], cd_reply = []\<rparr>
      in with_call this (proceed_create this) ((set_call this c s)\<lparr>sr_new := Suc this\<rparr>))"

definition greeting :: "string \<Rightarrow> string" where
  "greeting name = ''Hello '' @ name"

definition proceed_process :: "nat \<Rightarrow> CallData \<Rightarrow> (server_impl, unit) action" where
  "proceed_process this c =
     bindE CallData_new (\<lambda>_ s.
       let reply = greeting (cd_request c);
           s1 = set_call this (c\<lparr>cd_reply := reply, cd_status := FINISH\<rparr>) s
       in (Inr (), (start_op (Finish_op this reply) s1)\<lparr>sr_replies := sr_replies s1 @ [reply]\<rparr>))"

definition proceed_finish :: "nat \<Rightarrow> (server_impl, unit) action" where
  "proceed_finish this s = (Inr (), s\<lparr>sr_calls := (sr_calls s)(this := None)\<rparr>)"

definition Proceed :: "nat \<Rightarrow> (server_impl, unit) action" where
  "Proceed this = with_call this (\<lambda>c.
     if cd_status c = CREATE then proceed_create this c
     else if cd_status c = PROCESS then proceed_process this c
     else proceed_finish this)"

section \<open>The loop over the completion queue\<close>

text \<open>
  What \<open>Next\<close> delivers: an operation that completed, with the name of the caller for a request;
  one that completed with \<open>ok\<close> false; or nothing, because the queue is shutting down. The last
  two fail an assertion, which aborts the program.
\<close>

datatype cq_event = Completed cq_op string | Not_ok cq_op | Queue_shutdown

definition aborted :: exn where
  "aborted = Std_exception ''GPR_ASSERT''"

definition take_op :: "cq_op \<Rightarrow> server_impl \<Rightarrow> server_impl" where
  "take_op op s = s\<lparr>sr_queue := remove1 op (sr_queue s)\<rparr>"

text \<open>The runtime fills in the request before it delivers the tag.\<close>

fun deliver :: "cq_op \<Rightarrow> string \<Rightarrow> server_impl \<Rightarrow> server_impl" where
  "deliver (Request_op t) name s =
     s\<lparr>sr_calls := (sr_calls s)(t := map_option (cd_request_update (\<lambda>_. name)) (sr_calls s t)),
       sr_names := sr_names s @ [name]\<rparr>"
| "deliver (Finish_op t r) name s = s"

fun handle_event :: "cq_event \<Rightarrow> (server_impl, unit) action" where
  "handle_event (Completed op name) s = Proceed (op_tag op) (deliver op name (take_op op s))"
| "handle_event (Not_ok op) s = (Inl aborted, take_op op s)"
| "handle_event Queue_shutdown s = (Inl aborted, s)"

text \<open>What the runtime may deliver in a state.\<close>

fun may_deliver :: "server_impl \<Rightarrow> cq_event \<Rightarrow> bool" where
  "may_deliver s (Completed op name) \<longleftrightarrow> op \<in> set (sr_queue s)"
| "may_deliver s (Not_ok op) \<longleftrightarrow> op \<in> set (sr_queue s)"
| "may_deliver s Queue_shutdown \<longleftrightarrow> True"

text \<open>\<open>HandleRpcs\<close> on a sequence of events, up to the first that stops the loop.\<close>

fun rpc_loop :: "cq_event list \<Rightarrow> (server_impl, unit) action" where
  "rpc_loop [] = ret ()"
| "rpc_loop (e # es) = bindE (handle_event e) (\<lambda>_. rpc_loop es)"

definition HandleRpcs :: "cq_event list \<Rightarrow> (server_impl, unit) action" where
  "HandleRpcs es = bindE CallData_new (\<lambda>_. rpc_loop es)"

text \<open>The states between two rounds of the loop.\<close>

inductive rpc_reachable :: "server_impl \<Rightarrow> bool" where
  Rpc_start: "CallData_new server_impl_new = (Inr (), s) \<Longrightarrow> rpc_reachable s"
| Rpc_event: "rpc_reachable s \<Longrightarrow> may_deliver s e \<Longrightarrow> handle_event e s = (Inr (), s') \<Longrightarrow> rpc_reachable s'"

section \<open>The invariant\<close>

definition is_request :: "cq_op \<Rightarrow> bool" where
  "is_request op \<longleftrightarrow> (\<exists>t. op = Request_op t)"

text \<open>
  An object is live exactly when an operation with its address is outstanding, there is one such
  operation, and the object is in the state that operation's completion expects; exactly one
  operation waits for a request. Every name received so far was answered.
\<close>

definition sr_wf :: "server_impl \<Rightarrow> bool" where
  "sr_wf s \<longleftrightarrow>
     distinct (map op_tag (sr_queue s)) \<and>
     dom (sr_calls s) = op_tag ` set (sr_queue s) \<and>
     (\<forall>t. Request_op t \<in> set (sr_queue s) \<longrightarrow> (\<exists>c. sr_calls s t = Some c \<and> cd_status c = PROCESS)) \<and>
     (\<forall>t r. Finish_op t r \<in> set (sr_queue s) \<longrightarrow> (\<exists>c. sr_calls s t = Some c \<and> cd_status c = FINISH \<and> cd_reply c = r)) \<and>
     length (filter is_request (sr_queue s)) = 1 \<and>
     (\<forall>t \<in> dom (sr_calls s). t < sr_new s) \<and>
     sr_replies s = map greeting (sr_names s)"

lemma CallData_new_run [run_simps]:
  "CallData_new s = (Inr (),
     s\<lparr>sr_calls := (sr_calls s)(sr_new s \<mapsto> \<lparr>cd_status = PROCESS, cd_request = [], cd_reply = []\<rparr>),
       sr_new := Suc (sr_new s), sr_queue := sr_queue s @ [Request_op (sr_new s)]\<rparr>)"
  by (simp add: CallData_new_def with_call_def proceed_create_def set_call_def start_op_def Let_def)

lemma sr_wf_start: "CallData_new server_impl_new = (Inr (), s) \<Longrightarrow> sr_wf s"
  by (auto simp: CallData_new_run server_impl_new_def sr_wf_def is_request_def split: if_splits)

lemma queue_tag:
  assumes "sr_wf s" and "op \<in> set (sr_queue s)" and "op' \<in> set (sr_queue s)" and "op_tag op = op_tag op'"
  shows "op = op'"
  using assms unfolding sr_wf_def by (metis distinct_map inj_onD)

text \<open>The two events that a healthy runtime delivers.\<close>

lemma request_event:
  assumes wf: "sr_wf s" and op: "Request_op t \<in> set (sr_queue s)"
  shows "\<exists>c. sr_calls s t = Some c \<and> t \<noteq> sr_new s \<and>
    handle_event (Completed (Request_op t) name) s = (Inr (),
      s\<lparr>sr_calls := (sr_calls s)(sr_new s \<mapsto> \<lparr>cd_status = PROCESS, cd_request = [], cd_reply = []\<rparr>,
           t \<mapsto> c\<lparr>cd_status := FINISH, cd_request := name, cd_reply := greeting name\<rparr>),
         sr_new := Suc (sr_new s),
         sr_queue := remove1 (Request_op t) (sr_queue s) @ [Request_op (sr_new s), Finish_op t (greeting name)],
         sr_names := sr_names s @ [name], sr_replies := sr_replies s @ [greeting name]\<rparr>)"
proof -
  from wf op obtain c where c: "sr_calls s t = Some c" "cd_status c = PROCESS" unfolding sr_wf_def by blast
  with wf have "t < sr_new s" unfolding sr_wf_def by blast
  with c show ?thesis
    by (cases s, cases c) (simp add: take_op_def Proceed_def with_call_def proceed_process_def bindE_def CallData_new_run
        set_call_def start_op_def Let_def fun_upd_twist)
qed

lemma finish_event:
  assumes wf: "sr_wf s" and op: "Finish_op t r \<in> set (sr_queue s)"
  shows "handle_event (Completed (Finish_op t r) name) s =
    (Inr (), s\<lparr>sr_calls := (sr_calls s)(t := None), sr_queue := remove1 (Finish_op t r) (sr_queue s)\<rparr>)"
proof -
  from wf op obtain c where "sr_calls s t = Some c" "cd_status c = FINISH" unfolding sr_wf_def by blast
  then show ?thesis by (simp add: take_op_def Proceed_def with_call_def proceed_finish_def)
qed

lemma completion_ok:
  assumes "sr_wf s" and "op \<in> set (sr_queue s)"
  shows "\<exists>s'. handle_event (Completed op name) s = (Inr (), s')"
  using request_event [OF assms(1)] finish_event [OF assms(1)] assms(2) by (cases op) blast+

lemma remove1_tags:
  assumes "distinct (map op_tag q)" and "op \<in> set q"
  shows "distinct (map op_tag (remove1 op q))" and "op_tag ` set (remove1 op q) = op_tag ` set q - {op_tag op}"
    and "set (remove1 op q) = set q - {op}"
proof -
  have "distinct q" using assms(1) by (simp add: distinct_map)
  then show s: "set (remove1 op q) = set q - {op}" by simp
  show "distinct (map op_tag (remove1 op q))" using assms(1) \<open>distinct q\<close>
    by (auto simp: distinct_map s intro: inj_on_subset)
  show "op_tag ` set (remove1 op q) = op_tag ` set q - {op_tag op}"
    using assms unfolding s by (auto simp: distinct_map inj_on_def)
qed

lemma remove1_requests: "op \<in> set q \<Longrightarrow>
    length (filter is_request q) = length (filter is_request (remove1 op q)) + (if is_request op then 1 else 0)"
  by (induction q) auto

lemma sr_wf_request:
  assumes wf: "sr_wf s" and op: "Request_op t \<in> set (sr_queue s)"
    and run: "handle_event (Completed (Request_op t) name) s = (Inr (), s')"
  shows "sr_wf s'"
proof -
  let ?q = "remove1 (Request_op t) (sr_queue s)"
  have d: "distinct (map op_tag (sr_queue s))" and dom: "dom (sr_calls s) = op_tag ` set (sr_queue s)"
    and lt: "\<forall>t \<in> dom (sr_calls s). t < sr_new s" using wf unfolding sr_wf_def by blast+
  note rm = remove1_tags [OF d op]
  obtain c where c: "sr_calls s t = Some c" "t \<noteq> sr_new s" and s': "s' = s\<lparr>sr_calls := (sr_calls s)(sr_new s \<mapsto> \<lparr>cd_status = PROCESS, cd_request = [], cd_reply = []\<rparr>,
           t \<mapsto> c\<lparr>cd_status := FINISH, cd_request := name, cd_reply := greeting name\<rparr>),
         sr_new := Suc (sr_new s), sr_queue := ?q @ [Request_op (sr_new s), Finish_op t (greeting name)],
         sr_names := sr_names s @ [name], sr_replies := sr_replies s @ [greeting name]\<rparr>"
    using request_event [OF wf op, of name] run by auto
  have fresh: "sr_new s \<notin> op_tag ` set (sr_queue s)" using lt dom by blast
  have "distinct (map op_tag (sr_queue s'))" using rm(1,2) c(2) fresh by (simp add: s')
  moreover have "dom (sr_calls s') = op_tag ` set (sr_queue s')" using rm(2) dom c(1) by (auto simp: s')
  moreover have "\<forall>u. Request_op u \<in> set (sr_queue s') \<longrightarrow> (\<exists>c. sr_calls s' u = Some c \<and> cd_status c = PROCESS)"
  proof (intro allI impI)
    fix u assume u: "Request_op u \<in> set (sr_queue s')"
    show "\<exists>c. sr_calls s' u = Some c \<and> cd_status c = PROCESS"
    proof (cases "u = sr_new s")
      case False
      with u rm(3) have old: "Request_op u \<in> set (sr_queue s)" "u \<noteq> t" by (simp_all add: s')
      with False wf show ?thesis by (simp add: s' sr_wf_def)
    qed (use c(2) in \<open>simp add: s'\<close>)
  qed
  moreover have "\<forall>u r. Finish_op u r \<in> set (sr_queue s') \<longrightarrow> (\<exists>c. sr_calls s' u = Some c \<and> cd_status c = FINISH \<and> cd_reply c = r)"
  proof (intro allI impI)
    fix u r assume u: "Finish_op u r \<in> set (sr_queue s')"
    show "\<exists>c. sr_calls s' u = Some c \<and> cd_status c = FINISH \<and> cd_reply c = r"
    proof (cases "u = t")
      case True
      then have "Finish_op u r \<notin> set (sr_queue s)" using queue_tag [OF wf op, of "Finish_op u r"] by auto
      with u True rm(3) show ?thesis by (simp add: s')
    next
      case False
      with u rm(3) have old: "Finish_op u r \<in> set (sr_queue s)" by (simp add: s')
      then have "u \<noteq> sr_new s" using fresh by force
      with old False wf show ?thesis by (simp add: s' sr_wf_def)
    qed
  qed
  moreover have "length (filter is_request (sr_queue s')) = 1"
    using wf remove1_requests [OF op] by (simp add: s' sr_wf_def is_request_def)
  moreover have "\<forall>u \<in> dom (sr_calls s'). u < sr_new s'" using lt c by (auto simp: s' domI intro: less_SucI)
  moreover have "sr_replies s' = map greeting (sr_names s')" using wf by (simp add: s' sr_wf_def)
  ultimately show ?thesis unfolding sr_wf_def by blast
qed

lemma sr_wf_finish:
  assumes wf: "sr_wf s" and op: "Finish_op t r \<in> set (sr_queue s)"
    and run: "handle_event (Completed (Finish_op t r) name) s = (Inr (), s')"
  shows "sr_wf s'"
proof -
  have d: "distinct (map op_tag (sr_queue s))" using wf unfolding sr_wf_def by blast
  note rm = remove1_tags [OF d op]
  have s': "s' = s\<lparr>sr_calls := (sr_calls s)(t := None), sr_queue := remove1 (Finish_op t r) (sr_queue s)\<rparr>"
    using finish_event [OF wf op, of name] run by simp
  have other: "u \<noteq> t" if "op' \<in> set (sr_queue s')" "op_tag op' = u" for op' u
    using that rm(2,3) by (auto simp: s')
  have "length (filter is_request (sr_queue s')) = 1"
    using wf remove1_requests [OF op] by (simp add: s' sr_wf_def is_request_def)
  with wf rm other show ?thesis by (fastforce simp: s' sr_wf_def)
qed

lemma rpc_reachable_wf: "rpc_reachable s \<Longrightarrow> sr_wf s"
proof (induction rule: rpc_reachable.induct)
  case (Rpc_event s e s')
  show ?case
  proof (cases e)
    case (Completed op name)
    with Rpc_event show ?thesis by (cases op) (auto intro: sr_wf_request sr_wf_finish)
  qed (use Rpc_event in auto)
qed (rule sr_wf_start)

section \<open>Properties\<close>

text \<open>
  C21: The greeter never uses a \<open>CallData\<close> after it was freed, and is always ready for the next
  caller: in every reachable state whatever operation completes is handled without error, exactly
  one operation waits for a request, and the live objects are those with an operation outstanding,
  one each.
\<close>
theorem grpc_no_use_after_free:
  assumes "rpc_reachable s" and "op \<in> set (sr_queue s)"
  shows "(\<exists>s'. handle_event (Completed op name) s = (Inr (), s')) \<and>
         (\<exists>!t. Request_op t \<in> set (sr_queue s)) \<and>
         distinct (map op_tag (sr_queue s)) \<and> dom (sr_calls s) = op_tag ` set (sr_queue s)"
proof -
  have wf: "sr_wf s" by (rule rpc_reachable_wf [OF assms(1)])
  note completion_ok [OF wf assms(2), of name]
  moreover have "length (filter is_request (sr_queue s)) = 1" using wf by (simp add: sr_wf_def)
  then obtain q where q: "filter is_request (sr_queue s) = [q]" by (auto simp: length_Suc_conv)
  have "op' \<in> set (sr_queue s) \<and> is_request op' \<longleftrightarrow> op' = q" for op' using arg_cong [OF q, of set] by auto
  then have "\<exists>!t. Request_op t \<in> set (sr_queue s)" unfolding is_request_def by (metis cq_op.inject(1))
  ultimately show ?thesis using wf unfolding sr_wf_def by blast
qed

definition greeter_started :: server_impl where
  "greeter_started = snd (CallData_new server_impl_new)"

lemma greeter_started_reachable: "rpc_reachable greeter_started"
  by (rule Rpc_start) (simp add: greeter_started_def CallData_new_run)

theorem grpc_no_use_after_free_witness:
  "\<exists>s'. handle_event (Completed (Request_op 0) ''Ann'') greeter_started = (Inr (), s')"
  using grpc_no_use_after_free [OF greeter_started_reachable, of "Request_op 0"]
  by (simp add: greeter_started_def CallData_new_run server_impl_new_def)

text \<open>
  C22: Every caller is answered with its own greeting: the replies handed to the runtime are, in
  order, \<open>Hello\<close> and the names received; and the replies still outstanding number the live
  objects less the one that waits for a caller.
\<close>
theorem grpc_answers_every_caller:
  assumes "rpc_reachable s"
  shows "sr_replies s = map greeting (sr_names s) \<and>
         card (dom (sr_calls s)) = length (filter (\<lambda>op. \<not> is_request op) (sr_queue s)) + 1 \<and>
         (\<forall>t r. Finish_op t r \<in> set (sr_queue s) \<longrightarrow>
            (\<exists>c. sr_calls s t = Some c \<and> cd_reply c = r))"
proof -
  have wf: "sr_wf s" by (rule rpc_reachable_wf [OF assms])
  then have "card (dom (sr_calls s)) = length (sr_queue s)"
    unfolding sr_wf_def by (metis distinct_card length_map set_map)
  also have "\<dots> = length (filter is_request (sr_queue s)) + length (filter (\<lambda>op. \<not> is_request op) (sr_queue s))"
    by (simp add: sum_length_filter_compl)
  finally show ?thesis using wf unfolding sr_wf_def by fastforce
qed

lemma greeter_greets:
  "rpc_reachable (snd (handle_event (Completed (Request_op 0) ''Ann'') greeter_started))"
proof -
  have op: "Request_op 0 \<in> set (sr_queue greeter_started)"
    by (simp add: greeter_started_def CallData_new_run server_impl_new_def)
  then obtain s' where "handle_event (Completed (Request_op 0) ''Ann'') greeter_started = (Inr (), s')"
    using request_event [OF rpc_reachable_wf [OF greeter_started_reachable] op] by blast
  then show ?thesis
    using Rpc_event [OF greeter_started_reachable, of "Completed (Request_op 0) ''Ann''" s'] op by simp
qed

theorem grpc_answers_every_caller_witness:
  "sr_replies (snd (handle_event (Completed (Request_op 0) ''Ann'') greeter_started)) = [''Hello Ann'']"
proof -
  have "sr_names (snd (handle_event (Completed (Request_op 0) ''Ann'') greeter_started)) = [''Ann'']" by code_simp
  with grpc_answers_every_caller [OF greeter_greets] show ?thesis by (simp add: greeting_def)
qed

section \<open>The server around the loop\<close>

text \<open>The calls that set the runtime up, the loop, and the destructor, which nothing gets to.\<close>

datatype server_call =
    Add_listening_port string
  | Register_service
  | Add_completion_queue
  | Build_and_start
  | Shutdown_server
  | Shutdown_queue

definition Run :: "cq_event list \<Rightarrow> server_call list \<times> (exn + unit) \<times> server_impl" where
  "Run es =
     (case HandleRpcs es server_impl_new of
        (r, s) \<Rightarrow>
          ([Add_listening_port ''0.0.0.0:50051'', Register_service, Add_completion_queue, Build_and_start], r, s))"

definition ServerImpl_delete :: "server_call list" where
  "ServerImpl_delete = [Shutdown_server, Shutdown_queue]"

text \<open>
  \<open>main\<close> after the events so far: the calls it has made, and the failure that has aborted it. \<open>Run\<close>
  does not return, so the destructor of \<open>server\<close> is not among them.
\<close>

definition greeter_main :: "cq_event list \<Rightarrow> server_call list \<times> exn option" where
  "greeter_main es =
     (case Run es of (calls, r, s) \<Rightarrow> (calls, case r of Inl e \<Rightarrow> Some e | Inr _ \<Rightarrow> None))"

text \<open>
  As long as the runtime delivers completions of operations it was given, the program neither ends
  nor touches the destructor's calls: it stays in its loop, with the state one of the reachable ones.
\<close>

inductive deliverable :: "server_impl \<Rightarrow> cq_event list \<Rightarrow> bool" where
  Nothing_more: "deliverable s []"
| Delivers: "may_deliver s (Completed op name) \<Longrightarrow> deliverable (snd (handle_event (Completed op name) s)) es \<Longrightarrow>
    deliverable s (Completed op name # es)"

lemma rpc_loop_goes_on:
  assumes "deliverable s es" and "rpc_reachable s"
  shows "\<exists>s'. rpc_loop es s = (Inr (), s') \<and> rpc_reachable s'"
  using assms
proof (induction rule: deliverable.induct)
  case (Delivers s op name es)
  then have "op \<in> set (sr_queue s)" by simp
  from completion_ok [OF rpc_reachable_wf [OF Delivers(4)] this, of name]
  obtain s1 where "handle_event (Completed op name) s = (Inr (), s1)" by blast
  with Delivers Rpc_event [of s "Completed op name" s1] show ?case by (auto simp: bindE_def)
qed (simp add: ret_def)

lemma greeter_never_shuts_down:
  assumes "deliverable greeter_started es"
  shows "greeter_main es =
    ([Add_listening_port ''0.0.0.0:50051'', Register_service, Add_completion_queue, Build_and_start], None)"
proof -
  obtain s where "rpc_loop es greeter_started = (Inr (), s)"
    using rpc_loop_goes_on [OF assms greeter_started_reachable] by blast
  moreover have "CallData_new server_impl_new = (Inr (), greeter_started)"
    by (simp add: greeter_started_def CallData_new_run)
  ultimately show ?thesis by (simp add: greeter_main_def Run_def HandleRpcs_def bindE_def)
qed

end
