(* ===== verification/PreBuffer.thy ===== *)
theory PreBuffer
  imports Prelude "HOL-Library.Sublist"
begin

text \<open>
  \<open>boost_cpp/stream/prebufferstream.hpp\<close> and \<open>.cc\<close>: a stream buffer over a file descriptor, with one
  array for its put area and its get area. Pointers into the array are offsets; a store outside
  the array, a \<open>memcpy\<close> of overlapping ranges and the use of a mode that was never set are errors of
  the model. The system calls \<open>read\<close> and \<open>write\<close> are a parameter.
\<close>

section \<open>State\<close>

datatype openmode = Ios_in | Ios_out

text \<open>\<open>write\<close> gives its result, \<open>read\<close> its result and the bytes it stored.\<close>

record 'w posix =
  px_write :: "'w \<Rightarrow> int \<Rightarrow> bytes \<Rightarrow> int \<times> 'w"
  px_read :: "'w \<Rightarrow> int \<Rightarrow> nat \<Rightarrow> (int \<times> bytes) \<times> 'w"

text \<open>A mode of \<open>None\<close> is one the constructor did not set.\<close>

record prebuffer =
  pb_mode :: "openmode set option"
  pb_filedes :: int
  pb_buffer :: bytes
  pb_eback :: nat
  pb_gptr :: nat
  pb_egptr :: nat
  pb_pptr :: nat

type_synonym ('w, 'a) prebuffer_action = "(prebuffer \<times> 'w, 'a) action"

definition s_buf_size :: nat where "s_buf_size = 4092"
definition s_pback_size :: nat where "s_pback_size = 4"

text \<open>\<open>epptr\<close>: one byte of the array stays free for \<open>overflow\<close>.\<close>

definition pb_epptr :: nat where "pb_epptr = s_buf_size - 1"

lemmas pb_sizes = s_buf_size_def s_pback_size_def pb_epptr_def

definition is_open :: "prebuffer \<Rightarrow> bool" where
  "is_open b \<longleftrightarrow> pb_filedes b \<ge> 0"

section \<open>The virtual functions\<close>

text \<open>\<open>m_mode & std::ios::out\<close>.\<close>

definition mode_out :: "('w, bool) prebuffer_action" where
  "mode_out s =
     (case pb_mode (fst s) of
        None \<Rightarrow> (Inl (Undefined ''indeterminate mode''), s)
      | Some m \<Rightarrow> (Inr (Ios_out \<in> m), s))"

text \<open>\<open>None\<close> stands for \<open>EOF\<close>.\<close>

definition flushoutput :: "'w posix \<Rightarrow> ('w, nat option) prebuffer_action" where
  "flushoutput P =
     bindE mode_out (\<lambda>out (b, w).
       if \<not> out \<or> \<not> is_open b then (Inr None, (b, w))
       else
         (let num = pb_pptr b in
          case px_write P w (pb_filedes b) (take num (pb_buffer b)) of
            (r, w') \<Rightarrow>
              if r = - 1 then (Inr None, (b, w'))
              else (Inr (Some num), (b\<lparr>pb_pptr := pb_pptr b - num\<rparr>, w'))))"

text \<open>\<open>*pptr() = c; pbump(1)\<close>.\<close>

definition pb_store :: "char \<Rightarrow> ('w, unit) prebuffer_action" where
  "pb_store c = (\<lambda>(b, w).
     if pb_pptr b < s_buf_size
     then (Inr (), (b\<lparr>pb_buffer := (pb_buffer b)[pb_pptr b := c], pb_pptr := pb_pptr b + 1\<rparr>, w))
     else (Inl (Undefined ''store outside the buffer''), (b, w)))"

text \<open>\<open>overflow\<close>: whether it succeeded; \<open>not_eof\<close> of its argument is never \<open>EOF\<close>.\<close>

definition pb_overflow :: "'w posix \<Rightarrow> char option \<Rightarrow> ('w, bool) prebuffer_action" where
  "pb_overflow P c =
     bindE mode_out (\<lambda>out (b, w).
       if \<not> out \<or> \<not> is_open b then (Inr False, (b, w))
       else
         bindE (case c of None \<Rightarrow> ret () | Some ch \<Rightarrow> pb_store ch) (\<lambda>_.
         bindE (flushoutput P) (\<lambda>r. ret (r \<noteq> None))) (b, w))"

text \<open>\<open>sync\<close> returns 0 or -1.\<close>

definition pb_sync :: "'w posix \<Rightarrow> ('w, int) prebuffer_action" where
  "pb_sync P = bindE (flushoutput P) (\<lambda>r. ret (if r = None then - 1 else 0))"

text \<open>\<open>memcpy(buffer + dst, buffer + src, n)\<close>: the ranges must not overlap.\<close>

definition overlap :: exn where
  "overlap = Undefined ''memcpy of overlapping ranges''"

definition pb_memcpy :: "nat \<Rightarrow> nat \<Rightarrow> nat \<Rightarrow> ('w, unit) prebuffer_action" where
  "pb_memcpy dst src n = (\<lambda>(b, w).
     if n > 0 \<and> dst < src + n \<and> src < dst + n
     then (Inl overlap, (b, w))
     else
       (Inr (), (b\<lparr>pb_buffer := take dst (pb_buffer b) @ take n (drop src (pb_buffer b)) @
                     drop (dst + n) (pb_buffer b)\<rparr>, w)))"

definition pb_setg :: "nat \<Rightarrow> nat \<Rightarrow> nat \<Rightarrow> prebuffer \<Rightarrow> prebuffer" where
  "pb_setg eb g eg b = b\<lparr>pb_eback := eb, pb_gptr := g, pb_egptr := eg\<rparr>"

definition pb_current :: "prebuffer \<Rightarrow> char" where
  "pb_current b = pb_buffer b ! pb_gptr b"

text \<open>The bytes \<open>read\<close> stores go to \<open>buffer + s_pback_size\<close>.\<close>

definition pb_fill :: "bytes \<Rightarrow> prebuffer \<Rightarrow> prebuffer" where
  "pb_fill bs b =
     b\<lparr>pb_buffer := take s_pback_size (pb_buffer b) @ bs @ drop (s_pback_size + length bs) (pb_buffer b)\<rparr>"

definition pb_underflow :: "'w posix \<Rightarrow> ('w, char option) prebuffer_action" where
  "pb_underflow P = (\<lambda>(b, w).
     if pb_gptr b < pb_egptr b then (Inr (Some (pb_current b)), (b, w))
     else
       (let num_putback = min (pb_gptr b - pb_eback b) s_pback_size in
        bindE (pb_memcpy (s_pback_size - num_putback) (pb_gptr b - num_putback) num_putback) (\<lambda>_ (b, w).
          case px_read P w (pb_filedes b) (s_buf_size - s_pback_size) of
            ((num, bs), w') \<Rightarrow>
              if num \<le> 0 then (Inr None, (b, w'))
              else
                (let b' = pb_setg (s_pback_size - num_putback) s_pback_size (s_pback_size + nat num) (pb_fill bs b)
                 in (Inr (Some (pb_current b')), (b', w')))) (b, w)))"

section \<open>Construction and the rest of the interface\<close>

text \<open>\<open>init\<close>, on the array as it is found.\<close>

definition pb_init :: "bytes \<Rightarrow> int \<Rightarrow> openmode set \<Rightarrow> bool \<Rightarrow> exn + prebuffer" where
  "pb_init array fd om throw_exception =
     (let b = \<lparr>pb_mode = (if fd > 0 then Some om else None), pb_filedes = fd, pb_buffer = array,
               pb_eback = s_pback_size, pb_gptr = s_pback_size, pb_egptr = s_pback_size, pb_pptr = 0\<rparr>
      in if throw_exception \<and> \<not> is_open b then Inl (Std_exception ''Invaild fd'') else Inr b)"

definition pb_close :: "'w posix \<Rightarrow> ('w, unit) prebuffer_action" where
  "pb_close P = (\<lambda>(b, w).
     if is_open b then
       bindE (pb_sync P) (\<lambda>_ (b, w). (Inr (), (b\<lparr>pb_mode := Some {}, pb_filedes := - 1\<rparr>, w))) (b, w)
     else (Inr (), (b, w)))"

definition get_str :: "prebuffer \<Rightarrow> string" where
  "get_str b = take (pb_pptr b) (pb_buffer b)"

text \<open>What \<open>std::streambuf\<close> does for its callers, through the areas and the virtual functions.\<close>

definition pb_sputc :: "'w posix \<Rightarrow> char \<Rightarrow> ('w, bool) prebuffer_action" where
  "pb_sputc P c = (\<lambda>(b, w).
     if pb_pptr b < pb_epptr then bindE (pb_store c) (\<lambda>_. ret True) (b, w)
     else pb_overflow P (Some c) (b, w))"

text \<open>\<open>sputn\<close>: the number of characters put, up to the first failure.\<close>

fun pb_sputn :: "'w posix \<Rightarrow> bytes \<Rightarrow> ('w, nat) prebuffer_action" where
  "pb_sputn P [] = ret 0"
| "pb_sputn P (c # cs) =
     bindE (pb_sputc P c) (\<lambda>ok.
       if ok then bindE (pb_sputn P cs) (\<lambda>n. ret (Suc n)) else ret 0)"

definition pb_sgetc :: "'w posix \<Rightarrow> ('w, char option) prebuffer_action" where
  "pb_sgetc P = (\<lambda>(b, w).
     if pb_gptr b < pb_egptr b then (Inr (Some (pb_current b)), (b, w)) else pb_underflow P (b, w))"

definition pb_sbumpc :: "'w posix \<Rightarrow> ('w, char option) prebuffer_action" where
  "pb_sbumpc P =
     bindE (pb_sgetc P) (\<lambda>c (b, w).
       case c of
         None \<Rightarrow> (Inr None, (b, w))
       | Some ch \<Rightarrow> (Inr (Some ch), (b\<lparr>pb_gptr := pb_gptr b + 1\<rparr>, w)))"

text \<open>Reading until \<open>EOF\<close>, at most \<open>k\<close> characters.\<close>

fun pb_drain :: "nat \<Rightarrow> 'w posix \<Rightarrow> ('w, bytes) prebuffer_action" where
  "pb_drain 0 P = ret []"
| "pb_drain (Suc k) P =
     bindE (pb_sbumpc P) (\<lambda>c.
       case c of None \<Rightarrow> ret [] | Some ch \<Rightarrow> bindE (pb_drain k P) (\<lambda>cs. ret (ch # cs)))"

section \<open>The invariant\<close>

text \<open>The pointers lie in the array and in order.\<close>

definition pb_wf :: "prebuffer \<Rightarrow> bool" where
  "pb_wf b \<longleftrightarrow>
     length (pb_buffer b) = s_buf_size \<and> pb_eback b \<le> pb_gptr b \<and> pb_gptr b \<le> pb_egptr b \<and>
     pb_egptr b \<le> s_buf_size \<and> pb_pptr b \<le> pb_epptr"

text \<open>\<open>read\<close> gives no more than it was asked for, and says how much.\<close>

definition posix_read_contract :: "'w posix \<Rightarrow> bool" where
  "posix_read_contract P \<longleftrightarrow>
     (\<forall>w fd k r bs w'. px_read P w fd k = ((r, bs), w') \<longrightarrow> length bs = nat r \<and> length bs \<le> k)"

definition writes_succeed :: "'w posix \<Rightarrow> bool" where
  "writes_succeed P \<longleftrightarrow> (\<forall>w fd bs. fst (px_write P w fd bs) \<noteq> - 1)"

section \<open>Writing\<close>

definition writable :: "prebuffer \<Rightarrow> bool" where
  "writable b \<longleftrightarrow> (\<exists>m. pb_mode b = Some m \<and> Ios_out \<in> m) \<and> is_open b"

lemma mode_out_writable: "writable b \<Longrightarrow> mode_out (b, w) = (Inr True, (b, w))"
  by (auto simp: writable_def mode_out_def)

lemma flush_writable:
  assumes "writable b" and "px_write P w (pb_filedes b) (get_str b) = (r, w')"
  shows "flushoutput P (b, w) = (if r = - 1 then (Inr None, (b, w')) else (Inr (Some (pb_pptr b)), (b\<lparr>pb_pptr := 0\<rparr>, w')))"
  using assms by (simp add: flushoutput_def bindE_def mode_out_writable get_str_def Let_def)
    (simp add: writable_def)

text \<open>
  \<open>write\<close> as documented: it reports an error and writes nothing, or writes a first part of what it is
  given and says how much. \<open>wire\<close> is what the descriptor \<open>fd\<close> has got. A descriptor may also take all
  it is given.
\<close>

definition posix_write_contract :: "'w posix \<Rightarrow> int \<Rightarrow> ('w \<Rightarrow> bytes) \<Rightarrow> bool" where
  "posix_write_contract P fd wire \<longleftrightarrow>
     (\<forall>w bs r w'. px_write P w fd bs = (r, w') \<longrightarrow>
        r = - 1 \<and> wire w' = wire w \<or> 0 \<le> r \<and> r \<le> int (length bs) \<and> wire w' = wire w @ take (nat r) bs)"

definition takes_all :: "'w posix \<Rightarrow> int \<Rightarrow> bool" where
  "takes_all P fd \<longleftrightarrow> (\<forall>w bs. fst (px_write P w fd bs) = int (length bs))"

text \<open>A first part of each block, one after the other.\<close>

definition first_parts :: "bytes list \<Rightarrow> bytes \<Rightarrow> bool" where
  "first_parts bl out \<longleftrightarrow> (\<exists>xs. list_all2 prefix xs bl \<and> out = concat xs)"

lemma first_parts_Nil [simp]: "first_parts [] out \<longleftrightarrow> out = []"
  by (simp add: first_parts_def)

lemma first_parts_Cons: "prefix x y \<Longrightarrow> first_parts bl out \<Longrightarrow> first_parts (y # bl) (x @ out)"
  unfolding first_parts_def by (metis concat.simps(2) list_all2_Cons)

lemma first_parts_snoc: "first_parts bl out \<Longrightarrow> prefix x y \<Longrightarrow> first_parts (bl @ [y]) (out @ x)"
  unfolding first_parts_def
  by (elim exE conjE, rule_tac x = "xs @ [x]" in exI) (simp add: list_all2_appendI)

definition put_ready :: "int \<Rightarrow> prebuffer \<Rightarrow> bool" where
  "put_ready fd b \<longleftrightarrow> writable b \<and> pb_filedes b = fd \<and> length (pb_buffer b) = s_buf_size \<and> pb_pptr b \<le> pb_epptr"

lemma store_run:
  assumes "length (pb_buffer b) = s_buf_size" and "pb_pptr b < s_buf_size"
  shows "\<exists>b'. pb_store c (b, w) = (Inr (), (b', w)) \<and> get_str b' = get_str b @ [c] \<and> pb_pptr b' = pb_pptr b + 1 \<and>
           length (pb_buffer b') = s_buf_size \<and> pb_mode b' = pb_mode b \<and> pb_filedes b' = pb_filedes b"
  using assms by (simp add: pb_store_def get_str_def take_Suc_conv_app_nth)

lemma flush_outcome:
  assumes "posix_write_contract P fd wire" and "writable b" and "pb_filedes b = fd"
  shows "\<exists>ok k w'. flushoutput P (b, w) =
             (if ok then (Inr (Some (pb_pptr b)), (b\<lparr>pb_pptr := 0\<rparr>, w')) else (Inr None, (b, w'))) \<and>
           wire w' = wire w @ take k (get_str b) \<and> (\<not> ok \<longrightarrow> k = 0) \<and>
           (takes_all P fd \<longrightarrow> ok \<and> take k (get_str b) = get_str b)"
proof -
  obtain r w' where rw: "px_write P w fd (get_str b) = (r, w')" by fastforce
  with assms(1) have r: "r = - 1 \<and> wire w' = wire w \<or>
      0 \<le> r \<and> r \<le> int (length (get_str b)) \<and> wire w' = wire w @ take (nat r) (get_str b)"
    unfolding posix_write_contract_def by blast
  have all: "r = int (length (get_str b))" if "takes_all P fd" using that rw unfolding takes_all_def by (metis fst_conv)
  from flush_writable [OF assms(2), of P w r w'] rw assms(3) r all show ?thesis
    by (intro exI [of _ "r \<noteq> - 1"] exI [of _ "nat r"] exI [of _ w']) auto
qed

text \<open>One character: it joins what the buffer holds, and a full buffer is written.\<close>

definition put_state :: "int \<Rightarrow> prebuffer \<Rightarrow> bool" where
  "put_state fd b \<longleftrightarrow> writable b \<and> pb_filedes b = fd \<and> length (pb_buffer b) = s_buf_size \<and> pb_pptr b \<le> s_buf_size"

lemma sputc_outcome:
  assumes "posix_write_contract P fd wire" and ready: "put_ready fd b"
  shows "\<exists>ok b' w'. pb_sputc P c (b, w) = (Inr ok, (b', w')) \<and> put_state fd b' \<and> (takes_all P fd \<longrightarrow> ok) \<and>
           (ok \<longrightarrow> put_ready fd b') \<and>
           (get_str b' = get_str b @ [c] \<and> wire w' = wire w \<or>
            ok \<and> get_str b' = [] \<and> length (get_str b @ [c]) = s_buf_size \<and>
            (\<exists>x. prefix x (get_str b @ [c]) \<and> wire w' = wire w @ x \<and> (takes_all P fd \<longrightarrow> x = get_str b @ [c])))"
proof -
  have room: "length (pb_buffer b) = s_buf_size" "pb_pptr b < s_buf_size" "writable b" "pb_filedes b = fd"
    using ready by (auto simp: put_ready_def pb_sizes)
  obtain b1 where b1: "pb_store c (b, w) = (Inr (), (b1, w))" "get_str b1 = get_str b @ [c]" "pb_pptr b1 = pb_pptr b + 1"
    "length (pb_buffer b1) = s_buf_size" "pb_mode b1 = pb_mode b" "pb_filedes b1 = fd"
    using store_run [OF room(1,2)] room(4) by metis
  have wr: "writable b1" using room(3,4) b1(5,6) by (simp add: writable_def is_open_def)
  have st: "put_state fd b1" using wr b1 room(2) by (simp add: put_state_def)
  show ?thesis
  proof (cases "pb_pptr b < pb_epptr")
    case True
    with b1 wr have "put_ready fd b1" by (simp add: put_ready_def)
    with True b1 st show ?thesis by (auto simp: pb_sputc_def bindE_def ret_def)
  next
    case False
    obtain ok k w' where f: "flushoutput P (b1, w) =
        (if ok then (Inr (Some (pb_pptr b1)), (b1\<lparr>pb_pptr := 0\<rparr>, w')) else (Inr None, (b1, w')))"
      "wire w' = wire w @ take k (get_str b1)" "\<not> ok \<longrightarrow> k = 0" "takes_all P fd \<longrightarrow> ok \<and> take k (get_str b1) = get_str b1"
      using flush_outcome [OF assms(1) wr b1(6), of w] by blast
    have io: "is_open b" using room(3) by (simp add: writable_def)
    have run: "pb_sputc P c (b, w) = (Inr ok, (if ok then b1\<lparr>pb_pptr := 0\<rparr> else b1, w'))"
      using False f(1) b1(1) mode_out_writable [OF room(3), of w] io
      by (simp add: pb_sputc_def pb_overflow_def bindE_def ret_def)
    show ?thesis
    proof (cases ok)
      case True
      let ?b = "b1\<lparr>pb_pptr := 0\<rparr>"
      have "put_ready fd ?b" "put_state fd ?b" "get_str ?b = []" using wr b1(4,6)
        by (simp_all add: put_ready_def put_state_def writable_def is_open_def get_str_def)
      moreover have "length (get_str b @ [c]) = s_buf_size"
        using False ready by (simp add: get_str_def put_ready_def pb_sizes)
      moreover have "prefix (take k (get_str b1)) (get_str b @ [c])" by (metis b1(2) take_is_prefix)
      ultimately show ?thesis using run True f(2,4) b1(2) by auto
    next
      case no: False
      with run f(2-4) st b1(2) show ?thesis by auto
    qed
  qed
qed

text \<open>
  Many characters. The call ends early when a write reports an error; the character that made the
  buffer full is then in the buffer, but not counted.
\<close>

lemma sputn_outcome:
  assumes "posix_write_contract P fd wire" and "put_ready fd b"
  shows "\<exists>n b' w' bl out. pb_sputn P cs (b, w) = (Inr n, (b', w')) \<and> n \<le> length cs \<and> put_state fd b' \<and>
           get_str b @ take (if n = length cs then n else Suc n) cs = concat bl @ get_str b' \<and>
           (\<forall>x \<in> set bl. length x = s_buf_size) \<and> first_parts bl out \<and> wire w' = wire w @ out \<and>
           (takes_all P fd \<longrightarrow> n = length cs \<and> out = concat bl)"
  using assms(2)
proof (induction cs arbitrary: b w)
  case Nil
  then have "put_state fd b" by (simp add: put_ready_def put_state_def pb_sizes)
  then show ?case by (intro exI [of _ 0] exI [of _ b] exI [of _ w] exI [of _ "[]"]) (simp add: ret_def)
next
  case (Cons c cs)
  obtain ok b1 w1 where 1: "pb_sputc P c (b, w) = (Inr ok, (b1, w1))" "put_state fd b1" "takes_all P fd \<longrightarrow> ok"
    "ok \<longrightarrow> put_ready fd b1"
    and d: "get_str b1 = get_str b @ [c] \<and> wire w1 = wire w \<or>
            ok \<and> get_str b1 = [] \<and> length (get_str b @ [c]) = s_buf_size \<and>
            (\<exists>x. prefix x (get_str b @ [c]) \<and> wire w1 = wire w @ x \<and> (takes_all P fd \<longrightarrow> x = get_str b @ [c]))"
    using sputc_outcome [OF assms(1) Cons.prems, of c w] by blast
  show ?case
  proof (cases ok)
    case False
    with 1 d show ?thesis
      by (intro exI [of _ 0] exI [of _ b1] exI [of _ w1] exI [of _ "[]"]) (auto simp: bindE_def ret_def)
  next
    case True
    with 1(4) have ready: "put_ready fd b1" by simp
    obtain n b2 w2 bl out where 2: "pb_sputn P cs (b1, w1) = (Inr n, (b2, w2))" "n \<le> length cs" "put_state fd b2"
      and t: "get_str b1 @ take (if n = length cs then n else Suc n) cs = concat bl @ get_str b2"
      and bl: "\<forall>x \<in> set bl. length x = s_buf_size" "first_parts bl out" "wire w2 = wire w1 @ out"
        "takes_all P fd \<longrightarrow> n = length cs \<and> out = concat bl"
      using Cons.IH [OF ready, of w1] by blast
    have run: "pb_sputn P (c # cs) (b, w) = (Inr (Suc n), (b2, w2))" using 1(1) 2(1) True by (simp add: bindE_def ret_def)
    have more: "take (if Suc n = length (c # cs) then Suc n else Suc (Suc n)) (c # cs) =
        c # take (if n = length cs then n else Suc n) cs" by simp
    from d show ?thesis
    proof
      assume "get_str b1 = get_str b @ [c] \<and> wire w1 = wire w"
      with run more 2(2,3) t bl show ?thesis
        by (intro exI [of _ "Suc n"] exI [of _ b2] exI [of _ w2] exI [of _ bl] exI [of _ out]) simp
    next
      assume "ok \<and> get_str b1 = [] \<and> length (get_str b @ [c]) = s_buf_size \<and>
            (\<exists>x. prefix x (get_str b @ [c]) \<and> wire w1 = wire w @ x \<and> (takes_all P fd \<longrightarrow> x = get_str b @ [c]))"
      then obtain x where x: "get_str b1 = []" "length (get_str b @ [c]) = s_buf_size" "prefix x (get_str b @ [c])"
        "wire w1 = wire w @ x" "takes_all P fd \<longrightarrow> x = get_str b @ [c]" by blast
      from first_parts_Cons [OF x(3) bl(2)] run more 2(2,3) t bl x show ?thesis
        by (intro exI [of _ "Suc n"] exI [of _ b2] exI [of _ w2] exI [of _ "(get_str b @ [c]) # bl"] exI [of _ "x @ out"]) simp
    qed
  qed
qed

section \<open>Reading\<close>

text \<open>
  A descriptor whose next reads deliver these chunks, of any sizes that \<open>read\<close> may deliver, and then
  the end of the file or an error, which the code does not tell apart.
\<close>

definition delivers :: "'w posix \<Rightarrow> int \<Rightarrow> ('w \<Rightarrow> bytes list) \<Rightarrow> bool" where
  "delivers P fd chunks \<longleftrightarrow>
     (\<forall>w. (case chunks w of
             [] \<Rightarrow> (\<exists>r bs w'. px_read P w fd (s_buf_size - s_pback_size) = ((r, bs), w') \<and> r \<le> 0 \<and> chunks w' = [])
           | c # cs \<Rightarrow> c \<noteq> [] \<and> length c \<le> s_buf_size - s_pback_size \<and>
               (\<exists>w'. px_read P w fd (s_buf_size - s_pback_size) = ((int (length c), c), w') \<and> chunks w' = cs)))"

lemma delivers_Nil:
  "delivers P fd chunks \<Longrightarrow> chunks w = [] \<Longrightarrow>
     \<exists>r bs w'. px_read P w fd (s_buf_size - s_pback_size) = ((r, bs), w') \<and> r \<le> 0 \<and> chunks w' = []"
  unfolding delivers_def by (drule spec [of _ w]) simp

lemma delivers_Cons:
  "delivers P fd chunks \<Longrightarrow> chunks w = c # cs \<Longrightarrow>
     c \<noteq> [] \<and> length c \<le> s_buf_size - s_pback_size \<and>
     (\<exists>w'. px_read P w fd (s_buf_size - s_pback_size) = ((int (length c), c), w') \<and> chunks w' = cs)"
  unfolding delivers_def by (drule spec [of _ w]) simp

definition unread :: "prebuffer \<Rightarrow> bytes" where
  "unread b = take (pb_egptr b - pb_gptr b) (drop (pb_gptr b) (pb_buffer b))"

text \<open>A get area that can be refilled: the bytes kept for putback are not in the way.\<close>

definition get_ready :: "int \<Rightarrow> prebuffer \<Rightarrow> bool" where
  "get_ready fd b \<longleftrightarrow>
     pb_filedes b = fd \<and> length (pb_buffer b) = s_buf_size \<and> s_pback_size \<le> pb_gptr b \<and>
     pb_eback b \<le> pb_gptr b \<and> pb_gptr b \<le> pb_egptr b \<and> pb_egptr b \<le> s_buf_size"

definition refillable :: "prebuffer \<Rightarrow> bool" where
  "refillable b \<longleftrightarrow> pb_eback b = s_pback_size \<or> 2 * s_pback_size \<le> pb_egptr b"

lemma unread_empty: "get_ready fd b \<Longrightarrow> unread b = [] \<longleftrightarrow> pb_gptr b = pb_egptr b"
  by (auto simp: get_ready_def unread_def)

lemma sbumpc_unread:
  assumes "get_ready fd b" and "unread b = c # cs"
  shows "pb_sbumpc P (b, w) = (Inr (Some c), (b\<lparr>pb_gptr := pb_gptr b + 1\<rparr>, w))"
    and "get_ready fd (b\<lparr>pb_gptr := pb_gptr b + 1\<rparr>)" and "unread (b\<lparr>pb_gptr := pb_gptr b + 1\<rparr>) = cs"
proof -
  have lt: "pb_gptr b < pb_egptr b" "pb_gptr b < length (pb_buffer b)"
    using assms unread_empty [OF assms(1)] by (auto simp: get_ready_def)
  then have "drop (pb_gptr b) (pb_buffer b) = pb_current b # drop (pb_gptr b + 1) (pb_buffer b)"
    by (simp add: pb_current_def Cons_nth_drop_Suc)
  moreover have "pb_egptr b - pb_gptr b = Suc (pb_egptr b - (pb_gptr b + 1))" using lt by simp
  ultimately have "pb_current b = c" "unread (b\<lparr>pb_gptr := pb_gptr b + 1\<rparr>) = cs"
    using assms(2) by (simp_all add: unread_def)
  with lt show "pb_sbumpc P (b, w) = (Inr (Some c), (b\<lparr>pb_gptr := pb_gptr b + 1\<rparr>, w))"
    "unread (b\<lparr>pb_gptr := pb_gptr b + 1\<rparr>) = cs"
    by (simp_all add: pb_sbumpc_def pb_sgetc_def bindE_def)
  show "get_ready fd (b\<lparr>pb_gptr := pb_gptr b + 1\<rparr>)" using assms(1) lt by (simp add: get_ready_def)
qed

lemma memcpy_length:
  "dst + n \<le> length buf \<Longrightarrow> src + n \<le> length buf \<Longrightarrow>
     length (take dst buf @ take n (drop src buf) @ drop (dst + n) buf) = length buf"
  by simp

text \<open>The copy for putback, where it is defined.\<close>

lemma putback_run:
  assumes "get_ready fd b" and "unread b = []" and "refillable b"
  defines "n \<equiv> min (pb_gptr b - pb_eback b) s_pback_size"
  shows "\<exists>buf. pb_memcpy (s_pback_size - n) (pb_gptr b - n) n (b, w) = (Inr (), (b\<lparr>pb_buffer := buf\<rparr>, w)) \<and>
           length buf = s_buf_size"
proof -
  have g: "pb_gptr b = pb_egptr b" using assms(2) unread_empty [OF assms(1)] by simp
  have apart: "\<not> (n > 0 \<and> s_pback_size - n < pb_gptr b - n + n \<and> pb_gptr b - n < s_pback_size - n + n)"
    using assms(1,3) g unfolding n_def refillable_def get_ready_def by auto
  have "s_pback_size - n + n \<le> length (pb_buffer b)" "pb_gptr b - n + n \<le> length (pb_buffer b)"
    using assms(1) unfolding n_def get_ready_def pb_sizes by auto
  with memcpy_length assms(1) have "length (take (s_pback_size - n) (pb_buffer b) @ take n (drop (pb_gptr b - n) (pb_buffer b)) @
      drop (s_pback_size - n + n) (pb_buffer b)) = s_buf_size" unfolding get_ready_def by metis
  with apart show ?thesis unfolding pb_memcpy_def by (simp only: prod.case if_False) blast
qed

lemma sgetc_refill:
  assumes "delivers P fd chunks" and "get_ready fd b" and "unread b = []" and "refillable b" and "chunks w = (c # cs) # css"
  shows "\<exists>b' w'. pb_sgetc P (b, w) = (Inr (Some c), (b', w')) \<and> get_ready fd b' \<and> unread b' = c # cs \<and> chunks w' = css \<and>
           pb_egptr b' = s_pback_size + Suc (length cs) \<and>
           pb_eback b' = s_pback_size - min (pb_gptr b - pb_eback b) s_pback_size"
proof -
  define n where "n = min (pb_gptr b - pb_eback b) s_pback_size"
  obtain buf where buf: "pb_memcpy (s_pback_size - n) (pb_gptr b - n) n (b, w) = (Inr (), (b\<lparr>pb_buffer := buf\<rparr>, w))"
    "length buf = s_buf_size" using putback_run [OF assms(2-4), of w] unfolding n_def by (elim exE conjE)
  obtain w' where w': "px_read P w fd (s_buf_size - s_pback_size) = ((int (length (c # cs)), c # cs), w')" "chunks w' = css"
    using delivers_Cons [OF assms(1,5)] by (elim conjE exE)
  have len: "length (c # cs) \<le> s_buf_size - s_pback_size" using delivers_Cons [OF assms(1,5)] by (elim conjE)
  have g: "pb_gptr b = pb_egptr b" "pb_filedes b = fd" using assms(2,3) unread_empty [OF assms(2)] by (auto simp: get_ready_def)
  then have nlt: "\<not> pb_gptr b < pb_egptr b" by simp
  define b' where "b' = pb_setg (s_pback_size - n) s_pback_size (s_pback_size + length (c # cs)) (pb_fill (c # cs) (b\<lparr>pb_buffer := buf\<rparr>))"
  have b': "get_ready fd b'" "unread b' = c # cs" using len g buf(2)
    unfolding b'_def get_ready_def unread_def pb_setg_def pb_fill_def pb_sizes by simp_all
  have "pb_buffer b' ! s_pback_size = c" using len buf(2) unfolding b'_def pb_setg_def pb_fill_def pb_sizes by (simp add: nth_append)
  then have "pb_current b' = c" by (simp add: pb_current_def b'_def pb_setg_def)
  then have "pb_underflow P (b, w) = (Inr (Some c), (b', w'))"
    using nlt g(2) w'(1) buf(1)
    by (simp del: of_nat_Suc list.size add: pb_underflow_def bindE_def Let_def n_def [symmetric] b'_def [symmetric])
  then have "pb_sgetc P (b, w) = (Inr (Some c), (b', w'))" using nlt by (simp add: pb_sgetc_def)
  with b' w'(2) show ?thesis
    by (intro exI [of _ b'] exI [of _ w']) (simp add: b'_def pb_setg_def n_def)
qed

text \<open>\<open>sbumpc\<close> is \<open>sgetc\<close> and one step.\<close>

lemma sbumpc_sgetc:
  assumes "pb_sgetc P (b, w) = (Inr (Some c), (b', w'))"
  shows "pb_sbumpc P (b, w) = (Inr (Some c), (b'\<lparr>pb_gptr := pb_gptr b' + 1\<rparr>, w'))"
  using assms by (simp add: pb_sbumpc_def bindE_def)

lemma sbumpc_refill:
  assumes "delivers P fd chunks" and "get_ready fd b" and "unread b = []" and "refillable b" and "chunks w = (c # cs) # css"
  shows "\<exists>b' w'. pb_sbumpc P (b, w) = (Inr (Some c), (b', w')) \<and> get_ready fd b' \<and> unread b' = cs \<and> chunks w' = css \<and>
           pb_egptr b' = s_pback_size + Suc (length cs) \<and>
           pb_eback b' = s_pback_size - min (pb_gptr b - pb_eback b) s_pback_size"
proof -
  obtain b' w' where b': "pb_sgetc P (b, w) = (Inr (Some c), (b', w'))" "get_ready fd b'" "unread b' = c # cs"
    "chunks w' = css" "pb_egptr b' = s_pback_size + Suc (length cs)"
    "pb_eback b' = s_pback_size - min (pb_gptr b - pb_eback b) s_pback_size"
    using sgetc_refill [OF assms] by (elim exE conjE)
  from sbumpc_sgetc [OF b'(1)] sbumpc_unread(2,3) [OF b'(2,3)] b'(4-6) show ?thesis
    by (intro exI [of _ "b'\<lparr>pb_gptr := pb_gptr b' + 1\<rparr>"] exI [of _ w']) simp
qed

lemma sgetc_eof:
  assumes "delivers P fd chunks" and "get_ready fd b" and "unread b = []" and "refillable b" and "chunks w = []"
  shows "\<exists>buf w'. pb_sgetc P (b, w) = (Inr None, (b\<lparr>pb_buffer := buf\<rparr>, w')) \<and> length buf = s_buf_size \<and> chunks w' = []"
proof -
  define n where "n = min (pb_gptr b - pb_eback b) s_pback_size"
  obtain buf where buf: "pb_memcpy (s_pback_size - n) (pb_gptr b - n) n (b, w) = (Inr (), (b\<lparr>pb_buffer := buf\<rparr>, w))"
    "length buf = s_buf_size" using putback_run [OF assms(2-4), of w] unfolding n_def by (elim exE conjE)
  obtain r bs w' where w': "px_read P w fd (s_buf_size - s_pback_size) = ((r, bs), w')" "r \<le> 0" "chunks w' = []"
    using delivers_Nil [OF assms(1,5)] by (elim exE conjE)
  have g: "\<not> pb_gptr b < pb_egptr b" "pb_filedes b = fd" using assms(2,3) unread_empty [OF assms(2)] by (auto simp: get_ready_def)
  then have "pb_underflow P (b, w) = (Inr None, (b\<lparr>pb_buffer := buf\<rparr>, w'))"
    using w' buf by (simp add: pb_underflow_def bindE_def Let_def n_def [symmetric])
  with g(1) buf(2) w'(3) show ?thesis by (auto simp: pb_sgetc_def)
qed

lemma sbumpc_eof:
  assumes "delivers P fd chunks" and "get_ready fd b" and "unread b = []" and "refillable b" and "chunks w = []"
  shows "\<exists>s'. pb_sbumpc P (b, w) = (Inr None, s')"
proof -
  obtain buf w' where "pb_sgetc P (b, w) = (Inr None, (b\<lparr>pb_buffer := buf\<rparr>, w'))"
    using sgetc_eof [OF assms] by (elim exE conjE)
  then show ?thesis by (simp add: pb_sbumpc_def bindE_def)
qed

text \<open>
  Where the copy for putback is not defined: the block before was shorter than the four bytes kept, and
  bytes before it are kept too.
\<close>

lemma sgetc_overlaps:
  assumes "get_ready fd b" and "unread b = []" and "\<not> refillable b" and "pb_eback b \<le> s_pback_size"
  shows "pb_sgetc P (b, w) = (Inl overlap, (b, w))"
proof -
  define n where "n = min (pb_gptr b - pb_eback b) s_pback_size"
  have g: "pb_gptr b = pb_egptr b" using assms(2) unread_empty [OF assms(1)] by simp
  have "n > 0 \<and> s_pback_size - n < pb_gptr b - n + n \<and> pb_gptr b - n < s_pback_size - n + n"
    using assms(1,3,4) g unfolding n_def refillable_def get_ready_def by auto
  then have "pb_memcpy (s_pback_size - n) (pb_gptr b - n) n (b, w) = (Inl overlap, (b, w))"
    by (simp add: pb_memcpy_def)
  moreover have "\<not> pb_gptr b < pb_egptr b" using g by simp
  ultimately show ?thesis by (simp add: pb_sgetc_def pb_underflow_def bindE_def Let_def n_def [symmetric])
qed

text \<open>
  The blocks that can be read: behind the first one that is shorter than what is kept for putback
  nothing can. The first block of a new buffer may be short, as nothing is kept before it.
\<close>

fun intact :: "bytes list \<Rightarrow> bytes list" where
  "intact [] = []"
| "intact (c # cs) = c # (if s_pback_size \<le> length c then intact cs else [])"

fun readable :: "bytes list \<Rightarrow> bytes list" where
  "readable [] = []"
| "readable (c # cs) = c # intact cs"

definition all_long :: "bytes list \<Rightarrow> bool" where
  "all_long cs \<longleftrightarrow> (\<forall>c \<in> set cs. s_pback_size \<le> length c)"

lemma all_long_simps [simp]: "all_long []" "all_long (c # cs) \<longleftrightarrow> s_pback_size \<le> length c \<and> all_long cs"
  by (simp_all add: all_long_def)

lemma intact_all_long: "all_long cs \<Longrightarrow> intact cs = cs"
  by (induction cs) auto

lemma readable_all_long: "all_long (tl cs) \<Longrightarrow> readable cs = cs"
  by (cases cs) (simp_all add: intact_all_long)

lemma intact_prefix: "prefix (intact cs) cs"
  by (induction cs) auto

lemma readable_prefix: "prefix (concat (readable cs)) (concat cs)"
proof (cases cs)
  case (Cons c css)
  obtain zs where "css = intact css @ zs" using intact_prefix unfolding prefix_def by blast
  then have "concat css = concat (intact css) @ concat zs" by (metis concat_append)
  with Cons show ?thesis by simp
qed simp

text \<open>What can still be taken from a buffer, and whether the end of the file follows it.\<close>

definition get_state :: "int \<Rightarrow> prebuffer \<Rightarrow> bool" where
  "get_state fd b \<longleftrightarrow> get_ready fd b \<and> pb_eback b \<le> s_pback_size"

definition fresh :: "prebuffer \<Rightarrow> bool" where
  "fresh b \<longleftrightarrow> unread b = [] \<and> pb_gptr b = pb_eback b"

definition left :: "('w \<Rightarrow> bytes list) \<Rightarrow> prebuffer \<times> 'w \<Rightarrow> bytes" where
  "left chunks = (\<lambda>(b, w).
     unread b @ (if refillable b then concat (if fresh b then readable (chunks w) else intact (chunks w)) else []))"

definition ends_well :: "('w \<Rightarrow> bytes list) \<Rightarrow> prebuffer \<times> 'w \<Rightarrow> bool" where
  "ends_well chunks = (\<lambda>(b, w). refillable b \<and> all_long (if fresh b then tl (chunks w) else chunks w))"

lemma refill_left:
  assumes "delivers P fd chunks" and "get_state fd b" and "unread b = []" and "refillable b" and "chunks w = (c # cs) # css"
  shows "\<exists>b' w'. pb_sgetc P (b, w) = (Inr (Some c), (b', w')) \<and> get_state fd b' \<and> unread b' = c # cs \<and>
           left chunks (b', w') = left chunks (b, w) \<and> ends_well chunks (b', w') = ends_well chunks (b, w)"
proof -
  from assms(2) have g: "get_ready fd b" "pb_eback b \<le> pb_gptr b" by (auto simp: get_state_def get_ready_def)
  obtain b' w' where b': "pb_sgetc P (b, w) = (Inr (Some c), (b', w'))" "get_ready fd b'" "unread b' = c # cs"
    "chunks w' = css" "pb_egptr b' = s_pback_size + Suc (length cs)"
    "pb_eback b' = s_pback_size - min (pb_gptr b - pb_eback b) s_pback_size"
    using sgetc_refill [OF assms(1) g(1) assms(3-5)] by (elim exE conjE)
  have "fresh b \<longleftrightarrow> pb_eback b' = s_pback_size"
    using b'(6) g(2) assms(3) by (auto simp: fresh_def pb_sizes)
  with b'(5) have "refillable b' \<longleftrightarrow> fresh b \<or> s_pback_size \<le> length (c # cs)" by (auto simp: refillable_def)
  moreover have "\<not> fresh b'" by (simp add: fresh_def b'(3))
  ultimately have "left chunks (b', w') = left chunks (b, w)" "ends_well chunks (b', w') = ends_well chunks (b, w)"
    using b'(3,4) assms(3-5) by (auto simp: left_def ends_well_def)
  moreover have "get_state fd b'" using b'(2,6) by (simp add: get_state_def)
  ultimately show ?thesis using b'(1,3) by blast
qed

text \<open>Looking: at the first character of what is left, at its end the end of the file or the bad copy.\<close>

lemma sgetc_left:
  assumes "delivers P fd chunks" and "get_state fd b" and "left chunks (b, w) = c # cs"
  shows "\<exists>b' w' ys. pb_sgetc P (b, w) = (Inr (Some c), (b', w')) \<and> get_state fd b' \<and> unread b' = c # ys \<and>
           left chunks (b', w') = c # cs \<and> ends_well chunks (b', w') = ends_well chunks (b, w)"
proof (cases "unread b")
  case (Cons d ys)
  from assms(2) have g: "get_ready fd b" by (simp add: get_state_def)
  have "pb_gptr b < pb_egptr b" using Cons unread_empty [OF g] g by (auto simp: get_ready_def)
  with sbumpc_unread(1) [OF g Cons, of P w] have "pb_sgetc P (b, w) = (Inr (Some d), (b, w))"
    by (simp add: pb_sbumpc_def pb_sgetc_def bindE_def)
  with Cons assms(2,3) show ?thesis by (simp add: left_def)
next
  case Nil
  with assms(3) have r: "refillable b" "chunks w \<noteq> []" by (auto simp: left_def split: if_splits)
  then obtain x css where x: "chunks w = x # css" by (cases "chunks w") auto
  with delivers_Cons [OF assms(1)] obtain d ds where d: "x = d # ds" by (cases x) auto
  with x Nil assms(3) r(1) have "d = c" by (auto simp: left_def split: if_splits)
  with x d have "chunks w = (c # ds) # css" by simp
  from refill_left [OF assms(1,2) Nil r(1) this] assms(3) show ?thesis by auto
qed

lemma sgetc_end:
  assumes "delivers P fd chunks" and "get_state fd b" and "left chunks (b, w) = []"
  shows "ends_well chunks (b, w) \<Longrightarrow> \<exists>b' w'. pb_sgetc P (b, w) = (Inr None, (b', w')) \<and> get_state fd b' \<and>
           left chunks (b', w') = [] \<and> ends_well chunks (b', w')"
    and "\<not> ends_well chunks (b, w) \<Longrightarrow> pb_sgetc P (b, w) = (Inl overlap, (b, w))"
proof -
  from assms(2,3) have g: "get_ready fd b" "pb_eback b \<le> s_pback_size" "unread b = []" by (auto simp: get_state_def left_def)
  have empty: "chunks w = []" if "refillable b"
    using that assms(3) delivers_Cons [OF assms(1), of w] by (cases "chunks w") (auto simp: left_def split: if_splits)
  show "\<exists>b' w'. pb_sgetc P (b, w) = (Inr None, (b', w')) \<and> get_state fd b' \<and>
           left chunks (b', w') = [] \<and> ends_well chunks (b', w')" if "ends_well chunks (b, w)"
  proof -
    from that have r: "refillable b" by (simp add: ends_well_def)
    from sgetc_eof [OF assms(1) g(1,3) r empty [OF r]] obtain buf w'
      where s: "pb_sgetc P (b, w) = (Inr None, (b\<lparr>pb_buffer := buf\<rparr>, w'))" "length buf = s_buf_size" "chunks w' = []"
      by (elim exE conjE)
    have "get_state fd (b\<lparr>pb_buffer := buf\<rparr>)" "left chunks (b\<lparr>pb_buffer := buf\<rparr>, w') = []"
      "ends_well chunks (b\<lparr>pb_buffer := buf\<rparr>, w')"
      using g r s(2,3) unread_empty [OF g(1)]
      by (auto simp: get_state_def get_ready_def left_def ends_well_def refillable_def unread_def)
    with s(1) show ?thesis by blast
  qed
  show "pb_sgetc P (b, w) = (Inl overlap, (b, w))" if "\<not> ends_well chunks (b, w)"
    using that sgetc_overlaps [OF g(1,3) _ g(2)] empty by (cases "refillable b") (auto simp: ends_well_def split: if_splits)
qed

text \<open>Advancing over the character looked at.\<close>

lemma bump_left:
  assumes "get_state fd b" and "unread b = c # ys" and "left chunks (b, w) = c # cs"
  defines "b' \<equiv> b\<lparr>pb_gptr := pb_gptr b + 1\<rparr>"
  shows "get_state fd b'" and "left chunks (b', w) = cs" and "ends_well chunks (b', w) = ends_well chunks (b, w)"
proof -
  from assms(1) have g: "get_ready fd b" "pb_eback b \<le> pb_gptr b" by (auto simp: get_state_def get_ready_def)
  note step = sbumpc_unread(2,3) [OF g(1) assms(2), folded b'_def]
  have "\<not> fresh b" "\<not> fresh b'" "refillable b' = refillable b" "pb_eback b' = pb_eback b"
    using g(2) assms(2) by (simp_all add: fresh_def refillable_def b'_def)
  with step assms(1) assms(3) assms(2) show "get_state fd b'" "left chunks (b', w) = cs"
    "ends_well chunks (b', w) = ends_well chunks (b, w)"
    by (auto simp: get_state_def left_def ends_well_def split: if_splits)
qed

lemma sbumpc_left:
  assumes "delivers P fd chunks" and "get_state fd b" and "left chunks (b, w) = c # cs"
  shows "\<exists>b' w'. pb_sbumpc P (b, w) = (Inr (Some c), (b', w')) \<and> get_state fd b' \<and>
           left chunks (b', w') = cs \<and> ends_well chunks (b', w') = ends_well chunks (b, w)"
proof -
  obtain b' w' ys where b': "pb_sgetc P (b, w) = (Inr (Some c), (b', w'))" "get_state fd b'" "unread b' = c # ys"
    "left chunks (b', w') = c # cs" "ends_well chunks (b', w') = ends_well chunks (b, w)"
    using sgetc_left [OF assms] by blast
  from bump_left [OF b'(2-4)] sbumpc_sgetc [OF b'(1)] b'(5) show ?thesis by blast
qed

lemma drain_left:
  assumes "delivers P fd chunks" and "get_state fd b"
  shows "\<exists>s'. pb_drain k P (b, w) =
           (if k \<le> length (left chunks (b, w)) \<or> ends_well chunks (b, w) then Inr (take k (left chunks (b, w)))
            else Inl overlap, s')"
  using assms(2)
proof (induction k arbitrary: b w)
  case (Suc k)
  show ?case
  proof (cases "left chunks (b, w)")
    case Nil
    with sgetc_end [OF assms(1) Suc.prems Nil] show ?thesis
      by (cases "ends_well chunks (b, w)") (auto simp: pb_sbumpc_def bindE_def ret_def)
  next
    case (Cons c cs)
    with sbumpc_left [OF assms(1) Suc.prems] obtain b' w' where b': "pb_sbumpc P (b, w) = (Inr (Some c), (b', w'))"
      "get_state fd b'" "left chunks (b', w') = cs" "ends_well chunks (b', w') = ends_well chunks (b, w)" by blast
    with Suc.IH [OF b'(2), of w'] Cons show ?thesis by (auto simp: bindE_def ret_def)
  qed
qed (auto simp: ret_def)

lemma drain_unread:
  "get_ready fd b \<Longrightarrow> k \<le> length (unread b) \<Longrightarrow>
     pb_drain k P (b, w) = (Inr (take k (unread b)), (b\<lparr>pb_gptr := pb_gptr b + k\<rparr>, w))"
proof (induction k arbitrary: b)
  case (Suc k)
  then obtain x xs where un: "unread b = x # xs" by (cases "unread b") auto
  note run = sbumpc_unread [OF Suc.prems(1) un]
  from Suc.IH [OF run(2)] Suc.prems(2) run(1) [of P w] run(3) un show ?case by (simp add: bindE_def ret_def)
qed (simp add: ret_def)

lemma drain_append:
  assumes "pb_drain j P s = (Inr xs, s1)" and "length xs = j" and "pb_drain k P s1 = (Inr ys, s2)"
  shows "pb_drain (j + k) P s = (Inr (xs @ ys), s2)"
  using assms(1,2)
proof (induction j arbitrary: s xs)
  case (Suc j)
  obtain c s' where c: "pb_sbumpc P s = (Inr c, s')" using Suc.prems(1)
    by (cases "pb_sbumpc P s"; cases "fst (pb_sbumpc P s)") (auto simp: bindE_def)
  with Suc.prems obtain x where x: "c = Some x" by (cases c) (auto simp: bindE_def ret_def)
  with Suc.prems c obtain xs' where xs': "pb_drain j P s' = (Inr xs', s1)" "xs = x # xs'"
    by (auto simp: bindE_def ret_def split: prod.splits sum.splits)
  with Suc.IH [of s' xs'] Suc.prems(2) c x show ?case by (simp add: bindE_def ret_def)
qed (use assms(3) in \<open>simp add: ret_def\<close>)

text \<open>Reading exactly one chunk.\<close>

lemma drain_chunk:
  assumes "delivers P fd chunks" and "get_ready fd b" and "unread b = []" and "refillable b" and "chunks w = c # css"
  shows "\<exists>b' w'. pb_drain (length c) P (b, w) = (Inr c, (b', w')) \<and> get_ready fd b' \<and> unread b' = [] \<and> chunks w' = css \<and>
           pb_egptr b' = s_pback_size + length c \<and> pb_eback b' = s_pback_size - min (pb_gptr b - pb_eback b) s_pback_size"
proof -
  obtain x xs where c: "c = x # xs" using delivers_Cons [OF assms(1,5)] by (cases c) auto
  then obtain b1 w1 where 1: "pb_sbumpc P (b, w) = (Inr (Some x), (b1, w1))" "get_ready fd b1" "unread b1 = xs"
    "chunks w1 = css" "pb_egptr b1 = s_pback_size + Suc (length xs)"
    "pb_eback b1 = s_pback_size - min (pb_gptr b - pb_eback b) s_pback_size"
    using sbumpc_refill [OF assms(1-4), of w x xs css] assms(5) by metis
  have len: "length xs = pb_egptr b1 - pb_gptr b1" using 1(2,3) by (auto simp: get_ready_def unread_def)
  let ?b = "b1\<lparr>pb_gptr := pb_gptr b1 + length xs\<rparr>"
  have "get_ready fd ?b" "unread ?b = []" using 1(2) len by (auto simp: get_ready_def unread_def)
  moreover have "pb_drain (length c) P (b, w) = (Inr c, (?b, w1))"
    using 1(1,3) drain_unread [OF 1(2), of "length xs" P w1] c by (simp add: bindE_def ret_def)
  ultimately show ?thesis using 1 c by (intro exI [of _ ?b] exI [of _ w1]) simp
qed

lemma init_ready:
  assumes "pb_init array fd om th = Inr b" and "length array = s_buf_size"
  shows "get_ready fd b" and "unread b = []" and "refillable b" and "pb_gptr b = s_pback_size" and "pb_eback b = s_pback_size"
    and "pb_pptr b = 0" and "pb_mode b = (if fd > 0 then Some om else None)" and "pb_filedes b = fd"
  using assms by (auto simp: pb_init_def Let_def get_ready_def unread_def refillable_def pb_sizes split: if_splits)

section \<open>The pointers\<close>

text \<open>An operation that keeps the pointers in the array and stores nothing outside it.\<close>

definition oob :: exn where
  "oob = Undefined ''store outside the buffer''"

definition keeps_pointers :: "('w, 'a) prebuffer_action \<Rightarrow> bool" where
  "keeps_pointers m \<longleftrightarrow> (\<forall>b w r b' w'. pb_wf b \<longrightarrow> m (b, w) = (r, (b', w')) \<longrightarrow> pb_wf b' \<and> r \<noteq> Inl oob)"

lemma keeps_pointersD:
  "keeps_pointers m \<Longrightarrow> pb_wf b \<Longrightarrow> m (b, w) = (r, (b', w')) \<Longrightarrow> pb_wf b' \<and> r \<noteq> Inl oob"
  unfolding keeps_pointers_def by blast

lemma keeps_ret [wf_intros]: "keeps_pointers (ret x)"
  by (auto simp: keeps_pointers_def ret_def)

lemma keeps_bind [wf_intros]:
  assumes "keeps_pointers m" and "\<And>x. keeps_pointers (f x)"
  shows "keeps_pointers (bindE m f)"
  unfolding keeps_pointers_def
proof (intro allI impI)
  fix b w r b' w'
  assume wf: "pb_wf b" and run: "bindE m f (b, w) = (r, (b', w'))"
  obtain r1 b1 w1 where m: "m (b, w) = (r1, (b1, w1))" by (metis surj_pair)
  note 1 = keeps_pointersD [OF assms(1) wf m]
  show "pb_wf b' \<and> r \<noteq> Inl oob"
  proof (cases r1)
    case (Inl e)
    with 1 m run show ?thesis by (auto simp: bindE_def)
  next
    case (Inr x)
    with m run have "f x (b1, w1) = (r, (b', w'))" by (simp add: bindE_def)
    with keeps_pointersD [OF assms(2)] 1 show ?thesis by blast
  qed
qed

lemma keeps_mode_out [wf_intros]: "keeps_pointers mode_out"
  by (auto simp: keeps_pointers_def mode_out_def oob_def split: option.splits)

lemma flush_cases:
  assumes "writes_succeed P" and "flushoutput P (b, w) = (r, (b', w'))"
  shows "b' = b \<and> \<not> writable b \<and> r \<noteq> Inl oob \<or> b' = b\<lparr>pb_pptr := 0\<rparr> \<and> (\<exists>n. r = Inr (Some n))"
proof (cases "writable b")
  case True
  obtain v w1 where v: "px_write P w (pb_filedes b) (get_str b) = (v, w1)" by fastforce
  with assms(1) have "v \<noteq> - 1" unfolding writes_succeed_def by (metis fst_conv)
  with flush_writable [OF True v] assms(2) show ?thesis by auto
next
  case False
  with assms(2) show ?thesis
    by (cases "pb_mode b") (auto simp: flushoutput_def mode_out_def bindE_def writable_def oob_def split: if_splits)
qed

lemma keeps_flush [wf_intros]:
  assumes "writes_succeed P"
  shows "keeps_pointers (flushoutput P)"
  unfolding keeps_pointers_def
proof (intro allI impI)
  fix b w r b' w'
  assume "pb_wf b" and "flushoutput P (b, w) = (r, (b', w'))"
  with flush_cases [OF assms this(2)] show "pb_wf b' \<and> r \<noteq> Inl oob" by (auto simp: pb_wf_def)
qed

lemma keeps_sync [wf_intros]: "writes_succeed P \<Longrightarrow> keeps_pointers (pb_sync P)"
  unfolding pb_sync_def by (intro wf_intros)

lemma overflow_safe:
  assumes "writes_succeed P" and wf: "pb_wf b" and run: "pb_overflow P c (b, w) = (r, (b', w'))"
  shows "pb_wf b' \<and> r \<noteq> Inl oob"
proof (cases "writable b")
  case True
  obtain b1 where b1: "(case c of None \<Rightarrow> ret () | Some ch \<Rightarrow> pb_store ch) (b, w) = (Inr (), (b1, w))"
    "pb_wf (b1\<lparr>pb_pptr := 0\<rparr>)" "writable b1"
  proof (cases c)
    case None
    with wf True show ?thesis by (intro that [of b]) (simp_all add: ret_def pb_wf_def)
  next
    case (Some ch)
    with wf True show ?thesis
      by (intro that [of "b\<lparr>pb_buffer := (pb_buffer b)[pb_pptr b := ch], pb_pptr := pb_pptr b + 1\<rparr>"])
        (auto simp: pb_store_def pb_wf_def pb_sizes writable_def is_open_def)
  qed
  obtain r2 b2 w2 where fl: "flushoutput P (b1, w) = (r2, (b2, w2))" by (metis surj_pair)
  from flush_cases [OF assms(1) this] b1(3) have "b2 = b1\<lparr>pb_pptr := 0\<rparr>" "\<exists>n. r2 = Inr (Some n)" by auto
  with run b1(1,2) fl True show ?thesis
    by (auto simp: pb_overflow_def bindE_def mode_out_writable ret_def writable_def)
next
  case False
  with run wf show ?thesis
    by (cases "pb_mode b") (auto simp: pb_overflow_def mode_out_def bindE_def writable_def oob_def split: if_splits)
qed

lemma keeps_overflow [wf_intros]: "writes_succeed P \<Longrightarrow> keeps_pointers (pb_overflow P c)"
  unfolding keeps_pointers_def by (blast dest: overflow_safe)

lemma keeps_sputc [wf_intros]:
  assumes "writes_succeed P"
  shows "keeps_pointers (pb_sputc P c)"
  unfolding keeps_pointers_def
proof (intro allI impI)
  fix b w r b' w'
  assume wf: "pb_wf b" and run: "pb_sputc P c (b, w) = (r, (b', w'))"
  show "pb_wf b' \<and> r \<noteq> Inl oob"
  proof (cases "pb_pptr b < pb_epptr")
    case True
    with wf run show ?thesis by (auto simp: pb_sputc_def pb_store_def bindE_def ret_def pb_wf_def pb_sizes)
  qed (use run overflow_safe [OF assms wf] in \<open>auto simp: pb_sputc_def\<close>)
qed

lemma keeps_sputn [wf_intros]: "writes_succeed P \<Longrightarrow> keeps_pointers (pb_sputn P cs)"
  by (induction cs) (auto intro!: wf_intros)

text \<open>A successful \<open>underflow\<close> leaves something to read.\<close>

lemma underflow_safe:
  assumes "posix_read_contract P" and wf: "pb_wf b" and run: "pb_underflow P (b, w) = (r, (b', w'))"
  shows "pb_wf b' \<and> r \<noteq> Inl oob \<and> (\<forall>c. r = Inr (Some c) \<longrightarrow> pb_gptr b' < pb_egptr b')"
proof (cases "pb_gptr b < pb_egptr b")
  case True
  with wf run show ?thesis by (auto simp: pb_underflow_def)
next
  case False
  define n where "n = min (pb_gptr b - pb_eback b) s_pback_size"
  define buf where "buf = take (s_pback_size - n) (pb_buffer b) @ take n (drop (pb_gptr b - n) (pb_buffer b)) @
    drop (s_pback_size - n + n) (pb_buffer b)"
  have "s_pback_size - n + n \<le> length (pb_buffer b)" "pb_gptr b - n + n \<le> length (pb_buffer b)"
    using wf unfolding n_def pb_wf_def pb_sizes by auto
  with memcpy_length wf have len: "length buf = s_buf_size" unfolding buf_def pb_wf_def by metis
  obtain num bs w1 where rd: "px_read P w (pb_filedes b) (s_buf_size - s_pback_size) = ((num, bs), w1)" by (metis surj_pair)
  with assms(1) have bs: "length bs = nat num" "length bs \<le> s_buf_size - s_pback_size" unfolding posix_read_contract_def by blast+
  have r: "(r, (b', w')) = (Inl overlap, (b, w)) \<or>
      (r, (b', w')) = (Inr None, (b\<lparr>pb_buffer := buf\<rparr>, w1)) \<or>
      0 < num \<and> b' = pb_setg (s_pback_size - n) s_pback_size (s_pback_size + nat num) (pb_fill bs (b\<lparr>pb_buffer := buf\<rparr>)) \<and> (\<exists>c. r = Inr c)"
    using run False rd
    by (auto simp: pb_underflow_def Let_def n_def [symmetric] bindE_def pb_memcpy_def buf_def split: if_splits)
  have "pb_wf (b\<lparr>pb_buffer := buf\<rparr>)" using wf len by (simp add: pb_wf_def)
  moreover have "pb_wf (pb_setg (s_pback_size - n) s_pback_size (s_pback_size + nat num) (pb_fill bs (b\<lparr>pb_buffer := buf\<rparr>)))"
    using wf len bs by (simp add: pb_wf_def pb_setg_def pb_fill_def pb_sizes)
  ultimately show ?thesis using r wf by (auto simp: oob_def overlap_def pb_setg_def)
qed

lemma sgetc_safe:
  assumes "posix_read_contract P" and wf: "pb_wf b" and run: "pb_sgetc P (b, w) = (r, (b', w'))"
  shows "pb_wf b' \<and> r \<noteq> Inl oob \<and> (\<forall>c. r = Inr (Some c) \<longrightarrow> pb_gptr b' < pb_egptr b')"
  using run wf underflow_safe [OF assms(1) wf] by (auto simp: pb_sgetc_def split: if_splits)

lemma keeps_sgetc: "posix_read_contract P \<Longrightarrow> keeps_pointers (pb_sgetc P)"
  unfolding keeps_pointers_def by (blast dest: sgetc_safe)

lemma keeps_underflow: "posix_read_contract P \<Longrightarrow> keeps_pointers (pb_underflow P)"
  unfolding keeps_pointers_def by (blast dest: underflow_safe)

lemma keeps_sbumpc:
  assumes "posix_read_contract P"
  shows "keeps_pointers (pb_sbumpc P)"
  unfolding keeps_pointers_def
proof (intro allI impI)
  fix b w r b' w'
  assume wf: "pb_wf b" and run: "pb_sbumpc P (b, w) = (r, (b', w'))"
  obtain r1 b1 w1 where g: "pb_sgetc P (b, w) = (r1, (b1, w1))" by (metis surj_pair)
  from sgetc_safe [OF assms wf g] run g show "pb_wf b' \<and> r \<noteq> Inl oob"
    by (auto simp: pb_sbumpc_def bindE_def pb_wf_def split: sum.splits option.splits)
qed

lemma keeps_close:
  assumes "writes_succeed P"
  shows "keeps_pointers (pb_close P)"
  unfolding keeps_pointers_def
proof (intro allI impI)
  fix b w r b' w'
  assume wf: "pb_wf b" and run: "pb_close P (b, w) = (r, (b', w'))"
  obtain r1 b1 w1 where g: "pb_sync P (b, w) = (r1, (b1, w1))" by (metis surj_pair)
  from keeps_pointersD [OF keeps_sync [OF assms] wf g] run g wf show "pb_wf b' \<and> r \<noteq> Inl oob"
    by (auto simp: pb_close_def bindE_def pb_wf_def split: sum.splits if_splits)
qed

text \<open>The calls of the class, without their results.\<close>

datatype pb_op = Op_sputc char | Op_sputn bytes | Op_sgetc | Op_sbumpc | Op_sync | Op_overflow "char option"
  | Op_underflow | Op_close

fun pb_call :: "'w posix \<Rightarrow> pb_op \<Rightarrow> ('w, unit) prebuffer_action" where
  "pb_call P (Op_sputc c) = bindE (pb_sputc P c) (\<lambda>_. ret ())"
| "pb_call P (Op_sputn cs) = bindE (pb_sputn P cs) (\<lambda>_. ret ())"
| "pb_call P Op_sgetc = bindE (pb_sgetc P) (\<lambda>_. ret ())"
| "pb_call P Op_sbumpc = bindE (pb_sbumpc P) (\<lambda>_. ret ())"
| "pb_call P Op_sync = bindE (pb_sync P) (\<lambda>_. ret ())"
| "pb_call P (Op_overflow c) = bindE (pb_overflow P c) (\<lambda>_. ret ())"
| "pb_call P Op_underflow = bindE (pb_underflow P) (\<lambda>_. ret ())"
| "pb_call P Op_close = pb_close P"

fun pb_calls :: "'w posix \<Rightarrow> pb_op list \<Rightarrow> ('w, unit) prebuffer_action" where
  "pb_calls P [] = ret ()"
| "pb_calls P (op # ops) = bindE (pb_call P op) (\<lambda>_. pb_calls P ops)"

lemma keeps_calls:
  assumes "writes_succeed P" and "posix_read_contract P"
  shows "keeps_pointers (pb_calls P ops)"
proof (induction ops)
  case (Cons op ops)
  have "keeps_pointers (pb_call P op)"
    using assms by (cases op) (auto intro!: wf_intros keeps_sgetc keeps_sbumpc keeps_underflow keeps_close)
  with Cons show ?case by (auto intro: keeps_bind)
qed (simp add: wf_intros)

section \<open>Properties\<close>

text \<open>
  C17: What is put into the buffer is written once and in order, as far as \<open>write\<close> takes it. Whatever
  \<open>write\<close> does within its documentation, the characters put into a new buffer are cut into blocks of
  the size of the array and a last one for the rest; each block is handed over once, in order, and of
  each the descriptor gets the first part that one call of \<open>write\<close> takes: what a call does not take
  is lost. If every call takes all it is given, every character is accepted, at any moment what was
  written together with what the buffer holds is what was put, and closing it writes the rest.
  The number of characters reported is short only when a \<open>write\<close> failed, and then one
  more than reported was put.
\<close>
theorem prebuf_writes_in_order:
  assumes "posix_write_contract P fd wire" and "0 < fd" and "pb_init array fd om th = Inr b" and "Ios_out \<in> om"
    and "length array = s_buf_size"
  shows "\<exists>n b1 w1 b2 w2 bl last out. pb_sputn P cs (b, w) = (Inr n, (b1, w1)) \<and> n \<le> length cs \<and>
           pb_close P (b1, w1) = (Inr (), (b2, w2)) \<and> \<not> is_open b2 \<and>
           take (if n = length cs then n else Suc n) cs = concat bl @ last \<and>
           (\<forall>x \<in> set bl. length x = s_buf_size) \<and> length last \<le> s_buf_size \<and>
           wire w2 = wire w @ out \<and> first_parts (bl @ [last]) out \<and>
           (takes_all P fd \<longrightarrow> n = length cs \<and> wire w1 @ get_str b1 = wire w @ cs \<and> wire w2 = wire w @ cs)"
proof -
  note init = init_ready [OF assms(3,5)]
  have empty: "get_str b = []" using init(6) by (simp add: get_str_def)
  have "put_ready fd b" using init assms(2,4,5) by (simp add: put_ready_def writable_def is_open_def get_ready_def)
  from sputn_outcome [OF assms(1) this, of cs w] empty obtain n b1 w1 bl out
    where 1: "pb_sputn P cs (b, w) = (Inr n, (b1, w1))" "n \<le> length cs" "put_state fd b1"
      and t: "take (if n = length cs then n else Suc n) cs = concat bl @ get_str b1"
      and bl: "\<forall>x \<in> set bl. length x = s_buf_size" "first_parts bl out" "wire w1 = wire w @ out"
        "takes_all P fd \<longrightarrow> n = length cs \<and> out = concat bl" by auto
  have wr: "writable b1" "pb_filedes b1 = fd" "is_open b1" using 1(3) by (auto simp: put_state_def writable_def)
  obtain ok k w2 where f: "flushoutput P (b1, w1) =
      (if ok then (Inr (Some (pb_pptr b1)), (b1\<lparr>pb_pptr := 0\<rparr>, w2)) else (Inr None, (b1, w2)))"
    "wire w2 = wire w1 @ take k (get_str b1)" "takes_all P fd \<longrightarrow> ok \<and> take k (get_str b1) = get_str b1"
    using flush_outcome [OF assms(1) wr(1,2), of w1] by blast
  have "\<exists>b2. pb_close P (b1, w1) = (Inr (), (b2, w2)) \<and> \<not> is_open b2"
    using f(1) wr(3) by (cases ok) (simp_all add: pb_close_def pb_sync_def bindE_def ret_def is_open_def)
  moreover have "length (get_str b1) \<le> s_buf_size" using 1(3) by (simp add: get_str_def put_state_def)
  moreover have "first_parts (bl @ [get_str b1]) (out @ take k (get_str b1))"
    by (rule first_parts_snoc [OF bl(2) take_is_prefix])
  moreover have "wire w2 = wire w @ out @ take k (get_str b1)" using f(2) bl(3) by simp
  moreover have "wire w1 @ get_str b1 = wire w @ cs \<and> wire w2 = wire w @ cs" if "takes_all P fd"
    using that bl(3,4) f(2,3) t by simp
  ultimately show ?thesis using 1(1,2) t bl(1,4) by blast
qed

text \<open>A file that is a list of bytes, written at its end and read from its start in blocks.\<close>

definition demo_posix :: "(bytes \<times> bytes list) posix" where
  "demo_posix = \<lparr>px_write = (\<lambda>(out, ins) fd bs. (int (length bs), (out @ bs, ins))),
     px_read = (\<lambda>(out, ins) fd k.
       case ins of [] \<Rightarrow> ((0, []), (out, [])) | c # cs \<Rightarrow> ((int (length c), c), (out, cs)))\<rparr>"

lemma demo_writes: "posix_write_contract demo_posix fd fst"
  by (auto simp: posix_write_contract_def demo_posix_def)

lemma demo_takes_all: "takes_all demo_posix fd"
  by (auto simp: takes_all_def demo_posix_def)

definition demo_array :: bytes where
  "demo_array = replicate s_buf_size NUL"

lemma demo_array_length: "length demo_array = s_buf_size"
  by (simp add: demo_array_def)

lemma demo_init: "fd > 0 \<Longrightarrow> \<exists>b. pb_init demo_array fd om th = Inr b"
  by (simp add: pb_init_def Let_def is_open_def)

theorem prebuf_writes_in_order_witness:
  "\<exists>b b1 w1 w2. pb_init demo_array 3 {Ios_out} False = Inr b \<and>
     pb_sputn demo_posix ''12345'' (b, ([], [])) = (Inr 5, (b1, w1)) \<and> fst w2 = ''12345'' \<and>
     (\<exists>b2. pb_close demo_posix (b1, w1) = (Inr (), (b2, w2)))"
proof -
  obtain b where b: "pb_init demo_array 3 {Ios_out} False = Inr b" using demo_init [of 3] by auto
  obtain n b1 w1 b2 w2 where "pb_sputn demo_posix ''12345'' (b, ([], [])) = (Inr n, (b1, w1))"
    "pb_close demo_posix (b1, w1) = (Inr (), (b2, w2))" "n = length ''12345''" "fst w2 = fst ([], []) @ ''12345''"
    using prebuf_writes_in_order [OF demo_writes _ b _ demo_array_length, of "''12345''" "([], [])"] demo_takes_all [of 3]
    by fastforce
  with b show ?thesis by (intro exI [of _ b] exI [of _ b1] exI [of _ w1] exI [of _ w2]) auto
qed

text \<open>
  A flush loses what was not written, and a failed one is unsafe. When the descriptor takes only
  the first bytes of what it is given, the flush counts as a success and empties the buffer, so
  the rest is neither written nor kept. When it takes nothing and reports an error, a full buffer
  is left with its pointer at the end of the array, and the next character is stored outside it.
\<close>
lemma prebuf_lossy_flush:
  assumes "put_ready fd b" and "px_write P w fd (get_str b) = (int k, w')" and "k < pb_pptr b"
    and "put_ready fd' full" and "pb_pptr full = pb_epptr" and "\<forall>v bs. px_write P v fd' bs = (- 1, v)"
  shows "pb_sync P (b, w) = (Inr 0, (b\<lparr>pb_pptr := 0\<rparr>, w')) \<and> get_str (b\<lparr>pb_pptr := 0\<rparr>) = [] \<and>
         (\<exists>b1. pb_sputc P c (full, v) = (Inr False, (b1, v)) \<and>
            pb_sputc P d (b1, v) = (Inl (Undefined ''store outside the buffer''), (b1, v)))"
proof -
  have "writable b" "pb_filedes b = fd" using assms(1) by (auto simp: put_ready_def)
  with flush_writable [of b P w "int k" w'] assms(2)
  have "pb_sync P (b, w) = (Inr 0, (b\<lparr>pb_pptr := 0\<rparr>, w'))" by (simp add: pb_sync_def bindE_def ret_def)
  moreover have full: "length (pb_buffer full) = s_buf_size" "pb_pptr full < s_buf_size" "writable full" "pb_filedes full = fd'"
    using assms(4,5) by (auto simp: put_ready_def pb_sizes)
  then obtain b1 where b1: "pb_store c (full, v) = (Inr (), (b1, v))" "pb_pptr b1 = pb_pptr full + 1"
    "length (pb_buffer b1) = s_buf_size" "pb_mode b1 = pb_mode full" "pb_filedes b1 = pb_filedes full"
    using store_run by metis
  have wr: "writable b1" using full(3) b1 by (simp add: writable_def is_open_def)
  have "flushoutput P (b1, v) = (Inr None, (b1, v))"
    using flush_writable [OF wr, of P v "- 1" v] assms(6) b1(5) full(4) by simp
  then have "pb_sputc P c (full, v) = (Inr False, (b1, v))"
    using b1(1) full(3) assms(5) by (simp add: pb_sputc_def pb_overflow_def bindE_def mode_out_writable ret_def)
      (simp add: writable_def)
  moreover have "pb_sputc P d (b1, v) = (Inl (Undefined ''store outside the buffer''), (b1, v))"
    using b1(2) assms(5) wr
    by (simp add: pb_sputc_def pb_overflow_def bindE_def mode_out_writable pb_store_def pb_sizes)
      (simp add: writable_def)
  ultimately show ?thesis by (auto simp: get_str_def)
qed

text \<open>Descriptor 3 takes two bytes at a time, every other one reports an error.\<close>

definition lossy_posix :: "bytes posix" where
  "lossy_posix = \<lparr>px_write = (\<lambda>w fd bs. if fd = 3 then (int (min 2 (length bs)), w @ take 2 bs) else (- 1, w)),
     px_read = (\<lambda>w fd k. ((0, []), w))\<rparr>"

definition demo_out :: "int \<Rightarrow> nat \<Rightarrow> prebuffer" where
  "demo_out fd n = \<lparr>pb_mode = Some {Ios_out}, pb_filedes = fd, pb_buffer = replicate s_buf_size CHR ''x'',
     pb_eback = 4, pb_gptr = 4, pb_egptr = 4, pb_pptr = n\<rparr>"

lemma demo_out_ready: "0 < fd \<Longrightarrow> n \<le> pb_epptr \<Longrightarrow> put_ready fd (demo_out fd n)"
  by (simp add: put_ready_def writable_def is_open_def demo_out_def)

lemma prebuf_lossy_flush_example:
  "pb_sync lossy_posix (demo_out 3 5, []) = (Inr 0, ((demo_out 3 5)\<lparr>pb_pptr := 0\<rparr>, ''xx''))"
proof -
  have "px_write lossy_posix [] 3 (get_str (demo_out 3 5)) = (int 2, ''xx'')"
    by (simp add: lossy_posix_def get_str_def demo_out_def pb_sizes numeral_eq_Suc)
  moreover have "\<forall>v bs. px_write lossy_posix v 7 bs = (- 1, v)" by (simp add: lossy_posix_def)
  moreover have "put_ready 3 (demo_out 3 5)" "put_ready 7 (demo_out 7 pb_epptr)"
    by (rule demo_out_ready; simp add: pb_sizes)+
  ultimately show ?thesis
    using prebuf_lossy_flush [of 3 "demo_out 3 5" lossy_posix "[]" 2 "''xx''" 7 "demo_out 7 pb_epptr"]
    by (simp add: demo_out_def)
qed

text \<open>
  C15: What is read is the content of the descriptor. Whatever the sizes of the blocks that the reads
  deliver, the characters taken from a new buffer are the content, in order and without a gap, up to
  the end of the first block behind the first one that is shorter than four bytes. If there is no
  such block, the end is reported after the content; if there is one, asking for one character more,
  even at the end of the file, copies overlapping ranges with \<open>memcpy\<close>, which is undefined.
\<close>
theorem prebuf_reads_content:
  assumes "delivers P fd chunks" and "pb_init array fd om th = Inr b" and "length array = s_buf_size"
  shows "prefix (concat (readable (chunks w))) (concat (chunks w)) \<and>
         (k \<le> length (concat (readable (chunks w))) \<longrightarrow>
            (\<exists>s'. pb_drain k P (b, w) = (Inr (take k (concat (chunks w))), s'))) \<and>
         (length (concat (readable (chunks w))) < k \<longrightarrow>
            (\<exists>s'. pb_drain k P (b, w) =
               (if all_long (tl (chunks w)) then Inr (concat (chunks w)) else Inl overlap, s'))) \<and>
         (all_long (tl (chunks w)) \<longrightarrow> readable (chunks w) = chunks w)"
proof -
  note init = init_ready [OF assms(2,3)]
  let ?r = "concat (readable (chunks w))"
  have st: "fresh b" "get_state fd b" using init by (simp_all add: fresh_def get_state_def)
  have l: "left chunks (b, w) = ?r" "ends_well chunks (b, w) = all_long (tl (chunks w))"
    using st(1) init(2,3) by (simp_all add: left_def ends_well_def)
  note drain_left [OF assms(1) st(2), of k w, unfolded l]
  moreover have "take k ?r = take k (concat (chunks w))" if "k \<le> length ?r"
    using readable_prefix [of "chunks w"] that by (auto simp: prefix_def)
  ultimately show ?thesis using readable_prefix [of "chunks w"] readable_all_long [of "chunks w"] by auto
qed

definition chunk_posix :: "bytes list posix" where
  "chunk_posix = \<lparr>px_write = (\<lambda>w fd bs. (- 1, w)),
     px_read = (\<lambda>w fd k.
       case w of
         [] \<Rightarrow> ((0, []), w)
       | c # cs \<Rightarrow> if c \<noteq> [] \<and> length c \<le> k then ((int (length c), c), cs) else ((0, []), []))\<rparr>"

lemma chunk_delivers:
  "delivers chunk_posix fd (takeWhile (\<lambda>c. c \<noteq> [] \<and> length c \<le> s_buf_size - s_pback_size))"
  unfolding delivers_def by (auto simp: chunk_posix_def split: list.split)

theorem prebuf_reads_content_witness:
  "\<exists>b s' s''. pb_init demo_array 3 {Ios_in} False = Inr b \<and>
     pb_drain 9 chunk_posix (b, [''ab'', ''cdefgh'']) = (Inr ''abcdefgh'', s') \<and>
     pb_drain 6 chunk_posix (b, [''abcd'', ''e'']) = (Inl overlap, s'')"
proof -
  obtain b where b: "pb_init demo_array 3 {Ios_in} False = Inr b" using demo_init [of 3] by auto
  note run = prebuf_reads_content [OF chunk_delivers b demo_array_length]
  from run [of "[''ab'', ''cdefgh'']" 9] run [of "[''abcd'', ''e'']" 6] b show ?thesis by (simp add: pb_sizes)
qed

text \<open>
  C32: The pointers of the buffer never leave its array. While no write reports an error and a read
  delivers no more than it was asked for, every sequence of calls on a new buffer keeps the get
  and put pointers in order inside the array, and stores nothing outside it.
\<close>
theorem prebuf_pointers_inside:
  assumes "writes_succeed P" and "posix_read_contract P" and "pb_init array fd om th = Inr b" and "length array = s_buf_size"
    and "pb_calls P ops (b, w) = (r, (b', w'))"
  shows "pb_wf b' \<and> r \<noteq> Inl (Undefined ''store outside the buffer'')"
proof -
  note init = init_ready [OF assms(3,4)]
  have "pb_wf b" using init by (simp add: pb_wf_def get_ready_def)
  from keeps_pointersD [OF keeps_calls [OF assms(1,2)] this assms(5)] show ?thesis by (simp add: oob_def)
qed

definition echo_posix :: "bytes posix" where
  "echo_posix = \<lparr>px_write = (\<lambda>w fd bs. (int (length bs), w @ bs)), px_read = (\<lambda>w fd k. ((int (length (take k w)), take k w), drop k w))\<rparr>"

theorem prebuf_pointers_inside_witness:
  "\<exists>b r b' w'. pb_init demo_array 3 {Ios_in, Ios_out} False = Inr b \<and>
     pb_calls echo_posix [Op_sputn ''hello'', Op_sync, Op_sbumpc] (b, []) = (r, (b', w')) \<and> pb_wf b'"
proof -
  obtain b where b: "pb_init demo_array 3 {Ios_in, Ios_out} False = Inr b" using demo_init [of 3] by auto
  obtain r b' w' where run: "pb_calls echo_posix [Op_sputn ''hello'', Op_sync, Op_sbumpc] (b, []) = (r, (b', w'))"
    by (metis surj_pair)
  have "writes_succeed echo_posix" "posix_read_contract echo_posix"
    by (simp_all add: writes_succeed_def posix_read_contract_def echo_posix_def)
  from prebuf_pointers_inside [OF this b demo_array_length run] b run show ?thesis by blast
qed

end
