(* ===== verification/StreamTest.thy ===== *)
theory StreamTest
  imports PreBuffer
begin

text \<open>
  \<open>boost_cpp/stream/teststream.cc\<close>: formatted output and input through the stream buffer of
  \<open>PreBuffer\<close>. What \<open>std::ostream\<close> and \<open>std::istream\<close> do for an \<open>int\<close> is modelled as the standard
  library defines it, over the virtual functions of any buffer; the buffer's side is the locale
  \<open>char_source\<close>.
\<close>

section \<open>Loops over a stream\<close>

text \<open>The sequence of two operations that may not return.\<close>

definition bindO ::
  "((exn + 'a) \<times> 's) option \<Rightarrow> ('a \<Rightarrow> 's \<Rightarrow> ((exn + 'b) \<times> 's) option) \<Rightarrow> ((exn + 'b) \<times> 's) option" where
  "bindO m f =
     (case m of None \<Rightarrow> None | Some (Inl e, s) \<Rightarrow> Some (Inl e, s) | Some (Inr x, s) \<Rightarrow> f x s)"

lemma bindO_Inr [simp]: "bindO (Some (Inr x, s)) f = f x s"
  by (simp add: bindO_def)

lemma bindO_mono [partial_function_mono]:
  fixes m :: "('x \<Rightarrow> 'y option) \<Rightarrow> ((exn + 'a) \<times> 's) option"
    and k :: "('x \<Rightarrow> 'y option) \<Rightarrow> 'a \<Rightarrow> 's \<Rightarrow> ((exn + 'b) \<times> 's) option"
  assumes "mono_option m" and "\<And>x s. mono_option (\<lambda>f. k f x s)"
  shows "mono_option (\<lambda>f. bindO (m f) (k f))"
proof (rule monotoneI)
  fix f g :: "'x \<Rightarrow> 'y option"
  assume fg: "fun_ord option_ord f g"
  note m = monotoneD [OF assms(1), OF fg] and k = monotoneD [OF assms(2), OF fg]
  show "option_ord (bindO (m f) (k f)) (bindO (m g) (k g))"
  proof (cases "m f")
    case (Some rs)
    with m have "m g = Some rs" by (simp add: flat_ord_def)
    with Some k show ?thesis by (cases rs; cases "fst rs") (auto simp: bindO_def flat_ord_def)
  qed (simp add: bindO_def flat_ord_def)
qed

section \<open>istream\<close>

text \<open>The state of the stream, without the bits a buffer that throws nothing leaves alone.\<close>

record ios =
  ios_eof :: bool
  ios_fail :: bool

definition ios_new :: ios where
  "ios_new = \<lparr>ios_eof = False, ios_fail = False\<rparr>"

text \<open>The sentry: white space is skipped; the result says whether a character is left.\<close>

partial_function (option) skip_space ::
    "('s, char option) action \<Rightarrow> ('s, char option) action \<Rightarrow> 's \<Rightarrow> ((exn + bool) \<times> 's) option" where
  "skip_space peek adv s =
     bindO (Some (peek s)) (\<lambda>c s1.
       case c of
         None \<Rightarrow> Some (Inr False, s1)
       | Some ch \<Rightarrow>
           if is_space ch then bindO (Some (adv s1)) (\<lambda>_ s2. skip_space peek adv s2)
           else Some (Inr True, s1))"

text \<open>An optional sign.\<close>

definition scan_sign ::
    "('s, char option) action \<Rightarrow> ('s, char option) action \<Rightarrow> ('s, bool) action" where
  "scan_sign peek adv =
     bindE peek (\<lambda>c.
       if c = Some CHR ''-'' then bindE adv (\<lambda>_. ret True)
       else if c = Some CHR ''+'' then bindE adv (\<lambda>_. ret False)
       else ret False)"

text \<open>The digits, up to another character or the end; the result says whether it was the end.\<close>

partial_function (option) scan_digits ::
    "('s, char option) action \<Rightarrow> ('s, char option) action \<Rightarrow> string \<Rightarrow> 's \<Rightarrow>
       ((exn + string \<times> bool) \<times> 's) option" where
  "scan_digits peek adv ds s =
     bindO (Some (peek s)) (\<lambda>c s1.
       case c of
         None \<Rightarrow> Some (Inr (ds, True), s1)
       | Some ch \<Rightarrow>
           if is_digit ch then bindO (Some (adv s1)) (\<lambda>_ s2. scan_digits peek adv (ds @ [ch]) s2)
           else Some (Inr (ds, False), s1))"

text \<open>The value, clamped to the range of \<open>int\<close>, and whether the conversion failed.\<close>

definition num_get :: "bool \<Rightarrow> string \<Rightarrow> int \<times> bool" where
  "num_get neg ds =
     (case (if ds = [] then None else read_base 10 0 ds) of
        None \<Rightarrow> (0, True)
      | Some n \<Rightarrow>
          let v = (if neg then - int n else int n) in
          if v < INT_MIN then (INT_MIN, True) else if INT_MAX < v then (INT_MAX, True) else (v, False))"

text \<open>\<open>in >> line\<close>: the state of the stream and the variable afterwards.\<close>

definition istream_int ::
    "('s, char option) action \<Rightarrow> ('s, char option) action \<Rightarrow> ios \<Rightarrow> int \<Rightarrow> 's \<Rightarrow>
       ((exn + ios \<times> int) \<times> 's) option" where
  "istream_int peek adv i line s =
     (if ios_eof i \<or> ios_fail i then Some (Inr (i\<lparr>ios_fail := True\<rparr>, line), s)
      else
        bindO (skip_space peek adv s) (\<lambda>more s1.
          if \<not> more then Some (Inr (\<lparr>ios_eof = True, ios_fail = True\<rparr>, line), s1)
          else
            bindO (Some (scan_sign peek adv s1)) (\<lambda>neg s2.
            bindO (scan_digits peek adv [] s2) (\<lambda>(ds, at_end) s3.
              case num_get neg ds of
                (v, fail) \<Rightarrow> Some (Inr (\<lparr>ios_eof = at_end, ios_fail = fail\<rparr>, v), s3)))))"

section \<open>The program\<close>

text \<open>\<open>while (dint>>line) std::cout<<line<<" "\<close>: the numbers printed.\<close>

partial_function (option) read_ints ::
    "('s, char option) action \<Rightarrow> ('s, char option) action \<Rightarrow> ios \<Rightarrow> int \<Rightarrow> 's \<Rightarrow>
       ((exn + int list) \<times> 's) option" where
  "read_ints peek adv i line s =
     bindO (istream_int peek adv i line s) (\<lambda>(i1, v) s1.
       if ios_fail i1 then Some (Inr [], s1)
       else bindO (read_ints peek adv i1 v s1) (\<lambda>vs s2. Some (Inr (v # vs), s2)))"

text \<open>
  Inserting text into a stream: nothing happens once it is bad, and it is bad when the buffer takes
  less than it is given.
\<close>

fun ostream_insert :: "'w posix \<Rightarrow> string list \<Rightarrow> ('w, bool) prebuffer_action" where
  "ostream_insert P [] = ret True"
| "ostream_insert P (t # ts) = bindE (pb_sputn P t) (\<lambda>n. if n = length t then ostream_insert P ts else ret False)"

definition test_output :: "string list" where
  "test_output = map dec_int [1, 2, 3, 4, 5] @ [[CHR 0x0A]]"

text \<open>
  \<open>main\<close> with the descriptors the two calls of \<open>open\<close> gave, the arrays of the two buffers as they are
  found, and \<open>close\<close>: what it prints of the output buffer and the numbers it prints. The
  destructors close the buffers at the end, the last one built first.
\<close>

definition stream_main ::
    "'w posix \<Rightarrow> (int \<Rightarrow> 'w \<Rightarrow> 'w) \<Rightarrow> bytes \<Rightarrow> bytes \<Rightarrow> int \<Rightarrow> int \<Rightarrow> int \<Rightarrow> 'w \<Rightarrow>
       ((exn + string \<times> int list) \<times> 'w) option" where
  "stream_main P close_fd out_array in_array fdout fdin line w =
     (case (pb_init out_array fdout {Ios_out} False, pb_init in_array fdin {Ios_in} False) of
        (Inr ot, Inr it) \<Rightarrow>
          (case bindE (ostream_insert P test_output) (\<lambda>_ (b, w).
                  bindE (pb_sync P) (\<lambda>_. ret (get_str b)) (b, w)) (ot, w) of
             (Inl e, (ot1, w1)) \<Rightarrow> Some (Inl e, w1)
           | (Inr shown, (ot1, w1)) \<Rightarrow>
               (case read_ints (pb_sgetc P) (pb_sbumpc P) ios_new line (it, w1) of
                  None \<Rightarrow> None
                | Some (Inl e, (it1, w2)) \<Rightarrow> Some (Inl e, w2)
                | Some (Inr xs, (it1, w2)) \<Rightarrow>
                    (case pb_close P (it1, close_fd fdin (close_fd fdout w2)) of
                       (Inl e, (it2, w3)) \<Rightarrow> Some (Inl e, w3)
                     | (Inr _, (it2, w3)) \<Rightarrow>
                         (case pb_close P (ot1, w3) of
                            (Inl e, (ot2, w4)) \<Rightarrow> Some (Inl e, w4)
                          | (Inr _, (ot2, w4)) \<Rightarrow> Some (Inr (shown, xs), w4)))))
      | (Inl e, _) \<Rightarrow> Some (Inl e, w)
      | (_, Inl e) \<Rightarrow> Some (Inl e, w))"

section \<open>Reading from any source of characters\<close>

text \<open>The text of numbers, each with what follows it.\<close>

definition ints_text :: "(int \<times> string) list \<Rightarrow> bytes" where
  "ints_text ps = concat (map (\<lambda>(x, sp). dec_int x @ sp) ps)"

fun separated :: "(int \<times> string) list \<Rightarrow> bool" where
  "separated [] = True"
| "separated ((x, sp) # ps) =
     (INT_MIN \<le> x \<and> x \<le> INT_MAX \<and> list_all is_space sp \<and> (sp = [] \<longrightarrow> ps = []) \<and> separated ps)"

text \<open>
  A source whose remaining characters are known: looking keeps them, advancing takes the first. What
  happens at their end is left to the locales that extend this one: the end of the file, or an error.
\<close>

locale char_source =
  fixes peek :: "('s, char option) action" and adv :: "('s, char option) action"
    and content :: "'s \<Rightarrow> bytes \<Rightarrow> bool"
  assumes peek_Cons: "content s (c # cs) \<Longrightarrow> \<exists>s'. peek s = (Inr (Some c), s') \<and> content s' (c # cs)"
    and adv_Cons: "content s (c # cs) \<Longrightarrow> \<exists>s'. adv s = (Inr (Some c), s') \<and> content s' cs"
begin

lemma skip_space_skips:
  assumes "content s (sp @ rest)" and "\<forall>c \<in> set sp. is_space c"
  shows "\<exists>s'. skip_space peek adv s = skip_space peek adv s' \<and> content s' rest"
  using assms
proof (induction sp arbitrary: s)
  case (Cons c sp)
  from peek_Cons [of s c "sp @ rest"] Cons.prems(1) obtain s1
    where 1: "peek s = (Inr (Some c), s1)" "content s1 (c # sp @ rest)" by auto
  from adv_Cons [OF 1(2)] obtain s2 where 2: "adv s1 = (Inr (Some c), s2)" "content s2 (sp @ rest)" by auto
  from 1(1) 2(1) Cons.prems(2) have "skip_space peek adv s = skip_space peek adv s2" by (subst skip_space.simps) auto
  with Cons.IH [OF 2(2)] Cons.prems(2) show ?case by auto
qed auto

lemma skip_space_stops:
  assumes "content s (sp @ c # cs)" and "\<forall>c \<in> set sp. is_space c" and "\<not> is_space c"
  shows "\<exists>s'. skip_space peek adv s = Some (Inr True, s') \<and> content s' (c # cs)"
proof -
  obtain s1 where 1: "skip_space peek adv s = skip_space peek adv s1" "content s1 (c # cs)"
    using skip_space_skips [OF assms(1,2)] by blast
  from peek_Cons [OF 1(2)] assms(3) show ?thesis unfolding 1(1) by (subst skip_space.simps) auto
qed

lemma scan_digits_skips:
  assumes "content s (ds @ rest)" and "\<forall>c \<in> set ds. is_digit c"
  shows "\<exists>s'. scan_digits peek adv acc s = scan_digits peek adv (acc @ ds) s' \<and> content s' rest"
  using assms
proof (induction ds arbitrary: s acc)
  case (Cons c ds)
  from peek_Cons [of s c "ds @ rest"] Cons.prems(1) obtain s1
    where 1: "peek s = (Inr (Some c), s1)" "content s1 (c # ds @ rest)" by auto
  from adv_Cons [OF 1(2)] obtain s2 where 2: "adv s1 = (Inr (Some c), s2)" "content s2 (ds @ rest)" by auto
  from 1(1) 2(1) Cons.prems(2) have "scan_digits peek adv acc s = scan_digits peek adv (acc @ [c]) s2"
    by (subst scan_digits.simps) auto
  with Cons.IH [OF 2(2), of "acc @ [c]"] Cons.prems(2) show ?case by auto
qed auto

lemma scan_digits_stops:
  assumes "content s (ds @ c # cs)" and "\<forall>c \<in> set ds. is_digit c" and "\<not> is_digit c"
  shows "\<exists>s'. scan_digits peek adv [] s = Some (Inr (ds, False), s') \<and> content s' (c # cs)"
proof -
  obtain s1 where 1: "scan_digits peek adv [] s = scan_digits peek adv ds s1" "content s1 (c # cs)"
    using scan_digits_skips [OF assms(1,2), of "[]"] by auto
  from peek_Cons [OF 1(2)] assms(3) show ?thesis unfolding 1(1) by (subst scan_digits.simps) auto
qed

lemma scan_minus:
  assumes "content s (CHR ''-'' # cs)"
  shows "\<exists>s'. scan_sign peek adv s = (Inr True, s') \<and> content s' cs"
proof -
  from peek_Cons [OF assms] obtain s1 where 1: "peek s = (Inr (Some CHR ''-''), s1)" "content s1 (CHR ''-'' # cs)"
    by blast
  from adv_Cons [OF 1(2)] 1(1) show ?thesis by (auto simp: scan_sign_def bindE_def ret_def)
qed

lemma scan_no_sign:
  assumes "content s (c # cs)" and "is_digit c"
  shows "\<exists>s'. scan_sign peek adv s = (Inr False, s') \<and> content s' (c # cs)"
proof -
  from peek_Cons [OF assms(1)] obtain s1 where "peek s = (Inr (Some c), s1)" "content s1 (c # cs)" by blast
  with digit_not_sign [OF assms(2)] show ?thesis by (auto simp: scan_sign_def bindE_def ret_def)
qed

text \<open>The sign and the digits of a printed number, or of the part of one that there is.\<close>

lemma dec_split: "dec_int x = (if x < 0 then [CHR ''-''] else []) @ dec (nat \<bar>x\<bar>)"
  by (simp add: dec_int_def)

lemma dec_int_start: "\<exists>c cs. dec_int x = c # cs \<and> \<not> is_space c"
proof -
  obtain d ds where d: "dec (nat \<bar>x\<bar>) = d # ds" by (cases "dec (nat \<bar>x\<bar>)") auto
  with dec_digits [of "nat \<bar>x\<bar>"] have "\<not> is_space d" using digit_not_space by simp
  with d show ?thesis by (simp add: dec_split is_space_def)
qed

lemma scan_sign_int:
  assumes "content s (c # ys @ rest)" and "prefix (c # ys) (dec_int x)"
  shows "\<exists>s' ds. scan_sign peek adv s = (Inr (x < 0), s') \<and> content s' (ds @ rest) \<and>
           prefix ds (dec (nat \<bar>x\<bar>)) \<and> (c # ys = dec_int x \<longrightarrow> ds = dec (nat \<bar>x\<bar>))"
proof (cases "x < 0")
  case True
  with assms(2) have c: "c = CHR ''-''" "prefix ys (dec (nat \<bar>x\<bar>))" by (simp_all add: dec_split)
  with True scan_minus [of s "ys @ rest"] assms(1) show ?thesis by (auto simp: dec_split)
next
  case False
  with assms(2) have p: "prefix (c # ys) (dec (nat \<bar>x\<bar>))" by (simp add: dec_split)
  with dec_digits [of "nat \<bar>x\<bar>"] have "is_digit c" by (auto simp: prefix_def)
  from scan_no_sign [OF assms(1) this] obtain s' where "scan_sign peek adv s = (Inr False, s')"
    "content s' ((c # ys) @ rest)" by auto
  with False p show ?thesis by (intro exI [of _ s'] exI [of _ "c # ys"]) (simp add: dec_split)
qed

lemma num_get_dec:
  assumes "INT_MIN \<le> x" and "x \<le> INT_MAX"
  shows "num_get (x < 0) (dec (nat \<bar>x\<bar>)) = (x, False)"
  using assms by (auto simp: num_get_def read_dec)

text \<open>Up to the digits of a number.\<close>

lemma istream_int_starts:
  assumes c: "content s (sp @ dec_int x @ rest)" and sp: "\<forall>c \<in> set sp. is_space c"
  shows "\<exists>s'. istream_int peek adv ios_new line s =
             bindO (scan_digits peek adv [] s') (\<lambda>(ds, at_end) s3.
               case num_get (x < 0) ds of (v, fail) \<Rightarrow> Some (Inr (\<lparr>ios_eof = at_end, ios_fail = fail\<rparr>, v), s3)) \<and>
           content s' (dec (nat \<bar>x\<bar>) @ rest)"
proof -
  obtain d ds where d: "dec_int x = d # ds" "\<not> is_space d" using dec_int_start by blast
  with skip_space_stops [of s sp d "ds @ rest"] c sp obtain s1
    where 1: "skip_space peek adv s = Some (Inr True, s1)" "content s1 (d # ds @ rest)" by auto
  have "prefix (d # ds) (dec_int x)" by (simp add: d(1))
  from scan_sign_int [OF 1(2) this] d(1) obtain s2 where "scan_sign peek adv s1 = (Inr (x < 0), s2)"
    "content s2 (dec (nat \<bar>x\<bar>) @ rest)" by auto
  with 1(1) show ?thesis by (auto simp: istream_int_def ios_new_def)
qed

text \<open>A number with more behind it is read.\<close>

lemma read_ints_next:
  assumes c: "content s (sp @ dec_int x @ c # cs)" and sp: "\<forall>c \<in> set sp. is_space c"
    and x: "INT_MIN \<le> x" "x \<le> INT_MAX" and more: "\<not> is_digit c"
  shows "\<exists>s'. read_ints peek adv ios_new line s =
             bindO (read_ints peek adv ios_new x s') (\<lambda>vs s2. Some (Inr (x # vs), s2)) \<and> content s' (c # cs)"
proof -
  from istream_int_starts [OF c sp, of line] obtain s1 where 1: "content s1 (dec (nat \<bar>x\<bar>) @ c # cs)"
    "istream_int peek adv ios_new line s =
       bindO (scan_digits peek adv [] s1) (\<lambda>(ds, at_end) s3.
         case num_get (x < 0) ds of (v, fail) \<Rightarrow> Some (Inr (\<lparr>ios_eof = at_end, ios_fail = fail\<rparr>, v), s3))" by blast
  from scan_digits_stops [OF 1(1) dec_digits more] obtain s2
    where "scan_digits peek adv [] s1 = Some (Inr (dec (nat \<bar>x\<bar>), False), s2)" "content s2 (c # cs)" by blast
  with 1(2) num_get_dec [OF x] show ?thesis by (subst read_ints.simps) (auto simp: ios_new_def)
qed

end

text \<open>A source that reports the end of the file.\<close>

locale ending_source = char_source +
  assumes peek_Nil: "content s [] \<Longrightarrow> \<exists>s'. peek s = (Inr None, s') \<and> content s' []"
begin

lemma istream_int_end:
  assumes "content s sp" and "\<forall>c \<in> set sp. is_space c"
  shows "\<exists>s'. istream_int peek adv ios_new line s = Some (Inr (\<lparr>ios_eof = True, ios_fail = True\<rparr>, line), s') \<and> content s' []"
proof -
  obtain s1 where 1: "skip_space peek adv s = skip_space peek adv s1" "content s1 []"
    using skip_space_skips [of s sp "[]"] assms by auto
  from peek_Nil [OF 1(2)] have "\<exists>s'. skip_space peek adv s1 = Some (Inr False, s') \<and> content s' []"
    by (subst skip_space.simps) auto
  with 1(1) show ?thesis by (auto simp: istream_int_def ios_new_def)
qed

lemma istream_int_last:
  assumes "content s (sp @ dec_int x)" and "\<forall>c \<in> set sp. is_space c" and x: "INT_MIN \<le> x" "x \<le> INT_MAX"
  shows "\<exists>s'. istream_int peek adv ios_new line s = Some (Inr (\<lparr>ios_eof = True, ios_fail = False\<rparr>, x), s') \<and> content s' []"
proof -
  from istream_int_starts [of s sp x "[]" line] assms(1,2) obtain s1 where 1: "content s1 (dec (nat \<bar>x\<bar>))"
    "istream_int peek adv ios_new line s =
       bindO (scan_digits peek adv [] s1) (\<lambda>(ds, at_end) s3.
         case num_get (x < 0) ds of (v, fail) \<Rightarrow> Some (Inr (\<lparr>ios_eof = at_end, ios_fail = fail\<rparr>, v), s3))" by auto
  from scan_digits_skips [of s1 "dec (nat \<bar>x\<bar>)" "[]" "[]"] 1(1) dec_digits obtain s2
    where 2: "scan_digits peek adv [] s1 = scan_digits peek adv (dec (nat \<bar>x\<bar>)) s2" "content s2 []" by auto
  from peek_Nil [OF 2(2)] have "\<exists>s'. scan_digits peek adv (dec (nat \<bar>x\<bar>)) s2 = Some (Inr (dec (nat \<bar>x\<bar>), True), s') \<and> content s' []"
    by (subst scan_digits.simps) auto
  with 1(2) 2(1) num_get_dec [OF x] show ?thesis by auto
qed

text \<open>
  Numbers with white space between them: every number is read, in order. The last one may end the
  content; the others are followed by white space.
\<close>

lemma read_ints_run:
  assumes "content s (sp @ ints_text ps)" and "\<forall>c \<in> set sp. is_space c" and "separated ps"
  shows "\<exists>s'. read_ints peek adv ios_new line s = Some (Inr (map fst ps), s') \<and> content s' []"
  using assms
proof (induction ps arbitrary: s sp line)
  case Nil
  with istream_int_end [of s sp line] show ?case
    by (subst read_ints.simps) (auto simp: ints_text_def)
next
  case (Cons p ps)
  obtain x sq where p: "p = (x, sq)" by (cases p)
  from Cons.prems(3) p have x: "INT_MIN \<le> x" "x \<le> INT_MAX" and sq: "\<forall>c \<in> set sq. is_space c"
    and last: "sq = [] \<Longrightarrow> ps = []" and more: "separated ps" by (auto simp: list_all_iff)
  have c: "content s (sp @ dec_int x @ sq @ ints_text ps)" using Cons.prems(1) p by (simp add: ints_text_def)
  show ?case
  proof (cases sq)
    case Nil
    with last c have "content s (sp @ dec_int x)" "ps = []" by (simp_all add: ints_text_def)
    with istream_int_last [OF this(1) Cons.prems(2) x, of line] p show ?thesis
      by (subst read_ints.simps) (auto simp: read_ints.simps [of _ _ "\<lparr>ios_eof = True, ios_fail = False\<rparr>"] istream_int_def ios_new_def)
  next
    case (Cons d ds)
    with sq digit_not_space have "\<not> is_digit d" by auto
    with c Cons have "content s (sp @ dec_int x @ d # ds @ ints_text ps)" by simp
    from read_ints_next [OF this Cons.prems(2) x \<open>\<not> is_digit d\<close>, of line] obtain s1
      where 1: "read_ints peek adv ios_new line s = bindO (read_ints peek adv ios_new x s1) (\<lambda>vs s2. Some (Inr (x # vs), s2))"
        "content s1 (sq @ ints_text ps)" using Cons by auto
    from Cons.IH [OF 1(2) sq more, of x] 1(1) p show ?thesis by auto
  qed
qed

end

text \<open>A source whose end is an error.\<close>

locale broken_source = char_source +
  fixes e :: exn
  assumes peek_broken: "content s [] \<Longrightarrow> \<exists>s'. peek s = (Inl e, s') \<and> content s' []"
begin

lemma istream_int_spaces:
  assumes "content s sp" and "\<forall>c \<in> set sp. is_space c"
  shows "\<exists>s'. istream_int peek adv ios_new line s = Some (Inl e, s') \<and> content s' []"
proof -
  obtain s1 where 1: "skip_space peek adv s = skip_space peek adv s1" "content s1 []"
    using skip_space_skips [of s sp "[]"] assms by auto
  from peek_broken [OF 1(2)] have "\<exists>s'. skip_space peek adv s1 = Some (Inl e, s') \<and> content s' []"
    by (subst skip_space.simps) (auto simp: bindO_def)
  with 1(1) show ?thesis by (auto simp: istream_int_def ios_new_def bindO_def)
qed

lemma istream_int_cut:
  assumes "content s (sp @ ys)" and "\<forall>c \<in> set sp. is_space c" and "prefix ys (dec_int x)"
  shows "\<exists>s'. istream_int peek adv ios_new line s = Some (Inl e, s') \<and> content s' []"
proof (cases ys)
  case Nil
  with assms istream_int_spaces [of s sp] show ?thesis by simp
next
  case (Cons c cs)
  obtain d ds where d: "dec_int x = d # ds" "\<not> is_space d" using dec_int_start by blast
  with Cons assms(3) have "\<not> is_space c" by simp
  with skip_space_stops [of s sp c cs] assms(1,2) Cons obtain s1
    where 1: "skip_space peek adv s = Some (Inr True, s1)" "content s1 (c # cs @ [])" by auto
  from assms(3) Cons have "prefix (c # cs) (dec_int x)" by simp
  from scan_sign_int [OF 1(2) this] obtain s2 zs where 2: "scan_sign peek adv s1 = (Inr (x < 0), s2)"
    "content s2 zs" "prefix zs (dec (nat \<bar>x\<bar>))" by auto
  from 2(3) dec_digits [of "nat \<bar>x\<bar>"] have "\<forall>c \<in> set zs. is_digit c" by (auto simp: prefix_def)
  with scan_digits_skips [of s2 zs "[]" "[]"] 2(2) obtain s3
    where 3: "scan_digits peek adv [] s2 = scan_digits peek adv zs s3" "content s3 []" by auto
  from peek_broken [OF 3(2)] have "\<exists>s'. scan_digits peek adv zs s3 = Some (Inl e, s') \<and> content s' []"
    by (subst scan_digits.simps) (auto simp: bindO_def)
  with 1(1) 2(1) 3(1) show ?thesis by (auto simp: istream_int_def ios_new_def bindO_def)
qed

text \<open>Whatever part of the text there is, reading it ends with the error.\<close>

lemma read_ints_broken:
  assumes "content s xs" and "prefix xs (sp @ ints_text ps)" and "\<forall>c \<in> set sp. is_space c" and "separated ps"
  shows "\<exists>s'. read_ints peek adv ios_new line s = Some (Inl e, s') \<and> content s' []"
  using assms
proof (induction ps arbitrary: s sp xs line)
  case Nil
  then have "\<forall>c \<in> set xs. is_space c" by (auto simp: ints_text_def prefix_def)
  with istream_int_spaces [OF Nil.prems(1), of line] show ?case
    by (subst read_ints.simps) (auto simp: bindO_def)
next
  case (Cons p ps)
  obtain x sq where p: "p = (x, sq)" by (cases p)
  from Cons.prems(4) p have x: "INT_MIN \<le> x" "x \<le> INT_MAX" and sq: "\<forall>c \<in> set sq. is_space c"
    and last: "sq = [] \<Longrightarrow> ps = []" and more: "separated ps" by (auto simp: list_all_iff)
  have pre: "prefix xs (sp @ dec_int x @ sq @ ints_text ps)" using Cons.prems(2) p by (simp add: ints_text_def)
  then consider (spaces) "prefix xs sp" | (cut) ys where "xs = sp @ ys" "prefix ys (dec_int x)"
    | (more) zs where "xs = sp @ dec_int x @ zs" "zs \<noteq> []" "prefix zs (sq @ ints_text ps)"
    by (auto simp: prefix_append)
  then show ?case
  proof cases
    case spaces
    with Cons.prems(3) have "\<forall>c \<in> set xs. is_space c" by (auto simp: prefix_def)
    with istream_int_spaces [OF Cons.prems(1), of line] show ?thesis by (subst read_ints.simps) (auto simp: bindO_def)
  next
    case cut
    with istream_int_cut [of s sp ys x line] Cons.prems(1,3) show ?thesis by (subst read_ints.simps) (auto simp: bindO_def)
  next
    case more: (more zs)
    with last obtain d ds where d: "zs = d # ds" "sq \<noteq> []" by (cases zs; cases sq) (auto simp: ints_text_def)
    with more(3) sq digit_not_space have nd: "\<not> is_digit d" by (cases sq) auto
    from Cons.prems(1) more(1) d(1) have "content s (sp @ dec_int x @ d # ds)" by simp
    from read_ints_next [OF this Cons.prems(3) x nd, of line] obtain s1
      where 1: "read_ints peek adv ios_new line s = bindO (read_ints peek adv ios_new x s1) (\<lambda>vs s2. Some (Inr (x # vs), s2))"
        "content s1 zs" using d(1) by auto
    from Cons.IH [OF 1(2) more(3) sq \<open>separated ps\<close>, of x] 1(1) show ?thesis by (auto simp: bindO_def)
  qed
qed

end

section \<open>The stream buffer is such a source\<close>

text \<open>
  What the buffer and its descriptor still hold, on a descriptor as in \<open>prebuf_reads_content\<close>; that
  reading touches neither the mode nor what \<open>wire\<close> sees of the world is kept along.
\<close>

definition reads_keep :: "'w posix \<Rightarrow> int \<Rightarrow> ('w \<Rightarrow> 'v) \<Rightarrow> bool" where
  "reads_keep P fd wire \<longleftrightarrow> (\<forall>w k. wire (snd (px_read P w fd k)) = wire w)"

lemma memcpy_frame:
  "\<exists>r b1. pb_memcpy dst src n (b, w) = (r, (b1, w)) \<and> pb_mode b1 = pb_mode b \<and> pb_filedes b1 = pb_filedes b"
  by (cases "n > 0 \<and> dst < src + n \<and> src < dst + n") (simp_all add: pb_memcpy_def)

lemma sgetc_frame:
  assumes "reads_keep P (pb_filedes b) wire" and "pb_sgetc P (b, w) = (r, (b', w'))"
  shows "pb_mode b' = pb_mode b \<and> wire w' = wire w"
proof (cases "pb_gptr b < pb_egptr b")
  case False
  define n where "n = min (pb_gptr b - pb_eback b) s_pback_size"
  obtain r1 b1 where 1: "pb_memcpy (s_pback_size - n) (pb_gptr b - n) n (b, w) = (r1, (b1, w))"
    "pb_mode b1 = pb_mode b" "pb_filedes b1 = pb_filedes b"
    using memcpy_frame by metis
  obtain num bs w2 where 2: "px_read P w (pb_filedes b) (s_buf_size - s_pback_size) = ((num, bs), w2)" by (metis surj_pair)
  with assms(1) have "wire w2 = wire w" unfolding reads_keep_def by (metis snd_conv)
  with False 1 2 assms(2) show ?thesis
    by (cases r1) (auto simp: pb_sgetc_def pb_underflow_def bindE_def Let_def n_def [symmetric] pb_setg_def pb_fill_def
        split: if_splits)
qed (use assms(2) in \<open>simp add: pb_sgetc_def\<close>)

definition prebuffer_content ::
  "'w posix \<Rightarrow> int \<Rightarrow> ('w \<Rightarrow> bytes list) \<Rightarrow> ('w \<Rightarrow> 'v) \<Rightarrow> 'v \<Rightarrow> openmode set \<Rightarrow> bool \<Rightarrow> prebuffer \<times> 'w \<Rightarrow> bytes \<Rightarrow> bool" where
  "prebuffer_content P fd chunks wire out m fine = (\<lambda>(b, w) bs.
     reads_keep P fd wire \<and> wire w = out \<and> pb_mode b = Some m \<and> delivers P fd chunks \<and> get_state fd b \<and>
     bs = left chunks (b, w) \<and> fine = ends_well chunks (b, w))"

lemma content_frame:
  assumes "prebuffer_content P fd chunks wire out m fine (b, w) bs" and "pb_sgetc P (b, w) = (r, (b', w'))"
    and "get_state fd b'" and "left chunks (b', w') = bs'" and "ends_well chunks (b', w') = ends_well chunks (b, w)"
  shows "prebuffer_content P fd chunks wire out m fine (b', w') bs'"
  using assms sgetc_frame [OF _ assms(2), of wire] by (auto simp: prebuffer_content_def get_state_def get_ready_def)

lemma content_peek:
  assumes "prebuffer_content P fd chunks wire out m fine (b, w) (x # xs)"
  shows "\<exists>b' w' ys. pb_sgetc P (b, w) = (Inr (Some x), (b', w')) \<and> unread b' = x # ys \<and>
           prebuffer_content P fd chunks wire out m fine (b', w') (x # xs)"
proof -
  from assms have c: "delivers P fd chunks" "get_state fd b" "left chunks (b, w) = x # xs"
    by (auto simp: prebuffer_content_def)
  from sgetc_left [OF c] obtain b' w' ys where b': "pb_sgetc P (b, w) = (Inr (Some x), (b', w'))" "get_state fd b'"
    "unread b' = x # ys" "left chunks (b', w') = x # xs" "ends_well chunks (b', w') = ends_well chunks (b, w)"
    by (elim exE conjE)
  from content_frame [OF assms b'(1,2,4,5)] b'(1,3) show ?thesis by (intro exI conjI)
qed

lemma content_adv:
  assumes "prebuffer_content P fd chunks wire out m fine (b, w) (x # xs)"
  shows "\<exists>s'. pb_sbumpc P (b, w) = (Inr (Some x), s') \<and> prebuffer_content P fd chunks wire out m fine s' xs"
proof -
  from content_peek [OF assms] obtain b' w' ys where b': "pb_sgetc P (b, w) = (Inr (Some x), (b', w'))"
    "unread b' = x # ys" "prebuffer_content P fd chunks wire out m fine (b', w') (x # xs)" by (elim exE conjE)
  from b'(3) have g: "get_state fd b'" "left chunks (b', w') = x # xs" by (simp_all add: prebuffer_content_def)
  from b'(3) bump_left [OF g(1) b'(2) g(2)]
  have "prebuffer_content P fd chunks wire out m fine (b'\<lparr>pb_gptr := pb_gptr b' + 1\<rparr>, w') xs"
    by (simp add: prebuffer_content_def)
  with sbumpc_sgetc [OF b'(1)] show ?thesis by (intro exI conjI)
qed

lemma content_end:
  assumes "prebuffer_content P fd chunks wire out m fine (b, w) []"
  shows "\<exists>s'. pb_sgetc P (b, w) = (if fine then Inr None else Inl overlap, s') \<and>
           prebuffer_content P fd chunks wire out m fine s' []"
proof -
  from assms have c: "delivers P fd chunks" "get_state fd b" "left chunks (b, w) = []" "fine = ends_well chunks (b, w)"
    by (auto simp: prebuffer_content_def)
  show ?thesis
  proof (cases fine)
    case True
    with c(4) sgetc_end(1) [OF c(1-3)] obtain b' w' where b': "pb_sgetc P (b, w) = (Inr None, (b', w'))" "get_state fd b'"
      "left chunks (b', w') = []" "ends_well chunks (b', w') = ends_well chunks (b, w)" by auto
    from content_frame [OF assms b'] b'(1) True show ?thesis by auto
  next
    case False
    with c(4) sgetc_end(2) [OF c(1-3)] assms show ?thesis by auto
  qed
qed

lemma content_source: "char_source (pb_sgetc P) (pb_sbumpc P) (prebuffer_content P fd chunks wire out m fine)"
proof unfold_locales
  fix s c cs
  show "\<exists>s'. pb_sgetc P s = (Inr (Some c), s') \<and> prebuffer_content P fd chunks wire out m fine s' (c # cs)"
    if "prebuffer_content P fd chunks wire out m fine s (c # cs)" using that by (cases s) (blast dest: content_peek)
  show "\<exists>s'. pb_sbumpc P s = (Inr (Some c), s') \<and> prebuffer_content P fd chunks wire out m fine s' cs"
    if "prebuffer_content P fd chunks wire out m fine s (c # cs)" using that by (cases s) (blast dest: content_adv)
qed

interpretation prebuffer_source: ending_source "pb_sgetc P" "pb_sbumpc P" "prebuffer_content P fd chunks wire out m True"
  for P :: "'w posix" and fd :: int and chunks :: "'w \<Rightarrow> bytes list"
    and wire :: "'w \<Rightarrow> 'v" and out :: 'v and m :: "openmode set"
proof (intro ending_source.intro content_source, unfold_locales)
  fix s
  show "\<exists>s'. pb_sgetc P s = (Inr None, s') \<and> prebuffer_content P fd chunks wire out m True s' []"
    if "prebuffer_content P fd chunks wire out m True s []"
    using that content_end [of P fd chunks wire out m True "fst s" "snd s"] by simp
qed

interpretation overlapping_source:
    broken_source "pb_sgetc P" "pb_sbumpc P" "prebuffer_content P fd chunks wire out m False" overlap
  for P :: "'w posix" and fd :: int and chunks :: "'w \<Rightarrow> bytes list"
    and wire :: "'w \<Rightarrow> 'v" and out :: 'v and m :: "openmode set"
proof (intro broken_source.intro content_source, unfold_locales)
  fix s
  show "\<exists>s'. pb_sgetc P s = (Inl overlap, s') \<and> prebuffer_content P fd chunks wire out m False s' []"
    if "prebuffer_content P fd chunks wire out m False s []"
    using that content_end [of P fd chunks wire out m False "fst s" "snd s"] by simp
qed

text \<open>Both ends at once, for a text of numbers.\<close>

lemma read_ints_content:
  assumes "prebuffer_content P fd chunks wire out m fine s bs" and "prefix bs (sp @ ints_text ps)"
    and "fine \<Longrightarrow> bs = sp @ ints_text ps" and "\<forall>c \<in> set sp. is_space c" and "separated ps"
  shows "\<exists>s'. read_ints (pb_sgetc P) (pb_sbumpc P) ios_new line s =
             Some (if fine then Inr (map fst ps) else Inl overlap, s') \<and>
           prebuffer_content P fd chunks wire out m fine s' []"
proof (cases fine)
  case True
  with assms(1,3) have "prebuffer_content P fd chunks wire out m True s (sp @ ints_text ps)" by simp
  from prebuffer_source.read_ints_run [OF this assms(4,5), of line] True show ?thesis by simp
next
  case False
  with assms(1) have "prebuffer_content P fd chunks wire out m False s bs" by simp
  from overlapping_source.read_ints_broken [OF this assms(2,4,5), of line] False show ?thesis by simp
qed

section \<open>The program's run\<close>

text \<open>Text that fits the put area stays there.\<close>

lemma sputn_fits:
  assumes "put_ready fd b" and "pb_pptr b + length cs \<le> pb_epptr"
  shows "\<exists>b'. pb_sputn P cs (b, w) = (Inr (length cs), (b', w)) \<and> put_ready fd b' \<and>
           get_str b' = get_str b @ cs \<and> pb_pptr b' = pb_pptr b + length cs"
  using assms
proof (induction cs arbitrary: b)
  case (Cons c cs)
  then have room: "length (pb_buffer b) = s_buf_size" "pb_pptr b < s_buf_size" "pb_pptr b < pb_epptr"
    by (auto simp: put_ready_def pb_sizes)
  from store_run [OF room(1,2), of c w] obtain b1 where b1: "pb_store c (b, w) = (Inr (), (b1, w))"
    "get_str b1 = get_str b @ [c]" "pb_pptr b1 = pb_pptr b + 1" "length (pb_buffer b1) = s_buf_size"
    "pb_mode b1 = pb_mode b" "pb_filedes b1 = pb_filedes b" by blast
  with Cons.prems have "put_ready fd b1" by (auto simp: put_ready_def writable_def is_open_def)
  from Cons.IH [OF this] Cons.prems(2) b1 room(3) show ?case by (auto simp: pb_sputc_def bindE_def ret_def)
qed (simp add: ret_def)

lemma ostream_insert_fits:
  assumes "put_ready fd b" and "pb_pptr b + length (concat ts) \<le> pb_epptr"
  shows "\<exists>b'. ostream_insert P ts (b, w) = (Inr True, (b', w)) \<and> put_ready fd b' \<and> get_str b' = get_str b @ concat ts"
  using assms
proof (induction ts arbitrary: b)
  case (Cons u ts)
  from Cons.prems have "pb_pptr b + length u \<le> pb_epptr" by simp
  from sputn_fits [OF Cons.prems(1) this, of P w] obtain b1 where b1: "pb_sputn P u (b, w) = (Inr (length u), (b1, w))"
    "put_ready fd b1" "get_str b1 = get_str b @ u" "pb_pptr b1 = pb_pptr b + length u" by blast
  from Cons.IH [OF b1(2)] Cons.prems(2) b1 show ?case by (auto simp: bindE_def)
qed (simp add: ret_def)

lemma test_output_text: "concat test_output = ''12345'' @ [CHR 0x0A]"
  by code_simp

lemma output_run:
  assumes "posix_write_contract P fd wire" and "put_ready fd b" and "pb_pptr b = 0"
  shows "\<exists>b' w' k. bindE (ostream_insert P test_output) (\<lambda>_ (b, w). bindE (pb_sync P) (\<lambda>_. ret (get_str b)) (b, w)) (b, w) =
             (Inr (concat test_output), (b', w')) \<and> put_state fd b' \<and> wire w' = wire w @ take k (concat test_output) \<and>
           (get_str b' = [] \<or> get_str b' = concat test_output \<and> k = 0) \<and>
           (takes_all P fd \<longrightarrow> get_str b' = [] \<and> take k (concat test_output) = concat test_output) \<and>
           (\<exists>bs. w' = snd (px_write P w fd bs))"
proof -
  have "pb_pptr b + length (concat test_output) \<le> pb_epptr" using assms(3) by (simp add: test_output_text pb_sizes)
  from ostream_insert_fits [OF assms(2) this, of P w] obtain b1 where b1: "ostream_insert P test_output (b, w) = (Inr True, (b1, w))"
    "put_ready fd b1" "get_str b1 = concat test_output" using assms(3) by (auto simp: get_str_def)
  have wr: "writable b1" "pb_filedes b1 = fd" using b1(2) by (auto simp: put_ready_def)
  obtain ok k w' where f: "flushoutput P (b1, w) =
      (if ok then (Inr (Some (pb_pptr b1)), (b1\<lparr>pb_pptr := 0\<rparr>, w')) else (Inr None, (b1, w')))"
    "wire w' = wire w @ take k (get_str b1)" "\<not> ok \<longrightarrow> k = 0" "takes_all P fd \<longrightarrow> ok \<and> take k (get_str b1) = get_str b1"
    using flush_outcome [OF assms(1) wr, of w] by blast
  obtain r w'' where "px_write P w fd (get_str b1) = (r, w'')" by fastforce
  with flush_writable [OF wr(1), of P w r w''] f(1) wr(2) have "w' = snd (px_write P w fd (get_str b1))"
    by (cases ok) (auto split: if_splits)
  moreover let ?b = "if ok then b1\<lparr>pb_pptr := 0\<rparr> else b1"
  have "put_state fd ?b" using b1(2) by (auto simp: put_state_def put_ready_def writable_def is_open_def pb_sizes)
  moreover have "bindE (ostream_insert P test_output) (\<lambda>_ (b, w). bindE (pb_sync P) (\<lambda>_. ret (get_str b)) (b, w)) (b, w) =
      (Inr (concat test_output), (?b, w'))"
    using b1(1,3) f(1) by (cases ok) (auto simp: bindE_def pb_sync_def ret_def)
  ultimately show ?thesis using b1(3) f(2-4)
    by (intro exI [of _ ?b] exI [of _ w'] exI [of _ k]) (auto simp: get_str_def)
qed

text \<open>The destructor of the output buffer, on whatever its descriptor is by then.\<close>

lemma close_outcome:
  assumes "posix_write_contract P fd wire" and "put_state fd b"
  shows "\<exists>b' w' k. pb_close P (b, w) = (Inr (), (b', w')) \<and> wire w' = wire w @ take k (get_str b)"
proof -
  have wr: "writable b" "pb_filedes b = fd" "is_open b" using assms(2) by (auto simp: put_state_def writable_def)
  obtain ok k w' where f: "flushoutput P (b, w) =
      (if ok then (Inr (Some (pb_pptr b)), (b\<lparr>pb_pptr := 0\<rparr>, w')) else (Inr None, (b, w')))"
    "wire w' = wire w @ take k (get_str b)" using flush_outcome [OF assms(1) wr(1,2), of w] by blast
  then have "\<exists>b'. pb_close P (b, w) = (Inr (), (b', w'))"
    using wr(3) by (cases ok) (simp_all add: pb_close_def pb_sync_def bindE_def ret_def)
  with f(2) show ?thesis by blast
qed

text \<open>
  C16: The test prints what its file holds, or runs into the overlapping copy. Take any \<open>write\<close> and
  any \<open>read\<close> that behave as documented, and an input file that holds integers of the range of \<open>int\<close> in
  decimal, with white space between them and around them, delivered in blocks of any sizes. \<open>main\<close>
  returns; the output buffer shows the digits inserted. If no block but the first is shorter than
  four bytes, exactly those integers are printed, in their order, and no undefined behaviour
  occurs; if one is, \<open>memcpy\<close> is used on overlapping ranges before anything more is read. A first part
  of the digits is appended to the output file, once, and all of them if \<open>write\<close> takes all it is given.
\<close>
theorem stream_main_prints_file:
  assumes out: "posix_write_contract P fdout wire" "0 < fdout" "length out_array = s_buf_size"
    and inp: "delivers P fdin chunks" "0 < fdin" "length in_array = s_buf_size" "reads_keep P fdin wire"
    and apart: "\<And>w bs. chunks (snd (px_write P w fdout bs)) = chunks w" "\<And>w fd. wire (close_fd fd w) = wire w"
    and content: "concat (chunks w) = sp @ ints_text ps" "\<forall>c \<in> set sp. is_space c" "separated ps"
  shows "\<exists>w' k. stream_main P close_fd out_array in_array fdout fdin line w =
             Some (if all_long (tl (chunks w)) then Inr (''12345'' @ [CHR 0x0A], map fst ps) else Inl overlap, w') \<and>
           wire w' = wire w @ take k (''12345'' @ [CHR 0x0A]) \<and>
           (takes_all P fdout \<longrightarrow> wire w' = wire w @ ''12345'' @ [CHR 0x0A])"
proof -
  obtain ot where ot: "pb_init out_array fdout {Ios_out} False = Inr ot" using out(2) by (simp add: pb_init_def Let_def is_open_def)
  obtain it where it: "pb_init in_array fdin {Ios_in} False = Inr it" using inp(2) by (simp add: pb_init_def Let_def is_open_def)
  note ot' = init_ready [OF ot out(3)] and it' = init_ready [OF it inp(3)]
  have "put_ready fdout ot" using ot' ot out(2)
    by (simp add: put_ready_def get_ready_def writable_def is_open_def)
  from output_run [OF out(1) this ot'(6), of w] obtain ot1 w1 k bs where
    1: "bindE (ostream_insert P test_output) (\<lambda>_ (b, w). bindE (pb_sync P) (\<lambda>_. ret (get_str b)) (b, w)) (ot, w) =
          (Inr (concat test_output), (ot1, w1))" "put_state fdout ot1" "wire w1 = wire w @ take k (concat test_output)"
      "get_str ot1 = [] \<or> get_str ot1 = concat test_output \<and> k = 0"
      "takes_all P fdout \<longrightarrow> get_str ot1 = [] \<and> take k (concat test_output) = concat test_output"
      "w1 = snd (px_write P w fdout bs)" by (elim exE conjE)
  have c: "chunks w1 = chunks w" by (simp add: 1(6) apart(1))
  let ?fine = "all_long (tl (chunks w))" and ?bs = "concat (readable (chunks w))"
  have "left chunks (it, w1) = ?bs" "ends_well chunks (it, w1) = ?fine" "get_state fdin it"
    using it'(1-5) c by (simp_all add: left_def ends_well_def fresh_def get_state_def)
  then have "prebuffer_content P fdin chunks wire (wire w1) {Ios_in} ?fine (it, w1) ?bs"
    using inp it'(7) by (simp add: prebuffer_content_def)
  from read_ints_content [OF this, of sp ps line] readable_prefix [of "chunks w"] readable_all_long [of "chunks w"] content
  obtain it1 w2 where
    2: "read_ints (pb_sgetc P) (pb_sbumpc P) ios_new line (it, w1) = Some (if ?fine then Inr (map fst ps) else Inl overlap, (it1, w2))"
    "wire w2 = wire w1" "pb_mode it1 = Some {Ios_in}" by (auto simp: prebuffer_content_def)
  let ?w3 = "close_fd fdin (close_fd fdout w2)"
  have 3: "\<exists>it2. pb_close P (it1, ?w3) = (Inr (), (it2, ?w3))"
    using 2(3) by (auto simp: pb_close_def pb_sync_def flushoutput_def mode_out_def bindE_def ret_def)
  obtain ot2 w4 j where 4: "pb_close P (ot1, ?w3) = (Inr (), (ot2, w4))" "wire w4 = wire ?w3 @ take j (get_str ot1)"
    using close_outcome [OF out(1) 1(2), of ?w3] by blast
  have run: "stream_main P close_fd out_array in_array fdout fdin line w =
      Some (if ?fine then (Inr (concat test_output, map fst ps), w4) else (Inl overlap, w2))"
    using ot it 1(1) 2(1) 3 4(1) by (auto simp: stream_main_def)
  have w4: "wire w4 = wire w @ take (if get_str ot1 = [] then k else j) (concat test_output)"
    using 4(2) 2(2) 1(3,4) by (auto simp: apart(2))
  have "wire w2 = wire w @ take k (concat test_output)" using 2(2) 1(3) by simp
  with run w4 1(5) show ?thesis
    by (cases ?fine) (auto simp: test_output_text)
qed

text \<open>The witness: two files, the first appended to, the second read in blocks.\<close>

definition files_posix :: "(bytes \<times> bytes list) posix" where
  "files_posix =
     \<lparr>px_write = (\<lambda>(out, ins) fd bs. (int (length bs), (out @ bs, ins))),
      px_read = (\<lambda>(out, ins) fd k.
        case px_read chunk_posix ins fd k of (r, ins') \<Rightarrow> (r, (out, ins')))\<rparr>"

definition files_chunks :: "bytes \<times> bytes list \<Rightarrow> bytes list" where
  "files_chunks w = takeWhile (\<lambda>c. c \<noteq> [] \<and> length c \<le> s_buf_size - s_pback_size) (snd w)"

lemma files_writes: "posix_write_contract files_posix fd fst"
  by (auto simp: posix_write_contract_def files_posix_def)

lemma files_takes_all: "takes_all files_posix fd"
  by (auto simp: takes_all_def files_posix_def)

lemma files_delivers: "delivers files_posix fd files_chunks"
  unfolding delivers_def
  by (auto simp: files_posix_def files_chunks_def chunk_posix_def split: list.split)

lemma files_reads_keep: "reads_keep files_posix fd fst"
  by (auto simp: reads_keep_def files_posix_def split: prod.split)

lemma files_write_keeps: "files_chunks (snd (px_write files_posix w fd bs)) = files_chunks w"
  by (cases w) (simp add: files_posix_def files_chunks_def)

lemma demo_ints_text: "ints_text [(10, '' ''), (- 7, ''  ''), (0, [])] = ''10 -7  0''"
  by code_simp

lemma demo_separated: "separated [(10, '' ''), (- 7, ''  ''), (0, [])]"
  by (simp add: INT_MIN_def INT_MAX_def is_space_def)

theorem stream_main_prints_file_witness:
  "(\<exists>w'. stream_main files_posix (\<lambda>fd w. w) demo_array demo_array 3 4 0 ([], [''10'', '' -7  0'']) =
         Some (Inr (''12345'' @ [CHR 0x0A], [10, - 7, 0]), w') \<and> fst w' = ''12345'' @ [CHR 0x0A]) \<and>
   (\<exists>w'. stream_main files_posix (\<lambda>fd w. w) demo_array demo_array 3 4 0 ([], [''10 -7 '', '' 0'']) =
         Some (Inl overlap, w') \<and> fst w' = ''12345'' @ [CHR 0x0A])"
proof -
  have ch: "files_chunks ([], [''10'', '' -7  0'']) = [''10'', '' -7  0'']"
    "files_chunks ([], [''10 -7 '', '' 0'']) = [''10 -7 '', '' 0'']" by (simp_all add: files_chunks_def pb_sizes)
  have content: "concat (files_chunks ([], [''10'', '' -7  0''])) = [] @ ints_text [(10, '' ''), (- 7, ''  ''), (0, [])]"
    "concat (files_chunks ([], [''10 -7 '', '' 0''])) = [] @ ints_text [(10, '' ''), (- 7, ''  ''), (0, [])]"
    by (simp_all add: ch demo_ints_text)
  note run = stream_main_prints_file [OF files_writes _ demo_array_length files_delivers _ demo_array_length
      files_reads_keep files_write_keeps refl _ _ demo_separated, of 3 4 _ _ 0]
  from run [OF _ _ content(1)] run [OF _ _ content(2)] files_takes_all [of 3] show ?thesis by (simp add: ch pb_sizes)
qed

text \<open>
  What is written without separators is not read back: the five numbers the test writes are one
  number to a reader of its output file.
\<close>

lemma unseparated_ints_merge:
  assumes "prebuffer_content P fd chunks wire out m True s (concat test_output)"
  shows "\<exists>s'. read_ints (pb_sgetc P) (pb_sbumpc P) ios_new line s = Some (Inr [12345], s')"
proof -
  have "concat test_output = [] @ ints_text [(12345, [CHR 0x0A])]"
    by (simp add: test_output_text ints_text_def dec_int_def dec_def print_base.simps digit_char_def char_of_def bit_0)
  with assms have "prebuffer_content P fd chunks wire out m True s ([] @ ints_text [(12345, [CHR 0x0A])])" by simp
  from prebuffer_source.read_ints_run [OF this, of line] show ?thesis
    by (auto simp: INT_MIN_def INT_MAX_def is_space_def)
qed

text \<open>
  When the output file cannot be opened the test goes on, and the buffer built over the descriptor -1
  then looks at a mode its constructor never set.
\<close>

lemma unset_mode_fails:
  assumes "pb_mode b = None" and "pb_pptr b + length (concat ts) < pb_epptr"
  shows "\<exists>b'. ostream_insert P ts (b, w) = (Inr True, (b', w)) \<and> pb_mode b' = None"
  using assms
proof (induction ts arbitrary: b)
  case (Cons u ts)
  have "\<exists>b'. pb_sputn P u (b, w) = (Inr (length u), (b', w)) \<and> pb_mode b' = None \<and> pb_pptr b' = pb_pptr b + length u"
    using Cons.prems
  proof (induction u arbitrary: b)
    case (Cons c u)
    let ?b = "b\<lparr>pb_buffer := (pb_buffer b)[pb_pptr b := c], pb_pptr := pb_pptr b + 1\<rparr>"
    have "pb_sputc P c (b, w) = (Inr True, (?b, w))"
      using Cons.prems by (simp add: pb_sputc_def pb_store_def bindE_def ret_def pb_sizes)
    with Cons.IH [of ?b] Cons.prems show ?case by (auto simp: bindE_def ret_def)
  qed (simp add: ret_def)
  then obtain b1 where "pb_sputn P u (b, w) = (Inr (length u), (b1, w))" "pb_mode b1 = None"
    "pb_pptr b1 = pb_pptr b + length u" by blast
  with Cons.IH [of b1] Cons.prems(2) show ?case by (auto simp: bindE_def)
qed (simp add: ret_def)

lemma stream_main_unopened:
  "stream_main P close_fd out_array in_array (- 1) fdin line w = Some (Inl (Undefined ''indeterminate mode''), w)"
proof -
  obtain it where it: "pb_init in_array fdin {Ios_in} False = Inr it" by (simp add: pb_init_def Let_def)
  obtain ot where init: "pb_init out_array (- 1) {Ios_out} False = Inr ot" by (simp add: pb_init_def Let_def)
  then have ot: "pb_mode ot = None" "pb_pptr ot = 0" by (auto simp: pb_init_def Let_def)
  have "pb_pptr ot + length (concat test_output) < pb_epptr" using ot(2) by (simp add: test_output_text pb_sizes)
  from unset_mode_fails [OF ot(1) this, of P w] obtain b1 where "ostream_insert P test_output (ot, w) = (Inr True, (b1, w))"
    "pb_mode b1 = None" by (elim exE conjE)
  then have "bindE (ostream_insert P test_output) (\<lambda>_ (b, w). bindE (pb_sync P) (\<lambda>_. ret (get_str b)) (b, w)) (ot, w) =
      (Inl (Undefined ''indeterminate mode''), (b1, w))"
    by (simp add: bindE_def pb_sync_def flushoutput_def mode_out_def)
  with it init show ?thesis by (simp add: stream_main_def)
qed

end
