(* ===== verification/LruMap.thy ===== *)
theory LruMap
  imports Prelude
begin

text \<open>
  \<open>ceph_test/lru_map.hpp\<close>: the bounded map with eviction of the least recently used entry, kept as
  a \<open>std::map\<close> from keys to entries and a \<open>std::list\<close> of keys; an entry holds the iterator of its
  key's list node. Node identities are explicit, so erasing through an iterator whose node is
  gone is an error of the model. The abstract cache is a list of bindings, most recent first.
\<close>

section \<open>std::list with iterators and std::map\<close>

type_synonym 'k nodes = "(nat \<times> 'k) list"

definition list_erase :: "nat \<Rightarrow> 'k nodes \<Rightarrow> exn + 'k nodes" where
  "list_erase it l =
     (if it \<in> fst ` set l then Inr (filter (\<lambda>n. fst n \<noteq> it) l)
      else Inl (Undefined ''erase through a dangling iterator''))"

text \<open>The map in the order of its keys.\<close>

type_synonym ('k, 'e) omap = "('k \<times> 'e) list"

fun om_put :: "'k::linorder \<Rightarrow> 'e \<Rightarrow> ('k, 'e) omap \<Rightarrow> ('k, 'e) omap" where
  "om_put k e [] = [(k, e)]"
| "om_put k e ((a, b) # m) =
     (if k < a then (k, e) # (a, b) # m else if k = a then (k, e) # m else (a, b) # om_put k e m)"

definition om_erase :: "'k \<Rightarrow> ('k, 'e) omap \<Rightarrow> ('k, 'e) omap" where
  "om_erase k m = filter (\<lambda>p. fst p \<noteq> k) m"

definition om_wf :: "('k::linorder, 'e) omap \<Rightarrow> bool" where
  "om_wf m \<longleftrightarrow> sorted_wrt (<) (map fst m)"

lemma om_put_keys: "fst ` set (om_put k e m) = insert k (fst ` set m)"
  by (induction k e m rule: om_put.induct) auto

lemma om_wf_put [wf_intros]: "om_wf m \<Longrightarrow> om_wf (om_put k e m)"
proof (induction k e m rule: om_put.induct)
  case (2 k e a b m)
  then have "om_wf m" "\<forall>x \<in> fst ` set m. a < x" by (auto simp: om_wf_def)
  with 2 om_put_keys [of k e m] show ?case by (fastforce simp: om_wf_def)
qed (simp add: om_wf_def)

lemma om_wf_erase [wf_intros]: "om_wf m \<Longrightarrow> om_wf (om_erase k m)"
  by (induction m) (auto simp: om_wf_def om_erase_def)

lemma om_put_map: "om_wf m \<Longrightarrow> map_of (om_put k e m) = (map_of m)(k \<mapsto> e)"
proof (induction k e m rule: om_put.induct)
  case (2 k e a b m)
  then have "om_wf m" by (simp add: om_wf_def)
  with 2 show ?case by (auto simp: fun_upd_twist)
qed auto

lemma om_erase_map: "map_of (om_erase k m) = (map_of m)(k := None)"
  unfolding om_erase_def by (induction m) auto

section \<open>The class\<close>

record 'v entry =
  e_value :: 'v
  e_lru_iter :: nat

record ('k, 'v) lru_map =
  lm_entries :: "('k, 'v entry) omap"
  lm_lru :: "'k nodes"
  lm_next :: nat
  lm_max :: nat

text \<open>The constructor takes an \<open>int\<close> and stores a \<open>size_t\<close>.\<close>

definition lru_map_new :: "int \<Rightarrow> ('k, 'v) lru_map" where
  "lru_map_new n = \<lparr>lm_entries = [], lm_lru = [], lm_next = 0, lm_max = nat (n mod 2 ^ 64)\<rparr>"

definition lru_erase_node :: "nat \<Rightarrow> (('k, 'v) lru_map, unit) action" where
  "lru_erase_node it s =
     (case list_erase it (lm_lru s) of
        Inl e \<Rightarrow> (Inl e, s)
      | Inr l \<Rightarrow> (Inr (), s\<lparr>lm_lru := l\<rparr>))"

text \<open>\<open>push_front(key)\<close>, with \<open>begin()\<close> of the list it leaves.\<close>

definition lru_push_front :: "'k \<Rightarrow> (('k, 'v) lru_map, nat) action" where
  "lru_push_front key s =
     (Inr (lm_next s), s\<lparr>lm_lru := (lm_next s, key) # lm_lru s, lm_next := Suc (lm_next s)\<rparr>)"

definition lru_put :: "'k::linorder \<Rightarrow> 'v entry \<Rightarrow> (('k, 'v) lru_map, unit) action" where
  "lru_put key e s = (Inr (), s\<lparr>lm_entries := om_put key e (lm_entries s)\<rparr>)"

text \<open>\<open>find\<close> gives the value it stores through the pointer, \<open>None\<close> when it returns false.\<close>

definition lru_find :: "'k::linorder \<Rightarrow> (('k, 'v) lru_map, 'v option) action" where
  "lru_find key s =
     (case map_of (lm_entries s) key of
        None \<Rightarrow> (Inr None, s)
      | Some e \<Rightarrow>
          bindE (lru_erase_node (e_lru_iter e)) (\<lambda>_.
          bindE (lru_push_front key) (\<lambda>it.
          bindE (lru_put key (e\<lparr>e_lru_iter := it\<rparr>)) (\<lambda>_.
            ret (Some (e_value e))))) s)"

text \<open>The eviction at the end of \<open>add\<close>.\<close>

definition lru_evict :: "(('k, 'v) lru_map, unit) action" where
  "lru_evict s =
     (if length (lm_lru s) > lm_max s then
        (case map_of (lm_entries s) (snd (last (lm_lru s))) of
           None \<Rightarrow> (Inl (Undefined ''erase of end()''), s)
         | Some e \<Rightarrow>
             (Inr (), s\<lparr>lm_entries := om_erase (snd (last (lm_lru s))) (lm_entries s),
                        lm_lru := butlast (lm_lru s)\<rparr>))
      else (Inr (), s))"

definition lru_add :: "'k::linorder \<Rightarrow> 'v \<Rightarrow> (('k, 'v) lru_map, unit) action" where
  "lru_add key v s =
     bindE (case map_of (lm_entries s) key of
              None \<Rightarrow> ret ()
            | Some e \<Rightarrow> lru_erase_node (e_lru_iter e)) (\<lambda>_.
     bindE (lru_push_front key) (\<lambda>it.
     bindE (lru_put key \<lparr>e_value = v, e_lru_iter = it\<rparr>) (\<lambda>_.
       lru_evict))) s"

definition lru_erase :: "'k::linorder \<Rightarrow> (('k, 'v) lru_map, unit) action" where
  "lru_erase key s =
     (case map_of (lm_entries s) key of
        None \<Rightarrow> (Inr (), s)
      | Some e \<Rightarrow>
          bindE (lru_erase_node (e_lru_iter e)) (\<lambda>_ s1.
            (Inr (), s1\<lparr>lm_entries := om_erase key (lm_entries s1)\<rparr>)) s)"

text \<open>The lines \<open>dump\<close> prints, given how keys and values print.\<close>

definition lru_dump :: "('k \<Rightarrow> string) \<Rightarrow> ('v \<Rightarrow> string) \<Rightarrow> ('k, 'v) lru_map \<Rightarrow> string list" where
  "lru_dump show_key show_val s =
     (if lm_lru s = [] then []
      else [''LRU_CACHE KEY SEQ''] @ map (\<lambda>n. ''Key: '' @ show_key (snd n)) (lm_lru s) @
           [''MAP MEM''] @
           map (\<lambda>p. ''key: '' @ show_key (fst p) @ '',Value: '' @ show_val (e_value (snd p)))
             (lm_entries s))"

section \<open>The calls\<close>

datatype ('k, 'v) lru_op = Lru_find 'k | Lru_add 'k 'v | Lru_erase 'k

fun lru_call :: "('k::linorder, 'v) lru_op \<Rightarrow> (('k, 'v) lru_map, 'v option) action" where
  "lru_call (Lru_find k) = lru_find k"
| "lru_call (Lru_add k v) = bindE (lru_add k v) (\<lambda>_. ret None)"
| "lru_call (Lru_erase k) = bindE (lru_erase k) (\<lambda>_. ret None)"

section \<open>The abstract cache\<close>

type_synonym ('k, 'v) cache = "('k \<times> 'v) list"

definition cache_drop :: "'k \<Rightarrow> ('k, 'v) cache \<Rightarrow> ('k, 'v) cache" where
  "cache_drop k c = filter (\<lambda>p. fst p \<noteq> k) c"

fun cache_call :: "nat \<Rightarrow> ('k, 'v) lru_op \<Rightarrow> ('k, 'v) cache \<Rightarrow> 'v option \<times> ('k, 'v) cache" where
  "cache_call n (Lru_find k) c =
     (case map_of c k of None \<Rightarrow> (None, c) | Some v \<Rightarrow> (Some v, (k, v) # cache_drop k c))"
| "cache_call n (Lru_add k v) c = (None, take n ((k, v) # cache_drop k c))"
| "cache_call n (Lru_erase k) c = (None, cache_drop k c)"

fun cache_run :: "nat \<Rightarrow> ('k, 'v) lru_op list \<Rightarrow> ('k, 'v) cache \<Rightarrow> 'v option list \<times> ('k, 'v) cache" where
  "cache_run n [] c = ([], c)"
| "cache_run n (x # xs) c =
     (case cache_call n x c of (r, c1) \<Rightarrow> case cache_run n xs c1 of (rs, c2) \<Rightarrow> (r # rs, c2))"

fun op_key :: "('k, 'v) lru_op \<Rightarrow> 'k" where
  "op_key (Lru_find k) = k"
| "op_key (Lru_add k v) = k"
| "op_key (Lru_erase k) = k"

definition cache_wf :: "nat \<Rightarrow> ('k, 'v) cache \<Rightarrow> bool" where
  "cache_wf n c \<longleftrightarrow> distinct (map fst c) \<and> length c \<le> n"

lemma cache_drop_keys: "fst ` set (cache_drop k c) = fst ` set c - {k}"
  by (auto simp: cache_drop_def)

lemma cache_drop_distinct: "distinct (map fst c) \<Longrightarrow> distinct (map fst (cache_drop k c))"
  unfolding cache_drop_def by (rule distinct_map_filter)

lemma cache_drop_length: "length (cache_drop k c) \<le> length c"
  by (simp add: cache_drop_def)

lemma cache_drop_length_less: "k \<in> fst ` set c \<Longrightarrow> length (cache_drop k c) < length c"
  unfolding cache_drop_def by (auto intro: length_filter_less)

lemma cache_drop_map: "map_of (cache_drop k c) = (map_of c)(k := None)"
  unfolding cache_drop_def by (induction c) auto

lemma cache_call_wf:
  assumes "cache_wf n c"
  shows "cache_wf n (snd (cache_call n x c))"
proof (cases x)
  case (Lru_find k)
  show ?thesis
  proof (cases "map_of c k")
    case (Some v)
    then have "k \<in> fst ` set c" using map_of_SomeD by force
    from cache_drop_length_less [OF this] Lru_find Some assms show ?thesis
      by (simp add: cache_wf_def cache_drop_distinct cache_drop_keys)
  qed (use Lru_find assms in simp)
next
  case (Lru_add k v)
  have "distinct (take n (map fst ((k, v) # cache_drop k c)))"
    using assms by (intro distinct_take) (simp add: cache_wf_def cache_drop_distinct cache_drop_keys)
  then have "distinct (map fst (take n ((k, v) # cache_drop k c)))" by (simp only: take_map)
  with Lru_add show ?thesis by (simp add: cache_wf_def)
next
  case (Lru_erase k)
  with assms show ?thesis
    using cache_drop_length [of k c] by (simp add: cache_wf_def cache_drop_distinct)
qed

section \<open>The class refines the cache\<close>

text \<open>The map \<open>M\<close> and the nodes \<open>L\<close> agree: same keys, and each entry's iterator is its node.\<close>

definition linked :: "('k \<Rightarrow> 'v entry option) \<Rightarrow> 'k nodes \<Rightarrow> bool" where
  "linked M L \<longleftrightarrow>
     distinct (map fst L) \<and> distinct (map snd L) \<and> dom M = snd ` set L \<and>
     (\<forall>p \<in> set L. \<exists>e. M (snd p) = Some e \<and> e_lru_iter e = fst p)"

definition bindings :: "('k \<Rightarrow> 'v entry option) \<Rightarrow> 'k nodes \<Rightarrow> ('k, 'v) cache" where
  "bindings M L = map (\<lambda>p. (snd p, e_value (the (M (snd p))))) L"

definition lru_wf :: "('k::linorder, 'v) lru_map \<Rightarrow> bool" where
  "lru_wf s \<longleftrightarrow>
     om_wf (lm_entries s) \<and> linked (map_of (lm_entries s)) (lm_lru s) \<and>
     (\<forall>n \<in> fst ` set (lm_lru s). n < lm_next s) \<and> length (lm_lru s) \<le> lm_max s"

definition lru_abs :: "('k::linorder, 'v) lru_map \<Rightarrow> ('k, 'v) cache" where
  "lru_abs s = bindings (map_of (lm_entries s)) (lm_lru s)"

lemma bindings_keys [simp]: "map fst (bindings M L) = map snd L"
  by (simp add: bindings_def)

lemma bindings_lookup:
  assumes "linked M L"
  shows "map_of (bindings M L) k = map_option e_value (M k)"
proof (cases "k \<in> snd ` set L")
  case True
  with assms obtain e where e: "M k = Some e" unfolding linked_def by blast
  from True have "(k, e_value e) \<in> set (bindings M L)" using e by (force simp: bindings_def)
  moreover have "distinct (map fst (bindings M L))" using assms by (simp add: linked_def)
  ultimately show ?thesis using e by simp
next
  case False
  then have "M k = None" using assms unfolding linked_def by blast
  moreover have "k \<notin> fst ` set (bindings M L)"
    using False by (metis bindings_keys list.set_map)
  ultimately show ?thesis by (simp add: map_of_eq_None_iff)
qed

lemma linked_node:
  assumes "linked M L" and "M k = Some e"
  shows "(e_lru_iter e, k) \<in> set L"
    and "filter (\<lambda>p. fst p \<noteq> e_lru_iter e) L = filter (\<lambda>p. snd p \<noteq> k) L"
proof -
  from assms have "k \<in> snd ` set L" unfolding linked_def by blast
  then obtain n where n: "(n, k) \<in> set L" by force
  with assms have it: "e_lru_iter e = n" unfolding linked_def by fastforce
  with n show "(e_lru_iter e, k) \<in> set L" by simp
  have inj: "inj_on fst (set L)" "inj_on snd (set L)"
    using assms(1) by (simp_all add: linked_def distinct_map)
  have "fst p = n \<longleftrightarrow> snd p = k" if "p \<in> set L" for p
    using inj_onD [OF inj(1) _ that n] inj_onD [OF inj(2) _ that n] by (metis fst_conv snd_conv)
  then show "filter (\<lambda>p. fst p \<noteq> e_lru_iter e) L = filter (\<lambda>p. snd p \<noteq> k) L"
    using it by (auto intro: filter_cong)
qed

lemma filter_absent: "k \<notin> snd ` set L \<Longrightarrow> filter (\<lambda>p. snd p \<noteq> k) L = L"
  by (rule filter_True) auto

text \<open>Dropping a key, and putting one in front.\<close>

lemma linked_drop:
  assumes "linked M L"
  shows "linked (M(k := None)) (filter (\<lambda>p. snd p \<noteq> k) L)"
    and "bindings (M(k := None)) (filter (\<lambda>p. snd p \<noteq> k) L) = cache_drop k (bindings M L)"
proof -
  show "linked (M(k := None)) (filter (\<lambda>p. snd p \<noteq> k) L)"
    using assms unfolding linked_def by (auto simp: distinct_map_filter)
  show "bindings (M(k := None)) (filter (\<lambda>p. snd p \<noteq> k) L) = cache_drop k (bindings M L)"
    unfolding bindings_def cache_drop_def by (induction L) auto
qed

lemma linked_push:
  assumes l: "linked M L" and k: "k \<notin> snd ` set L" and i: "\<forall>n \<in> fst ` set L. n < e_lru_iter e"
  shows "linked (M(k \<mapsto> e)) ((e_lru_iter e, k) # L)"
    and "bindings (M(k \<mapsto> e)) ((e_lru_iter e, k) # L) = (k, e_value e) # bindings M L"
proof -
  have other: "snd p \<noteq> k" if "p \<in> set L" for p using k that by force
  have "e_lru_iter e \<notin> fst ` set L" using i by blast
  then show "linked (M(k \<mapsto> e)) ((e_lru_iter e, k) # L)"
    using l k other unfolding linked_def by simp
  show "bindings (M(k \<mapsto> e)) ((e_lru_iter e, k) # L) = (k, e_value e) # bindings M L"
    using other unfolding bindings_def by simp
qed

lemma linked_evict:
  assumes "linked M L" and "L \<noteq> []"
  shows "linked (M(snd (last L) := None)) (butlast L)"
    and "bindings (M(snd (last L) := None)) (butlast L) = butlast (bindings M L)"
proof -
  obtain L' n k where L: "L = L' @ [(n, k)]" by (metis assms(2) append_butlast_last_id surj_pair)
  with assms(1) have k: "k \<notin> snd ` set L'" and n: "n \<notin> fst ` set L'" by (auto simp: linked_def)
  show "linked (M(snd (last L) := None)) (butlast L)"
    using assms(1) k L unfolding linked_def by auto
  show "bindings (M(snd (last L) := None)) (butlast L) = butlast (bindings M L)"
    using k L unfolding bindings_def by (auto simp: map_butlast [symmetric])
qed

lemma lru_wfD:
  assumes "lru_wf s"
  shows "om_wf (lm_entries s)" and "linked (map_of (lm_entries s)) (lm_lru s)"
    and "\<forall>n \<in> fst ` set (lm_lru s). n < lm_next s" and "length (lm_lru s) \<le> lm_max s"
  using assms by (simp_all add: lru_wf_def)

lemma lru_lookup: "lru_wf s \<Longrightarrow> map_of (lru_abs s) k = map_option e_value (map_of (lm_entries s) k)"
  unfolding lru_abs_def by (rule bindings_lookup) (rule lru_wfD(2))

lemma lru_erase_node_run:
  assumes "lru_wf s" and "map_of (lm_entries s) k = Some e"
  shows "lru_erase_node (e_lru_iter e) s =
           (Inr (), s\<lparr>lm_lru := filter (\<lambda>p. snd p \<noteq> k) (lm_lru s)\<rparr>)"
  using linked_node [OF lru_wfD(2) [OF assms(1)] assms(2)]
  by (force simp: lru_erase_node_def list_erase_def)

text \<open>The state after a key was moved, or put, to the front.\<close>

definition moved_front :: "'k::linorder \<Rightarrow> 'v \<Rightarrow> ('k, 'v) lru_map \<Rightarrow> ('k, 'v) lru_map" where
  "moved_front k v s =
     s\<lparr>lm_lru := (lm_next s, k) # filter (\<lambda>p. snd p \<noteq> k) (lm_lru s),
       lm_next := Suc (lm_next s),
       lm_entries := om_put k \<lparr>e_value = v, e_lru_iter = lm_next s\<rparr> (lm_entries s)\<rparr>"

lemma moved_front_linked:
  assumes "lru_wf s"
  shows "om_wf (lm_entries (moved_front k v s))"
    and "linked (map_of (lm_entries (moved_front k v s))) (lm_lru (moved_front k v s))"
    and "lru_abs (moved_front k v s) = (k, v) # cache_drop k (lru_abs s)"
    and "\<forall>n \<in> fst ` set (lm_lru (moved_front k v s)). n < lm_next (moved_front k v s)"
proof -
  let ?M = "map_of (lm_entries s)" and ?L = "filter (\<lambda>p. snd p \<noteq> k) (lm_lru s)"
  let ?e = "\<lparr>e_value = v, e_lru_iter = lm_next s\<rparr>"
  note wf = lru_wfD [OF assms]
  have M: "map_of (lm_entries (moved_front k v s)) = (?M(k := None))(k \<mapsto> ?e)"
    using wf(1) by (simp add: moved_front_def om_put_map)
  have fresh: "k \<notin> snd ` set ?L" "\<forall>n \<in> fst ` set ?L. n < e_lru_iter ?e" using wf(3) by auto
  note push = linked_push [OF linked_drop(1) [OF wf(2)] fresh]
  show "om_wf (lm_entries (moved_front k v s))"
    using wf(1) by (simp add: moved_front_def om_wf_put)
  have L: "lm_lru (moved_front k v s) = (e_lru_iter ?e, k) # ?L" by (simp add: moved_front_def)
  show "linked (map_of (lm_entries (moved_front k v s))) (lm_lru (moved_front k v s))"
    unfolding M L by (rule push(1))
  show "lru_abs (moved_front k v s) = (k, v) # cache_drop k (lru_abs s)"
    using push(2) linked_drop(2) [OF wf(2), of k] unfolding lru_abs_def M L by simp
  show "\<forall>n \<in> fst ` set (lm_lru (moved_front k v s)). n < lm_next (moved_front k v s)"
    using wf(3) by (auto simp: moved_front_def)
qed

lemma lru_find_refines:
  assumes "lru_wf s"
  shows "\<exists>s'. lru_find k s = (Inr (map_of (lru_abs s) k), s') \<and> lru_wf s' \<and> lm_max s' = lm_max s \<and>
           lru_abs s' = snd (cache_call n (Lru_find k) (lru_abs s))"
proof (cases "map_of (lm_entries s) k")
  case None
  with assms show ?thesis by (simp add: lru_find_def lru_lookup)
next
  case (Some e)
  from linked_node(1) [OF lru_wfD(2) [OF assms] Some]
  have "length (filter (\<lambda>p. snd p \<noteq> k) (lm_lru s)) < length (lm_lru s)"
    by (intro length_filter_less) auto
  then have "lru_wf (moved_front k (e_value e) s)"
    using moved_front_linked [OF assms, of k "e_value e"] lru_wfD(4) [OF assms]
    unfolding lru_wf_def by (simp add: moved_front_def)
  moreover have "lru_find k s = (Inr (Some (e_value e)), moved_front k (e_value e) s)"
  proof -
    have e: "e\<lparr>e_lru_iter := n\<rparr> = \<lparr>e_value = e_value e, e_lru_iter = n\<rparr>" for n by (cases e) simp
    show ?thesis using Some by (simp add: lru_find_def bindE_def e lru_erase_node_run [OF assms Some]
        lru_push_front_def lru_put_def ret_def moved_front_def)
  qed
  ultimately show ?thesis
    using Some assms moved_front_linked(3) [OF assms, of k "e_value e"]
    by (simp add: lru_lookup) (simp add: moved_front_def)
qed

lemma butlast_take_bound:
  "length xs \<le> Suc n \<Longrightarrow> (if n < length xs then butlast xs else xs) = take n xs"
  by (cases "length xs = Suc n") (auto simp: butlast_conv_take)

lemma lru_add_run:
  assumes "lru_wf s"
  shows "lru_add k v s = lru_evict (moved_front k v s)"
proof (cases "map_of (lm_entries s) k")
  case None
  then have "filter (\<lambda>p. snd p \<noteq> k) (lm_lru s) = lm_lru s"
    using lru_wfD(2) [OF assms] unfolding linked_def by (intro filter_absent) blast
  with None show ?thesis
    by (simp add: lru_add_def bindE_def lru_push_front_def lru_put_def ret_def moved_front_def)
next
  case (Some e)
  then show ?thesis
    by (simp add: lru_add_def bindE_def lru_erase_node_run [OF assms Some] lru_push_front_def
        lru_put_def ret_def moved_front_def)
qed

lemma lru_add_refines:
  assumes "lru_wf s"
  shows "\<exists>s'. lru_add k v s = (Inr (), s') \<and> lru_wf s' \<and> lm_max s' = lm_max s \<and>
           lru_abs s' = take (lm_max s) ((k, v) # cache_drop k (lru_abs s))"
proof -
  let ?s = "moved_front k v s"
  note run = lru_add_run [OF assms, of k v]
  note m = moved_front_linked [OF assms, of k v]
  have len: "length (lm_lru ?s) \<le> Suc (lm_max s)"
    using le_trans [OF length_filter_le lru_wfD(4) [OF assms]] by (simp add: moved_front_def)
  have mx: "lm_max ?s = lm_max s" by (simp add: moved_front_def)
  have abs_len: "length (lru_abs ?s) = length (lm_lru ?s)" by (simp add: lru_abs_def bindings_def)
  show ?thesis
  proof (cases "length (lm_lru ?s) > lm_max s")
    case False
    with m len mx have "lru_wf ?s" by (simp add: lru_wf_def)
    with False mx abs_len m(3) run show ?thesis
      by (auto simp: lru_evict_def)
  next
    case True
    let ?k = "snd (last (lm_lru ?s))"
    have ne: "lm_lru ?s \<noteq> []" by (simp add: moved_front_def)
    from m(2) last_in_set [OF ne] obtain e where e: "map_of (lm_entries ?s) ?k = Some e"
      unfolding linked_def by blast
    define s' where "s' = ?s\<lparr>lm_entries := om_erase ?k (lm_entries ?s), lm_lru := butlast (lm_lru ?s)\<rparr>"
    have ev: "lru_evict ?s = (Inr (), s')" using True e mx by (simp add: lru_evict_def s'_def)
    note l = linked_evict [OF m(2) ne]
    have "lru_wf s'"
      using l(1) m(1,4) len mx unfolding lru_wf_def
      by (auto simp: s'_def om_wf_erase om_erase_map dest: in_set_butlastD)
    moreover have "lru_abs s' = take (lm_max s) (lru_abs ?s)"
      using l(2) butlast_take_bound [of "lru_abs ?s" "lm_max s"] abs_len True len
      by (simp add: lru_abs_def s'_def om_erase_map)
    ultimately show ?thesis using run ev m(3) mx by (simp add: s'_def)
  qed
qed

lemma lru_erase_refines:
  assumes "lru_wf s"
  shows "\<exists>s'. lru_erase k s = (Inr (), s') \<and> lru_wf s' \<and> lm_max s' = lm_max s \<and>
           lru_abs s' = cache_drop k (lru_abs s)"
proof (cases "map_of (lm_entries s) k")
  case None
  then have "k \<notin> snd ` set (lm_lru s)" using lru_wfD(2) [OF assms] unfolding linked_def by blast
  then have "cache_drop k (lru_abs s) = lru_abs s"
    unfolding cache_drop_def lru_abs_def bindings_def by (intro filter_True) auto
  with None assms show ?thesis by (simp add: lru_erase_def)
next
  case (Some e)
  define s' where "s' = s\<lparr>lm_lru := filter (\<lambda>p. snd p \<noteq> k) (lm_lru s), lm_entries := om_erase k (lm_entries s)\<rparr>"
  note l = linked_drop [OF lru_wfD(2) [OF assms], of k]
  have "length (filter (\<lambda>p. snd p \<noteq> k) (lm_lru s)) \<le> lm_max s"
    using lru_wfD(4) [OF assms] length_filter_le le_trans by blast
  then have "lru_wf s'"
    using l(1) lru_wfD(1,3) [OF assms] unfolding lru_wf_def
    by (auto simp: s'_def om_wf_erase om_erase_map)
  moreover have "lru_erase k s = (Inr (), s')"
    using Some by (simp add: lru_erase_def bindE_def lru_erase_node_run [OF assms Some] s'_def)
  moreover have "lru_abs s' = cache_drop k (lru_abs s)"
    using l(2) by (simp add: lru_abs_def s'_def om_erase_map)
  ultimately show ?thesis by (simp add: s'_def)
qed

section \<open>The contract of a bounded cache\<close>

fun call_run :: "('o \<Rightarrow> ('s, 'r) action) \<Rightarrow> 'o list \<Rightarrow> ('s, 'r list) action" where
  "call_run call [] = ret []"
| "call_run call (x # xs) = bindE (call x) (\<lambda>r. bindE (call_run call xs) (\<lambda>rs. ret (r # rs)))"

lemma cache_run_snoc:
  "fst (cache_run n (xs @ [x]) c) =
     fst (cache_run n xs c) @ [fst (cache_call n x (snd (cache_run n xs c)))]"
  by (induction xs arbitrary: c) (simp_all add: case_prod_beta)

text \<open>The binding of \<open>k\<close> to \<open>v\<close> stands behind keys of \<open>T\<close> only.\<close>

definition recent :: "'k \<Rightarrow> 'v \<Rightarrow> 'k set \<Rightarrow> ('k, 'v) cache \<Rightarrow> bool" where
  "recent k v T c \<longleftrightarrow> (\<exists>xs ys. c = xs @ (k, v) # ys \<and> fst ` set xs \<subseteq> T \<and> distinct (map fst c))"

lemma recent_lookup:
  assumes "recent k v T c"
  shows "map_of c k = Some v"
proof -
  from assms have "(k, v) \<in> set c" "distinct (map fst c)" by (auto simp: recent_def)
  then show ?thesis by simp
qed

lemma recent_drop:
  assumes "recent k v T c" and "j \<noteq> k"
  shows "recent k v T (cache_drop j c)"
proof -
  from assms(1) obtain xs ys where c: "c = xs @ (k, v) # ys" "fst ` set xs \<subseteq> T" "distinct (map fst c)"
    unfolding recent_def by blast
  have "cache_drop j c = cache_drop j xs @ (k, v) # cache_drop j ys"
    using c(1) assms(2) by (simp add: cache_drop_def)
  moreover have "fst ` set (cache_drop j xs) \<subseteq> T" using c(2) by (auto simp: cache_drop_def)
  moreover have "distinct (map fst (cache_drop j c))" by (rule cache_drop_distinct [OF c(3)])
  ultimately show ?thesis unfolding recent_def by blast
qed

lemma recent_front:
  assumes "recent k v T c" and "j \<noteq> k"
  shows "recent k v (insert j T) ((j, w) # cache_drop j c)"
proof -
  from recent_drop [OF assms] obtain xs ys where c: "cache_drop j c = xs @ (k, v) # ys"
    "fst ` set xs \<subseteq> T" "distinct (map fst (cache_drop j c))" unfolding recent_def by blast
  then have "(j, w) # cache_drop j c = ((j, w) # xs) @ (k, v) # ys" by simp
  moreover have "fst ` set ((j, w) # xs) \<subseteq> insert j T" using c(2) by auto
  moreover have "distinct (map fst ((j, w) # cache_drop j c))" using c(3) by (simp add: cache_drop_keys)
  ultimately show ?thesis unfolding recent_def by blast
qed

lemma recent_take:
  assumes "recent k v T c" and "finite T" and "card T < n"
  shows "recent k v T (take n c)"
proof -
  from assms(1) obtain xs ys where c: "c = xs @ (k, v) # ys" "fst ` set xs \<subseteq> T" "distinct (map fst c)"
    unfolding recent_def by blast
  then have "distinct (map fst xs)" by simp
  then have "length xs = card (fst ` set xs)" using distinct_card [of "map fst xs"] by simp
  with c(2) assms(2,3) have "length xs < n" using card_mono [of T "fst ` set xs"] by linarith
  then have "take n c = xs @ (k, v) # take (n - Suc (length xs)) ys"
    using c(1) Suc_diff_Suc [of "length xs" n] by (simp flip: Suc_diff_Suc)
  moreover have "distinct (map fst (take n c))" using c(3) by (metis distinct_take take_map)
  ultimately show ?thesis using c(2) unfolding recent_def by blast
qed

lemma recent_call:
  assumes "recent k v T c" and "op_key x \<noteq> k" and "finite T" and "card (insert (op_key x) T) < n"
  shows "recent k v (insert (op_key x) T) (snd (cache_call n x c))"
proof (cases x)
  case (Lru_find j)
  have "recent k v (insert j T) c" using assms(1) unfolding recent_def by blast
  with Lru_find recent_front [OF assms(1)] assms(2) show ?thesis by (auto split: option.split)
next
  case (Lru_add j w)
  with recent_take [OF recent_front [OF assms(1)]] assms show ?thesis by simp
next
  case (Lru_erase j)
  with recent_drop [OF assms(1)] assms(2) show ?thesis unfolding recent_def by fastforce
qed

locale bounded_cache =
  fixes call :: "('k, 'v) lru_op \<Rightarrow> ('s, 'v option) action"
    and wf :: "'s \<Rightarrow> bool"
    and abs :: "'s \<Rightarrow> ('k, 'v) cache"
    and limit :: "'s \<Rightarrow> nat"
  assumes refines: "wf s \<Longrightarrow> \<exists>s'. call x s = (Inr (fst (cache_call (limit s) x (abs s))), s') \<and>
      wf s' \<and> limit s' = limit s \<and> abs s' = snd (cache_call (limit s) x (abs s))"
    and bounded: "wf s \<Longrightarrow> cache_wf (limit s) (abs s)"
begin

lemma run_refines:
  assumes "wf s"
  shows "\<exists>s'. call_run call xs s = (Inr (fst (cache_run (limit s) xs (abs s))), s') \<and>
           wf s' \<and> limit s' = limit s \<and> abs s' = snd (cache_run (limit s) xs (abs s))"
  using assms
proof (induction xs arbitrary: s)
  case Nil
  then show ?case by (simp add: ret_def)
next
  case (Cons x xs)
  obtain r c1 where x: "cache_call (limit s) x (abs s) = (r, c1)" by fastforce
  from refines [OF Cons.prems, of x] x obtain s1 where s1: "call x s = (Inr r, s1)" "wf s1"
    "limit s1 = limit s" "abs s1 = c1" by auto
  from Cons.IH [OF s1(2)] s1(3,4) obtain s2 where
    "call_run call xs s1 = (Inr (fst (cache_run (limit s) xs c1)), s2)" "wf s2" "limit s2 = limit s"
    "abs s2 = snd (cache_run (limit s) xs c1)" by auto
  then show ?case using x s1(1) by (auto simp: bindE_def ret_def split: prod.split)
qed

lemma recent_run:
  assumes "recent k v T c" and "finite T" and "k \<notin> op_key ` set xs"
    and "card (T \<union> op_key ` set xs) < n"
  shows "recent k v (T \<union> op_key ` set xs) (snd (cache_run n xs c))"
  using assms
proof (induction xs arbitrary: T c)
  case (Cons x xs)
  obtain r c1 where x: "cache_call n x c = (r, c1)" by fastforce
  have "card (insert (op_key x) T) \<le> card (T \<union> op_key ` set (x # xs))"
    using Cons.prems(2) by (intro card_mono) auto
  with Cons.prems have "card (insert (op_key x) T) < n" by linarith
  moreover have "op_key x \<noteq> k" using Cons.prems(3) by auto
  ultimately have "recent k v (insert (op_key x) T) c1"
    using recent_call [OF Cons.prems(1) _ Cons.prems(2), of x n] x by simp
  from Cons.IH [OF this] Cons.prems(2-4) x show ?case by (simp add: case_prod_beta)
qed simp

text \<open>An entry is found again as long as fewer than \<open>limit\<close> other keys are touched meanwhile.\<close>

lemma recent_survives:
  assumes wf: "wf s" and k: "k \<notin> op_key ` set xs" and card: "card (op_key ` set xs) < limit s"
    and run: "call_run call (Lru_add k v # xs @ [Lru_find k]) s = (Inr rs, s')"
  shows "last rs = Some v"
proof -
  let ?c = "snd (cache_call (limit s) (Lru_add k v) (abs s))"
  have "distinct (map fst (abs s))" using bounded [OF wf] by (simp add: cache_wf_def)
  then have "distinct (map fst ((k, v) # cache_drop k (abs s)))"
    by (simp add: cache_drop_distinct cache_drop_keys)
  then have "recent k v {} ((k, v) # cache_drop k (abs s))" unfolding recent_def by force
  then have "recent k v {} ?c" using recent_take [of k v "{}"] card by simp
  from recent_run [OF this _ k] card
  have r: "recent k v (op_key ` set xs) (snd (cache_run (limit s) xs ?c))" by simp
  from run_refines [OF wf, of "Lru_add k v # xs @ [Lru_find k]"] run
  have "rs = fst (cache_run (limit s) (Lru_add k v # xs @ [Lru_find k]) (abs s))" by simp
  then have "last rs = fst (cache_call (limit s) (Lru_find k) (snd (cache_run (limit s) xs ?c)))"
    by (simp add: cache_run_snoc case_prod_beta)
  with recent_lookup [OF r] show ?thesis by simp
qed

end

lemma lru_call_refines:
  assumes "lru_wf s"
  shows "\<exists>s'. lru_call x s = (Inr (fst (cache_call (lm_max s) x (lru_abs s))), s') \<and>
           lru_wf s' \<and> lm_max s' = lm_max s \<and> lru_abs s' = snd (cache_call (lm_max s) x (lru_abs s))"
proof (cases x)
  case (Lru_find k)
  have "fst (cache_call (lm_max s) x (lru_abs s)) = map_of (lru_abs s) k"
    using Lru_find by (auto split: option.split)
  with Lru_find lru_find_refines [OF assms, of k "lm_max s"] show ?thesis by simp
next
  case (Lru_add k v)
  with lru_add_refines [OF assms, of k v] show ?thesis by (auto simp: bindE_def ret_def)
next
  case (Lru_erase k)
  with lru_erase_refines [OF assms, of k] show ?thesis by (auto simp: bindE_def ret_def)
qed

lemma lru_wf_cache: "lru_wf s \<Longrightarrow> cache_wf (lm_max s) (lru_abs s)"
  using lru_wfD(2,4) [of s] by (simp add: cache_wf_def lru_abs_def linked_def) (simp add: bindings_def)

interpretation lru: bounded_cache lru_call lru_wf lru_abs lm_max
  by unfold_locales (simp_all add: lru_call_refines lru_wf_cache)

lemma lru_wf_new: "lru_wf (lru_map_new n)"
  by (simp add: lru_wf_def lru_map_new_def om_wf_def linked_def)

lemma lru_abs_new: "lru_abs (lru_map_new n) = []"
  by (simp add: lru_abs_def lru_map_new_def bindings_def)

section \<open>Properties\<close>

text \<open>
  C7: The map with its list of iterators is a least-recently-used cache. Any sequence of calls on
  a new map runs without touching a dangling iterator, gives the results of the abstract cache
  (bindings in order of use, cut to the capacity), and never holds more entries than its
  capacity, each key once.
\<close>
theorem lru_map_is_cache:
  assumes "0 \<le> n" and "n < 2147483648"
  shows "\<exists>s. call_run lru_call xs (lru_map_new n) = (Inr (fst (cache_run (nat n) xs [])), s) \<and>
           lru_abs s = snd (cache_run (nat n) xs []) \<and>
           length (lm_entries s) \<le> nat n \<and> dom (map_of (lm_entries s)) = snd ` set (lm_lru s)"
proof -
  have n: "lm_max (lru_map_new n) = nat n" using assms by (simp add: lru_map_new_def)
  from lru.run_refines [OF lru_wf_new, of xs n] obtain s where
    s: "call_run lru_call xs (lru_map_new n) = (Inr (fst (cache_run (nat n) xs [])), s)"
    "lru_wf s" "lm_max s = nat n" "lru_abs s = snd (cache_run (nat n) xs [])"
    by (auto simp: n lru_abs_new)
  note wf = lru_wfD [OF s(2)]
  have "distinct (map fst (lm_entries s))"
    using wf(1) unfolding om_wf_def strict_sorted_iff by blast
  then have "length (lm_entries s) = card (dom (map_of (lm_entries s)))"
    using distinct_card [of "map fst (lm_entries s)"] by (simp add: dom_map_of_conv_image_fst)
  also have "\<dots> = card (snd ` set (lm_lru s))" using wf(2) by (simp add: linked_def)
  also have "\<dots> \<le> length (lm_lru s)" by (metis card_length length_map list.set_map)
  finally show ?thesis using s wf(2,4) by (simp add: linked_def)
qed

theorem lru_map_is_cache_witness:
  "\<exists>s. call_run lru_call [Lru_add 1 ''a'', Lru_add (2::int) ''b'', Lru_find 1, Lru_add 3 ''c'', Lru_find 2]
         (lru_map_new 2) = (Inr [None, None, Some ''a'', None, None], s)"
  using lru_map_is_cache [of 2 "[Lru_add 1 ''a'', Lru_add (2::int) ''b'', Lru_find 1, Lru_add 3 ''c'', Lru_find 2]"]
  by (auto simp: cache_drop_def)

text \<open>
  C33: What was used recently is kept. After a key is added, and while calls touch fewer than
  capacity many other keys and not this one, finding it gives the value that was added.
\<close>
theorem lru_recently_added_is_found:
  assumes "lru_wf s" and "k \<notin> op_key ` set xs" and "card (op_key ` set xs) < lm_max s"
    and "call_run lru_call (Lru_add k v # xs @ [Lru_find k]) s = (Inr rs, s')"
  shows "last rs = Some v"
  by (rule lru.recent_survives [OF assms])

theorem lru_recently_added_is_found_witness:
  "\<exists>rs s'. call_run lru_call (Lru_add (7::int) CHR ''x'' # [Lru_add 8 CHR ''y''] @ [Lru_find 7])
       (lru_map_new 2) = (Inr rs, s') \<and> last rs = Some CHR ''x''"
proof -
  obtain rs s' where r: "call_run lru_call (Lru_add (7::int) CHR ''x'' # [Lru_add 8 CHR ''y''] @ [Lru_find 7])
       (lru_map_new 2) = (Inr rs, s')"
    using lru.run_refines [OF lru_wf_new] by blast
  from lru_recently_added_is_found [OF lru_wf_new _ _ r] show ?thesis
    using r by (simp add: lru_map_new_def)
qed

end
