(* ===== verification/Buffers.thy ===== *)
theory Buffers
  imports Prelude
begin

text \<open>
  \<open>ceph_test/test_iter.cc\<close>: an intrusive doubly linked list with a root node in the container
  (\<open>list_base\<close>, \<open>Node\<close>, \<open>buffers\<close>) and its iterators. Nodes live in an explicit heap, a pointer
  is an address, and an access to an address that is not allocated is an error of the model. A
  node without an element is a root. The container is abstracted by the ring of its addresses.
\<close>

section \<open>The heap\<close>

record 'a node =
  n_next :: nat
  n_prev :: nat
  n_ele :: "'a option"

record 'a heap =
  hp_nodes :: "nat \<Rightarrow> 'a node option"
  hp_new :: nat

definition empty_heap :: "'a heap" where
  "empty_heap = \<lparr>hp_nodes = Map.empty, hp_new = 0\<rparr>"

type_synonym ('a, 'b) heap_action = "('a heap, 'b) action"

definition wild :: exn where
  "wild = Undefined ''access through a wild pointer''"

definition load :: "nat \<Rightarrow> ('a, 'a node) heap_action" where
  "load p h = (case hp_nodes h p of None \<Rightarrow> (Inl wild, h) | Some n \<Rightarrow> (Inr n, h))"

definition store :: "nat \<Rightarrow> ('a node \<Rightarrow> 'a node) \<Rightarrow> ('a, unit) heap_action" where
  "store p f h =
     (case hp_nodes h p of
        None \<Rightarrow> (Inl wild, h)
      | Some n \<Rightarrow> (Inr (), h\<lparr>hp_nodes := (hp_nodes h)(p \<mapsto> f n)\<rparr>))"

definition get_next :: "nat \<Rightarrow> ('a, nat) heap_action" where
  "get_next p = bindE (load p) (\<lambda>n. ret (n_next n))"

definition get_prev :: "nat \<Rightarrow> ('a, nat) heap_action" where
  "get_prev p = bindE (load p) (\<lambda>n. ret (n_prev n))"

definition set_next :: "nat \<Rightarrow> nat \<Rightarrow> ('a, unit) heap_action" where
  "set_next p q = store p (\<lambda>n. n\<lparr>n_next := q\<rparr>)"

definition set_prev :: "nat \<Rightarrow> nat \<Rightarrow> ('a, unit) heap_action" where
  "set_prev p q = store p (\<lambda>n. n\<lparr>n_prev := q\<rparr>)"

section \<open>list_base and Node\<close>

text \<open>The constructors: a node is linked to itself.\<close>

definition new_list_base :: "'a option \<Rightarrow> ('a, nat) heap_action" where
  "new_list_base x h =
     (let p = hp_new h in
      (Inr p, h\<lparr>hp_nodes := (hp_nodes h)(p \<mapsto> \<lparr>n_next = p, n_prev = p, n_ele = x\<rparr>),
                hp_new := Suc p\<rparr>))"

definition new_Node :: "'a \<Rightarrow> ('a, nat) heap_action" where
  "new_Node ele = new_list_base (Some ele)"

definition list_insert :: "nat \<Rightarrow> nat \<Rightarrow> ('a, unit) heap_action" where
  "list_insert this e =
     bindE (set_next e this) (\<lambda>_.
     bindE (get_prev this) (\<lambda>p.
     bindE (set_prev e p) (\<lambda>_.
     bindE (get_prev this) (\<lambda>p.
     bindE (set_next p e) (\<lambda>_.
       set_prev this e)))))"

definition list_unlink :: "nat \<Rightarrow> ('a, unit) heap_action" where
  "list_unlink this =
     bindE (get_next this) (\<lambda>n. bindE (get_prev this) (\<lambda>p.
     bindE (set_prev n p) (\<lambda>_.
     bindE (get_next this) (\<lambda>n. bindE (get_prev n) (\<lambda>q.
     bindE (set_next q n) (\<lambda>_.
     bindE (set_next this this) (\<lambda>_.
       set_prev this this)))))))"

text \<open>\<open>delete\<close> of a node; the root is a member of its container and was not allocated by \<open>new\<close>.\<close>

definition delete_node :: "nat \<Rightarrow> ('a, unit) heap_action" where
  "delete_node p h =
     (case hp_nodes h p of
        None \<Rightarrow> (Inl wild, h)
      | Some n \<Rightarrow>
          if n_ele n = None then (Inl (Undefined ''delete of a root''), h)
          else (Inr (), h\<lparr>hp_nodes := (hp_nodes h)(p := None)\<rparr>))"

section \<open>Iterators\<close>

text \<open>Both kinds of iterator hold a node's address.\<close>

definition it_deref :: "nat \<Rightarrow> ('a, 'a) heap_action" where
  "it_deref cur =
     bindE (load cur) (\<lambda>n.
       case n_ele n of
         None \<Rightarrow> throw (Undefined ''element of a root'')
       | Some x \<Rightarrow> ret x)"

definition it_incr :: "nat \<Rightarrow> ('a, nat) heap_action" where
  "it_incr cur = get_next cur"

definition it_eq :: "nat \<Rightarrow> nat \<Rightarrow> bool" where
  "it_eq a b \<longleftrightarrow> a = b"

definition it_ne :: "nat \<Rightarrow> nat \<Rightarrow> bool" where
  "it_ne a b \<longleftrightarrow> \<not> it_eq a b"

text \<open>The operators between an iterator and a const iterator.\<close>

definition mixed_eq :: "nat \<Rightarrow> nat \<Rightarrow> bool" where
  "mixed_eq x y \<longleftrightarrow> x = y"

definition mixed_ne :: "nat \<Rightarrow> nat \<Rightarrow> bool" where
  "mixed_ne x y \<longleftrightarrow> x = y"

section \<open>buffers\<close>

text \<open>A container is the address of its root.\<close>

definition buffers_new :: "('a, nat) heap_action" where
  "buffers_new =
     bindE (new_list_base None) (\<lambda>r.
     bindE (set_next r r) (\<lambda>_.
     bindE (set_prev r r) (\<lambda>_. ret r)))"

definition buffers_move :: "nat \<Rightarrow> ('a, nat) heap_action" where
  "buffers_move other =
     bindE (new_list_base None) (\<lambda>r.
     bindE (get_next other) (\<lambda>n. bindE (set_next r (if n = other then r else n)) (\<lambda>_.
     bindE (get_prev other) (\<lambda>p. bindE (set_prev r (if p = other then r else p)) (\<lambda>_.
     bindE (set_next other other) (\<lambda>_.
     bindE (set_prev other other) (\<lambda>_. ret r)))))))"

definition push_back :: "nat \<Rightarrow> 'a \<Rightarrow> ('a, unit) heap_action" where
  "push_back r val = bindE (new_Node val) (\<lambda>item. list_insert r item)"

definition buffers_begin :: "nat \<Rightarrow> ('a, nat) heap_action" where
  "buffers_begin r = get_next r"

definition buffers_end :: "nat \<Rightarrow> ('a, nat) heap_action" where
  "buffers_end r = ret r"

definition buffers_back :: "nat \<Rightarrow> ('a, nat) heap_action" where
  "buffers_back r = get_prev r"

definition push_front :: "nat \<Rightarrow> 'a \<Rightarrow> ('a, unit) heap_action" where
  "push_front r val =
     bindE (new_Node val) (\<lambda>item. bindE (buffers_begin r) (\<lambda>b. list_insert b item))"

definition buffers_erase_node :: "nat \<Rightarrow> ('a, unit) heap_action" where
  "buffers_erase_node pos = bindE (list_unlink pos) (\<lambda>_. delete_node pos)"

definition pop_back :: "nat \<Rightarrow> ('a, unit) heap_action" where
  "pop_back r =
     bindE (get_prev r) (\<lambda>p.
       if p = r then ret () else bindE (get_prev r) (\<lambda>p. buffers_erase_node p))"

definition pop_front :: "nat \<Rightarrow> ('a, unit) heap_action" where
  "pop_front r =
     bindE (get_next r) (\<lambda>n.
       if n = r then ret () else bindE (get_next r) (\<lambda>n. buffers_erase_node n))"

definition buffers_insert :: "nat \<Rightarrow> 'a \<Rightarrow> ('a, nat) heap_action" where
  "buffers_insert pos val =
     bindE (new_Node val) (\<lambda>item.
     bindE (list_insert pos item) (\<lambda>_. get_prev pos))"

definition buffers_erase :: "nat \<Rightarrow> ('a, nat) heap_action" where
  "buffers_erase pos =
     bindE (it_incr pos) (\<lambda>pos'.
     bindE (buffers_erase_node pos) (\<lambda>_. ret pos'))"

definition buffers_empty :: "nat \<Rightarrow> ('a, bool) heap_action" where
  "buffers_empty r = bindE (get_next r) (\<lambda>n. ret (n = r))"

text \<open>The destructor's loop, \<open>None\<close> when it does not end.\<close>

partial_function (option) destroy_loop ::
    "nat \<Rightarrow> nat \<Rightarrow> nat \<Rightarrow> 'a heap \<Rightarrow> ((exn + unit) \<times> 'a heap) option" where
  "destroy_loop r head t h =
     (if head = r then Some (Inr (), h)
      else
        (case get_next t h of
           (Inl e, h1) \<Rightarrow> Some (Inl e, h1)
         | (Inr head', h1) \<Rightarrow>
             (case delete_node t h1 of
                (Inl e, h2) \<Rightarrow> Some (Inl e, h2)
              | (Inr u, h2) \<Rightarrow> destroy_loop r head' head' h2)))"

definition buffers_destroy :: "nat \<Rightarrow> 'a heap \<Rightarrow> ((exn + unit) \<times> 'a heap) option" where
  "buffers_destroy r h =
     (case get_next r h of
        (Inl e, h1) \<Rightarrow> Some (Inl e, h1)
      | (Inr n, h1) \<Rightarrow> destroy_loop r n n h1)"

text \<open>A loop over the iterators from \<open>p\<close> up to \<open>e\<close> that collects the elements.\<close>

partial_function (option) walk ::
    "nat \<Rightarrow> nat \<Rightarrow> 'a list \<Rightarrow> 'a heap \<Rightarrow> ((exn + 'a list) \<times> 'a heap) option" where
  "walk p e acc h =
     (if \<not> it_ne p e then Some (Inr (rev acc), h)
      else
        (case it_deref p h of
           (Inl x, h1) \<Rightarrow> Some (Inl x, h1)
         | (Inr v, h1) \<Rightarrow>
             (case it_incr p h1 of
                (Inl x, h2) \<Rightarrow> Some (Inl x, h2)
              | (Inr q, h2) \<Rightarrow> walk q e (v # acc) h2)))"

text \<open>The same loop with its end given as a const iterator, which picks the mixed operator.\<close>

partial_function (option) walk_const ::
    "nat \<Rightarrow> nat \<Rightarrow> 'a list \<Rightarrow> 'a heap \<Rightarrow> ((exn + 'a list) \<times> 'a heap) option" where
  "walk_const p e acc h =
     (if \<not> mixed_ne p e then Some (Inr (rev acc), h)
      else
        (case it_deref p h of
           (Inl x, h1) \<Rightarrow> Some (Inl x, h1)
         | (Inr v, h1) \<Rightarrow>
             (case it_incr p h1 of
                (Inl x, h2) \<Rightarrow> Some (Inl x, h2)
              | (Inr q, h2) \<Rightarrow> walk_const q e (v # acc) h2)))"

section \<open>Views of the heap\<close>

definition nx :: "'a heap \<Rightarrow> nat \<Rightarrow> nat option" where
  "nx h p = map_option n_next (hp_nodes h p)"

definition pv :: "'a heap \<Rightarrow> nat \<Rightarrow> nat option" where
  "pv h p = map_option n_prev (hp_nodes h p)"

definition el :: "'a heap \<Rightarrow> nat \<Rightarrow> 'a option option" where
  "el h p = map_option n_ele (hp_nodes h p)"

lemmas views = nx_def pv_def el_def

lemma get_next_run [simp]: "nx h p = Some q \<Longrightarrow> get_next p h = (Inr q, h)"
  by (auto simp: get_next_def load_def bindE_def ret_def nx_def)

lemma get_prev_run [simp]: "pv h p = Some q \<Longrightarrow> get_prev p h = (Inr q, h)"
  by (auto simp: get_prev_def load_def bindE_def ret_def pv_def)

lemma set_next_run:
  assumes "el h p = Some x"
  shows "\<exists>h'. set_next p q h = (Inr (), h') \<and> nx h' = (nx h)(p \<mapsto> q) \<and> pv h' = pv h \<and> el h' = el h \<and>
           hp_new h' = hp_new h"
  using assms by (auto simp: set_next_def store_def views fun_eq_iff)

lemma set_prev_run:
  assumes "el h p = Some x"
  shows "\<exists>h'. set_prev p q h = (Inr (), h') \<and> nx h' = nx h \<and> pv h' = (pv h)(p \<mapsto> q) \<and> el h' = el h \<and>
           hp_new h' = hp_new h"
  using assms by (auto simp: set_prev_def store_def views fun_eq_iff)

lemma views_live: "nx h p = Some q \<Longrightarrow> \<exists>x. el h p = Some x" "pv h p = Some q \<Longrightarrow> \<exists>x. el h p = Some x"
  by (auto simp: views)

lemma list_insert_run:
  assumes "pv h q = Some p" and "nx h p = Some q'" and "el h e = Some x" and "e \<noteq> q"
  shows "\<exists>h'. list_insert q e h = (Inr (), h') \<and> nx h' = (nx h)(e \<mapsto> q, p \<mapsto> e) \<and>
           pv h' = (pv h)(e \<mapsto> p, q \<mapsto> e) \<and> el h' = el h \<and> hp_new h' = hp_new h"
proof -
  obtain y z where live: "el h q = Some y" "el h p = Some z" using assms(1,2) views_live by metis
  obtain h1 where 1: "set_next e q h = (Inr (), h1)" "nx h1 = (nx h)(e \<mapsto> q)" "pv h1 = pv h"
    "el h1 = el h" "hp_new h1 = hp_new h" using set_next_run [OF assms(3)] by blast
  have "el h1 e = Some x" using 1(4) assms(3) by simp
  then obtain h2 where 2: "set_prev e p h1 = (Inr (), h2)" "nx h2 = nx h1" "pv h2 = (pv h1)(e \<mapsto> p)"
    "el h2 = el h1" "hp_new h2 = hp_new h1" using set_prev_run by blast
  have "el h2 p = Some z" using 1(4) 2(4) live by simp
  then obtain h3 where 3: "set_next p e h2 = (Inr (), h3)" "nx h3 = (nx h2)(p \<mapsto> e)" "pv h3 = pv h2"
    "el h3 = el h2" "hp_new h3 = hp_new h2" using set_next_run by blast
  have "el h3 q = Some y" using 1(4) 2(4) 3(4) live by simp
  then obtain h4 where 4: "set_prev q e h3 = (Inr (), h4)" "nx h4 = nx h3" "pv h4 = (pv h3)(q \<mapsto> e)"
    "el h4 = el h3" "hp_new h4 = hp_new h3" using set_prev_run by blast
  have "pv h1 q = Some p" "pv h2 q = Some p" using assms(1,4) 1(3) 2(3) by auto
  then have "list_insert q e h = (Inr (), h4)"
    using 1(1) 2(1) 3(1) 4(1) by (simp add: list_insert_def bindE_def)
  then show ?thesis using 1 2 3 4 by simp
qed

lemma list_unlink_run:
  assumes "nx h e = Some n" and "pv h e = Some p" and "pv h n = Some y" and "nx h p = Some z"
    and "n \<noteq> e" and "p \<noteq> e"
  shows "\<exists>h'. list_unlink e h = (Inr (), h') \<and> nx h' = (nx h)(p \<mapsto> n, e \<mapsto> e) \<and>
           pv h' = (pv h)(n \<mapsto> p, e \<mapsto> e) \<and> el h' = el h \<and> hp_new h' = hp_new h"
proof -
  obtain le ln lp where live: "el h e = Some le" "el h n = Some ln" "el h p = Some lp"
    using assms(1,3,4) views_live by metis
  obtain h1 where 1: "set_prev n p h = (Inr (), h1)" "nx h1 = nx h" "pv h1 = (pv h)(n \<mapsto> p)"
    "el h1 = el h" "hp_new h1 = hp_new h" using set_prev_run [OF live(2)] by blast
  have "el h1 p = Some lp" using 1(4) live by simp
  then obtain h2 where 2: "set_next p n h1 = (Inr (), h2)" "nx h2 = (nx h1)(p \<mapsto> n)" "pv h2 = pv h1"
    "el h2 = el h1" "hp_new h2 = hp_new h1" using set_next_run by blast
  have "el h2 e = Some le" using 1(4) 2(4) live by simp
  then obtain h3 where 3: "set_next e e h2 = (Inr (), h3)" "nx h3 = (nx h2)(e \<mapsto> e)" "pv h3 = pv h2"
    "el h3 = el h2" "hp_new h3 = hp_new h2" using set_next_run by blast
  have "el h3 e = Some le" using 1(4) 2(4) 3(4) live by simp
  then obtain h4 where 4: "set_prev e e h3 = (Inr (), h4)" "nx h4 = nx h3" "pv h4 = (pv h3)(e \<mapsto> e)"
    "el h4 = el h3" "hp_new h4 = hp_new h3" using set_prev_run by blast
  have "nx h1 e = Some n" "pv h1 n = Some p" using assms(1) 1(2,3) by auto
  then have "list_unlink e h = (Inr (), h4)"
    using assms(1,2) 1(1) 2(1) 3(1) 4(1) by (simp add: list_unlink_def bindE_def)
  then show ?thesis using 1 2 3 4 by simp
qed

section \<open>Rings\<close>

text \<open>\<open>path h zs\<close>: consecutive addresses of \<open>zs\<close> are linked both ways.\<close>

fun path :: "'a heap \<Rightarrow> nat list \<Rightarrow> bool" where
  "path h [] = True"
| "path h [x] = True"
| "path h (x # y # zs) = (nx h x = Some y \<and> pv h y = Some x \<and> path h (y # zs))"

definition ring :: "'a heap \<Rightarrow> nat \<Rightarrow> nat list \<Rightarrow> bool" where
  "ring h r ps \<longleftrightarrow>
     distinct (r # ps) \<and> path h (r # ps @ [r]) \<and> el h r = Some None \<and>
     (\<forall>p \<in> set ps. \<exists>v. el h p = Some (Some v)) \<and> (\<forall>p. el h p \<noteq> None \<longrightarrow> p < hp_new h)"

definition elements :: "'a heap \<Rightarrow> nat list \<Rightarrow> 'a list" where
  "elements h ps = map (\<lambda>p. the (the (el h p))) ps"

lemma path_append:
  "us \<noteq> [] \<Longrightarrow> vs \<noteq> [] \<Longrightarrow> path h (us @ vs) \<longleftrightarrow>
     path h us \<and> nx h (last us) = Some (hd vs) \<and> pv h (hd vs) = Some (last us) \<and> path h vs"
proof (induction h us rule: path.induct)
  case (2 h x)
  then show ?case by (cases vs) auto
qed auto

lemma path_cong:
  "path h zs \<Longrightarrow> (\<And>x. x \<in> set (butlast zs) \<Longrightarrow> nx h' x = nx h x) \<Longrightarrow>
     (\<And>y. y \<in> set (tl zs) \<Longrightarrow> pv h' y = pv h y) \<Longrightarrow> path h' zs"
proof (induction h zs rule: path.induct)
  case (3 h x y zs)
  have "path h' (y # zs)"
  proof (rule 3(1))
    show "path h (y # zs)" using 3(2) by simp
    show "nx h' a = nx h a" if "a \<in> set (butlast (y # zs))" for a using that 3(3) by simp
    show "pv h' a = pv h a" if "a \<in> set (tl (y # zs))" for a using that 3(4) by (cases zs) auto
  qed
  with 3(2) 3(3) [of x] 3(4) [of y] show ?case by simp
qed simp_all

lemma ringD:
  assumes "ring h r ps"
  shows "distinct (r # ps)" and "path h (r # ps @ [r])" and "el h r = Some None"
    and "p \<in> set ps \<Longrightarrow> \<exists>v. el h p = Some (Some v)" and "el h p \<noteq> None \<Longrightarrow> p < hp_new h"
  using assms unfolding ring_def by blast+

text \<open>The ring cut at a position: before it, the links across it, after it.\<close>

lemma ring_cut:
  assumes "ring h r (xs @ ys)"
  shows "path h (r # xs)" and "path h (ys @ [r])"
    and "nx h (last (r # xs)) = Some (hd (ys @ [r]))" and "pv h (hd (ys @ [r])) = Some (last (r # xs))"
  using ringD(2) [OF assms] path_append [of "r # xs" "ys @ [r]" h] by simp_all

lemma ring_joinI:
  assumes "distinct (r # xs @ ys)" and "path h (r # xs)" and "path h (ys @ [r])"
    and "nx h (last (r # xs)) = Some (hd (ys @ [r]))" and "pv h (hd (ys @ [r])) = Some (last (r # xs))"
    and "el h r = Some None" and "\<forall>p \<in> set (xs @ ys). \<exists>v. el h p = Some (Some v)"
    and "\<forall>p. el h p \<noteq> None \<longrightarrow> p < hp_new h"
  shows "ring h r (xs @ ys)"
  using assms path_append [of "r # xs" "ys @ [r]" h] unfolding ring_def by simp

text \<open>Where the ends of the two parts of a cut ring are not.\<close>

lemma cut_distinct:
  assumes "distinct (r # xs @ ys)"
  shows "last (r # xs) \<notin> set (butlast (r # xs))" and "hd (ys @ [r]) \<notin> set (tl (r # xs))"
    and "last (r # xs) \<notin> set (butlast (ys @ [r]))" and "hd (ys @ [r]) \<notin> set (tl (ys @ [r]))"
proof -
  have "distinct (r # xs)" using assms by simp
  moreover have "butlast (r # xs) @ [last (r # xs)] = r # xs" by (rule append_butlast_last_id) simp
  ultimately have "distinct (butlast (r # xs) @ [last (r # xs)])" by (simp only:)
  then show "last (r # xs) \<notin> set (butlast (r # xs))" by simp
  show "hd (ys @ [r]) \<notin> set (tl (r # xs))" using assms by (cases ys) auto
  have "last (r # xs) \<in> set (r # xs)" by (rule last_in_set) simp
  with assms show "last (r # xs) \<notin> set (butlast (ys @ [r]))" by auto
  show "hd (ys @ [r]) \<notin> set (tl (ys @ [r]))" using assms by (cases ys) auto
qed

lemma cut_outside:
  assumes "e \<notin> set (r # xs @ ys)"
    and "x \<in> set (butlast (r # xs)) \<or> x \<in> set (butlast (ys @ [r])) \<or>
      x \<in> set (tl (r # xs)) \<or> x \<in> set (tl (ys @ [r]))"
  shows "x \<noteq> e"
  using assms by (cases ys) (auto dest: in_set_butlastD split: if_splits)

lemma path_frame:
  assumes "path h zs" and "\<And>x. x \<in> set (butlast zs) \<Longrightarrow> x \<noteq> e \<and> x \<noteq> p"
    and "\<And>y. y \<in> set (tl zs) \<Longrightarrow> y \<noteq> e \<and> y \<noteq> q"
    and "nx h' = (nx h)(e := a, p := b)" and "pv h' = (pv h)(e := c, q := d)"
  shows "path h' zs"
  using assms(2,3) by (intro path_cong [OF assms(1)]) (simp_all add: assms(4,5))

lemma ring_insert:
  assumes rg: "ring h r (xs @ ys)" and e: "el h e = Some (Some v)" "e \<notin> set (r # xs @ ys)"
  shows "\<exists>h'. list_insert (hd (ys @ [r])) e h = (Inr (), h') \<and> ring h' r (xs @ e # ys) \<and>
           pv h' (hd (ys @ [r])) = Some e \<and> el h' = el h \<and> hp_new h' = hp_new h"
proof -
  let ?p = "last (r # xs)" and ?q = "hd (ys @ [r])"
  note c = ring_cut [OF rg] and d = cut_distinct [OF ringD(1) [OF rg]]
  have q: "?q \<in> set (r # xs @ ys)" by (cases ys) auto
  have p: "?p \<in> set (r # xs @ ys)" using last_in_set [of "r # xs"] by auto
  have eq: "e \<noteq> ?q" "e \<noteq> ?p" using e(2) p q by metis+
  obtain h' where run: "list_insert ?q e h = (Inr (), h')"
    and nx: "nx h' = (nx h)(e \<mapsto> ?q, ?p \<mapsto> e)" and pv: "pv h' = (pv h)(e \<mapsto> ?p, ?q \<mapsto> e)"
    and el: "el h' = el h" "hp_new h' = hp_new h"
    using list_insert_run [OF c(4) c(3) e(1) eq(1)] by blast
  have "x \<noteq> e" if "x \<in> set (butlast (r # xs)) \<or> x \<in> set (butlast (ys @ [r])) \<or>
      x \<in> set (tl (r # xs)) \<or> x \<in> set (tl (ys @ [r]))" for x
    using cut_outside [OF _ that] e(2) by simp
  with d have f: "\<And>x. x \<in> set (butlast (r # xs)) \<Longrightarrow> x \<noteq> e \<and> x \<noteq> ?p"
    "\<And>y. y \<in> set (tl (r # xs)) \<Longrightarrow> y \<noteq> e \<and> y \<noteq> ?q"
    "\<And>x. x \<in> set (butlast (ys @ [r])) \<Longrightarrow> x \<noteq> e \<and> x \<noteq> ?p"
    "\<And>y. y \<in> set (tl (ys @ [r])) \<Longrightarrow> y \<noteq> e \<and> y \<noteq> ?q" by metis+
  have us: "path h' (r # xs)" by (rule path_frame [OF c(1) f(1,2) nx pv])
  have vs: "path h' (ys @ [r])" by (rule path_frame [OF c(2) f(3,4) nx pv])
  have "path h' (e # ys @ [r])" using vs nx pv eq by (cases ys) auto
  then have "ring h' r (xs @ e # ys)"
    using e us nx pv eq el ringD [OF rg] by (intro ring_joinI) auto
  then show ?thesis using run nx pv el by auto
qed

lemma el_delete:
  assumes "el h e = Some (Some v)"
  shows "\<exists>h'. delete_node e h = (Inr (), h') \<and> nx h' = (nx h)(e := None) \<and> pv h' = (pv h)(e := None) \<and>
           el h' = (el h)(e := None) \<and> hp_new h' = hp_new h"
  using assms by (auto simp: delete_node_def views fun_eq_iff)

lemma ring_erase:
  assumes rg: "ring h r (xs @ e # ys)"
  shows "\<exists>h'. buffers_erase_node e h = (Inr (), h') \<and> ring h' r (xs @ ys) \<and>
           el h' = (el h)(e := None) \<and> hp_new h' = hp_new h"
proof -
  let ?p = "last (r # xs)" and ?n = "hd (ys @ [r])"
  have rg2: "ring h r ((xs @ [e]) @ ys)" using rg by simp
  note c = ring_cut [OF rg] and c2 = ring_cut [OF rg2]
  have dist: "distinct (r # xs @ ys)" using ringD(1) [OF rg] by auto
  note d = cut_distinct [OF dist]
  have notin: "e \<notin> set (r # xs @ ys)" using ringD(1) [OF rg] by auto
  have n: "?n \<in> set (r # xs @ ys)" by (cases ys) auto
  have p: "?p \<in> set (r # xs @ ys)" using last_in_set [of "r # xs"] by auto
  have ne: "?n \<noteq> e" "?p \<noteq> e" using notin n p by metis+
  have links: "nx h e = Some ?n" "pv h e = Some ?p" "pv h ?n = Some e" "nx h ?p = Some e"
    using c(3,4) c2(3,4) by simp_all
  obtain h1 where un: "list_unlink e h = (Inr (), h1)"
    and nx: "nx h1 = (nx h)(?p \<mapsto> ?n, e \<mapsto> e)" and pv: "pv h1 = (pv h)(?n \<mapsto> ?p, e \<mapsto> e)"
    and el: "el h1 = el h" "hp_new h1 = hp_new h"
    using list_unlink_run [OF links ne] by blast
  obtain v where v: "el h1 e = Some (Some v)" using ringD(4) [OF rg, of e] el by auto
  obtain h2 where del: "delete_node e h1 = (Inr (), h2)"
    and nx2: "nx h2 = (nx h1)(e := None)" and pv2: "pv h2 = (pv h1)(e := None)"
    and el2: "el h2 = (el h1)(e := None)" "hp_new h2 = hp_new h1"
    using el_delete [OF v] by blast
  have nx3: "nx h2 = (nx h)(e := None, ?p := Some ?n)" and pv3: "pv h2 = (pv h)(e := None, ?n := Some ?p)"
    using nx nx2 pv pv2 ne by (auto simp: fun_eq_iff)
  have "x \<noteq> e" if "x \<in> set (butlast (r # xs)) \<or> x \<in> set (butlast (ys @ [r])) \<or>
      x \<in> set (tl (r # xs)) \<or> x \<in> set (tl (ys @ [r]))" for x
    using cut_outside [OF _ that] notin by simp
  with d have f: "\<And>x. x \<in> set (butlast (r # xs)) \<Longrightarrow> x \<noteq> e \<and> x \<noteq> ?p"
    "\<And>y. y \<in> set (tl (r # xs)) \<Longrightarrow> y \<noteq> e \<and> y \<noteq> ?n"
    "\<And>x. x \<in> set (butlast (ys @ [r])) \<Longrightarrow> x \<noteq> e \<and> x \<noteq> ?p"
    "\<And>y. y \<in> set (tl (ys @ [r])) \<Longrightarrow> y \<noteq> e \<and> y \<noteq> ?n" by metis+
  have us: "path h2 (r # xs)" by (rule path_frame [OF c(1) f(1,2) nx3 pv3])
  have vs: "path h2 (ys @ [r])" by (rule path_frame [OF c2(2) f(3,4) nx3 pv3])
  have "ring h2 r (xs @ ys)"
  proof (rule ring_joinI [OF dist us vs])
    show "nx h2 ?p = Some ?n" "pv h2 ?n = Some ?p" using nx3 pv3 by simp_all
    show "el h2 r = Some None" using el2(1) el ringD(3) [OF rg] notin by auto
    show "\<forall>p \<in> set (xs @ ys). \<exists>v. el h2 p = Some (Some v)"
    proof
      fix p assume "p \<in> set (xs @ ys)"
      with ringD(4) [OF rg, of p] el2(1) el notin show "\<exists>v. el h2 p = Some (Some v)" by auto
    qed
    show "\<forall>p. el h2 p \<noteq> None \<longrightarrow> p < hp_new h2"
      using ringD(5) [OF rg] el el2 by auto
  qed
  then show ?thesis
    using un del el el2 by (auto simp: buffers_erase_node_def bindE_def)
qed

lemma new_node_run:
  assumes "ring h r ps"
  shows "\<exists>h'. new_Node v h = (Inr (hp_new h), h') \<and> ring h' r ps \<and> el h' = (el h)(hp_new h \<mapsto> Some v) \<and>
           hp_new h \<notin> set (r # ps) \<and> elements h' ps = elements h ps"
proof -
  let ?p = "hp_new h"
  define h' where "h' = h\<lparr>hp_nodes := (hp_nodes h)(?p \<mapsto> \<lparr>n_next = ?p, n_prev = ?p, n_ele = Some v\<rparr>),
      hp_new := Suc ?p\<rparr>"
  have run: "new_Node v h = (Inr ?p, h')" by (simp add: new_Node_def new_list_base_def h'_def Let_def)
  have v: "nx h' = (nx h)(?p \<mapsto> ?p)" "pv h' = (pv h)(?p \<mapsto> ?p)" "el h' = (el h)(?p \<mapsto> Some v)"
    by (auto simp: h'_def views)
  have live: "x < ?p" if "x \<in> set (r # ps)" for x
    using ringD(3,4,5) [OF assms] that by (metis option.distinct(1) set_ConsD)
  have fresh: "?p \<notin> set (r # ps)" using live by blast
  have "path h' (r # ps @ [r])"
  proof (rule path_frame [OF ringD(2) [OF assms], where e = ?p and p = ?p and q = ?p])
    show "nx h' = (nx h)(?p := Some ?p, ?p := Some ?p)" "pv h' = (pv h)(?p := Some ?p, ?p := Some ?p)"
      using v by simp_all
  qed (use fresh in \<open>auto dest!: in_set_butlastD\<close>)
  moreover have "\<forall>p. el h' p \<noteq> None \<longrightarrow> p < hp_new h'"
    using ringD(5) [OF assms] v(3) by (auto simp: h'_def less_Suc_eq)
  ultimately have "ring h' r ps"
    using assms v(3) fresh unfolding ring_def by auto
  moreover have "elements h' ps = elements h ps"
    using fresh v(3) by (auto simp: elements_def)
  ultimately show ?thesis using run v fresh by blast
qed

section \<open>The container as a sequence\<close>

text \<open>Calls of a client: a position is reached by advancing \<open>begin()\<close>.\<close>

fun advance :: "nat \<Rightarrow> nat \<Rightarrow> ('a, nat) heap_action" where
  "advance r 0 = buffers_begin r"
| "advance r (Suc k) = bindE (advance r k) it_incr"

datatype 'a seq_op =
    Push_back 'a
  | Push_front 'a
  | Pop_back
  | Pop_front
  | Insert_at nat 'a
  | Erase_at nat

fun buffers_call :: "nat \<Rightarrow> 'a seq_op \<Rightarrow> ('a, unit) heap_action" where
  "buffers_call r (Push_back v) = push_back r v"
| "buffers_call r (Push_front v) = push_front r v"
| "buffers_call r Pop_back = pop_back r"
| "buffers_call r Pop_front = pop_front r"
| "buffers_call r (Insert_at k v) =
     bindE (advance r k) (\<lambda>pos. bindE (buffers_insert pos v) (\<lambda>_. ret ()))"
| "buffers_call r (Erase_at k) =
     bindE (advance r k) (\<lambda>pos. bindE (buffers_erase pos) (\<lambda>_. ret ()))"

fun seq_spec :: "'a seq_op \<Rightarrow> 'a list \<Rightarrow> 'a list" where
  "seq_spec (Push_back v) vs = vs @ [v]"
| "seq_spec (Push_front v) vs = v # vs"
| "seq_spec Pop_back vs = butlast vs"
| "seq_spec Pop_front vs = tl vs"
| "seq_spec (Insert_at k v) vs = take k vs @ v # drop k vs"
| "seq_spec (Erase_at k) vs = take k vs @ drop (Suc k) vs"

fun seq_ok :: "'a seq_op \<Rightarrow> 'a list \<Rightarrow> bool" where
  "seq_ok (Insert_at k v) vs = (k \<le> length vs)"
| "seq_ok (Erase_at k) vs = (k < length vs)"
| "seq_ok _ vs = True"

fun seq_run :: "'a seq_op list \<Rightarrow> 'a list \<Rightarrow> 'a list option" where
  "seq_run [] vs = Some vs"
| "seq_run (x # xs) vs = (if seq_ok x vs then seq_run xs (seq_spec x vs) else None)"

fun calls :: "('c \<Rightarrow> 'a seq_op \<Rightarrow> ('s, unit) action) \<Rightarrow> 'c \<Rightarrow> 'a seq_op list \<Rightarrow> ('s, unit) action" where
  "calls call c [] = ret ()"
| "calls call c (x # xs) = bindE (call c x) (\<lambda>_. calls call c xs)"

text \<open>What a client of a sequence container relies on.\<close>

locale sequence_container =
  fixes call :: "'c \<Rightarrow> 'a seq_op \<Rightarrow> ('s, unit) action"
    and rep :: "'s \<Rightarrow> 'c \<Rightarrow> 'a list \<Rightarrow> bool"
  assumes call_rep: "rep s c vs \<Longrightarrow> seq_ok x vs \<Longrightarrow>
      \<exists>s'. call c x s = (Inr (), s') \<and> rep s' c (seq_spec x vs)"
begin

lemma run_rep:
  assumes "rep s c vs" and "seq_run xs vs = Some ws"
  shows "\<exists>s'. calls call c xs s = (Inr (), s') \<and> rep s' c ws"
  using assms
proof (induction xs arbitrary: s vs)
  case Nil
  then show ?case by (simp add: ret_def)
next
  case (Cons x xs)
  then have ok: "seq_ok x vs" and run: "seq_run xs (seq_spec x vs) = Some ws"
    by (simp_all split: if_splits)
  from call_rep [OF Cons.prems(1) ok] obtain s1 where s1: "call c x s = (Inr (), s1)"
    "rep s1 c (seq_spec x vs)" by blast
  from Cons.IH [OF s1(2) run] s1(1) show ?case by (simp add: bindE_def)
qed

text \<open>As a queue: what is pushed at the back leaves at the front in order.\<close>

lemma fifo:
  assumes "rep s c []" and "k \<le> length vs"
  shows "\<exists>s'. calls call c (map Push_back vs @ replicate k Pop_front) s = (Inr (), s') \<and>
           rep s' c (drop k vs)"
proof (rule run_rep [OF assms(1)])
  have push: "seq_run (map Push_back vs @ ops) ws = seq_run ops (ws @ vs)" for ops ws
    by (induction vs arbitrary: ws) auto
  have pop: "seq_run (replicate k Pop_front) ws = Some (drop k ws)" for ws :: "'a list"
    by (induction k arbitrary: ws) (auto simp: drop_Suc)
  show "seq_run (map Push_back vs @ replicate k Pop_front) [] = Some (drop k vs)"
    by (simp add: push pop)
qed

end

definition buffers_rep :: "'a heap \<Rightarrow> nat \<Rightarrow> 'a list \<Rightarrow> bool" where
  "buffers_rep h r vs \<longleftrightarrow> (\<exists>ps. ring h r ps \<and> elements h ps = vs)"

lemma elements_append [simp]: "elements h (xs @ ys) = elements h xs @ elements h ys"
  by (simp add: elements_def)

lemma elements_Cons [simp]: "elements h (p # ps) = the (the (el h p)) # elements h ps"
  by (simp add: elements_def)

lemma elements_Nil [simp]: "elements h [] = []"
  by (simp add: elements_def)

lemma elements_length [simp]: "length (elements h ps) = length ps"
  by (simp add: elements_def)

lemma elements_cong: "\<forall>p \<in> set ps. el h' p = el h p \<Longrightarrow> elements h' ps = elements h ps"
  by (simp add: elements_def)

lemma elements_butlast: "elements h (butlast ps) = butlast (elements h ps)"
  by (simp add: elements_def map_butlast)

lemma elements_tl: "elements h (tl ps) = tl (elements h ps)"
  by (simp add: elements_def map_tl)

lemma path_nth:
  "path h zs \<Longrightarrow> Suc i < length zs \<Longrightarrow> nx h (zs ! i) = Some (zs ! Suc i) \<and> pv h (zs ! Suc i) = Some (zs ! i)"
proof (induction h zs arbitrary: i rule: path.induct)
  case (3 h x y zs)
  then show ?case by (cases i) auto
qed auto

lemma ring_links:
  assumes "ring h r ps"
  shows "\<forall>i \<le> length ps. nx h ((r # ps) ! i) = Some ((ps @ [r]) ! i) \<and> pv h ((ps @ [r]) ! i) = Some ((r # ps) ! i)"
proof (intro allI impI)
  fix i
  assume i: "i \<le> length ps"
  have "path h (r # ps @ [r])" using assms by (simp add: ring_def)
  from path_nth [OF this, of i] i
  show "nx h ((r # ps) ! i) = Some ((ps @ [r]) ! i) \<and> pv h ((ps @ [r]) ! i) = Some ((r # ps) ! i)"
    by (simp add: nth_append nth_Cons split: nat.splits if_splits)
qed

lemma advance_run:
  assumes rg: "ring h r ps" and "k \<le> length ps"
  shows "advance r k h = (Inr ((ps @ [r]) ! k), h)"
  using assms(2)
proof (induction k)
  case 0
  from path_nth [OF ringD(2) [OF rg], of 0] show ?case by (simp add: buffers_begin_def)
next
  case (Suc k)
  from path_nth [OF ringD(2) [OF rg], of "Suc k"] Suc.prems
  have "nx h ((ps @ [r]) ! k) = Some ((ps @ [r]) ! Suc k)" by simp
  with Suc show ?case by (simp add: bindE_def it_incr_def)
qed

text \<open>A new node put in before a position of a ring.\<close>

lemma put_in:
  assumes rg: "ring h r (xs @ ys)"
  shows "\<exists>h0 e h'. new_Node v h = (Inr e, h0) \<and> nx h0 r = Some (hd (xs @ ys @ [r])) \<and>
           list_insert (hd (ys @ [r])) e h0 = (Inr (), h') \<and> pv h' (hd (ys @ [r])) = Some e \<and>
           ring h' r (xs @ e # ys) \<and> elements h' (xs @ e # ys) = elements h xs @ v # elements h ys"
proof -
  obtain h0 where new: "new_Node v h = (Inr (hp_new h), h0)" and rg0: "ring h0 r (xs @ ys)"
    and el0: "el h0 = (el h)(hp_new h \<mapsto> Some v)" and fresh: "hp_new h \<notin> set (r # xs @ ys)"
    using new_node_run [OF rg, of v] by blast
  have "el h0 (hp_new h) = Some (Some v)" using el0 by simp
  from ring_insert [OF rg0 this fresh] obtain h' where ins:
    "list_insert (hd (ys @ [r])) (hp_new h) h0 = (Inr (), h')" "ring h' r (xs @ hp_new h # ys)"
    "pv h' (hd (ys @ [r])) = Some (hp_new h)" "el h' = el h0" by blast
  have "elements h' (xs @ hp_new h # ys) = elements h xs @ v # elements h ys"
    using ins(4) el0 fresh by (auto simp: elements_def)
  moreover have "nx h0 r = Some (hd (xs @ ys @ [r]))"
    using path_nth [OF ringD(2) [OF rg0], of 0] by (simp add: hd_conv_nth)
  ultimately show ?thesis using new ins by blast
qed

text \<open>A node taken out of a ring.\<close>

lemma take_out:
  assumes rg: "ring h r (xs @ e # ys)"
  shows "\<exists>h'. buffers_erase_node e h = (Inr (), h') \<and> ring h' r (xs @ ys) \<and>
           elements h' (xs @ ys) = elements h xs @ elements h ys"
proof -
  obtain h' where h': "buffers_erase_node e h = (Inr (), h')" "ring h' r (xs @ ys)"
    "el h' = (el h)(e := None)" using ring_erase [OF rg] by blast
  moreover have "elements h' (xs @ ys) = elements h (xs @ ys)"
    using h'(3) ringD(1) [OF rg] by (intro elements_cong) auto
  ultimately show ?thesis by auto
qed

lemma hd_drop_snoc: "k \<le> length ps \<Longrightarrow> hd (drop k ps @ [r]) = (ps @ [r]) ! k"
  by (cases "k = length ps") (auto simp: hd_append hd_drop_conv_nth nth_append)

lemma buffers_insert_run:
  assumes rg: "ring h r ps" and k: "k \<le> length ps"
  shows "\<exists>e h'. buffers_insert ((ps @ [r]) ! k) v h = (Inr e, h') \<and> ring h' r (take k ps @ e # drop k ps) \<and>
           elements h' (take k ps @ e # drop k ps) =
           take k (elements h ps) @ v # drop k (elements h ps)"
proof -
  have "ring h r (take k ps @ drop k ps)" using rg by simp
  from put_in [OF this, of v] obtain h0 e h' where
    "new_Node v h = (Inr e, h0)" "list_insert ((ps @ [r]) ! k) e h0 = (Inr (), h')"
    "pv h' ((ps @ [r]) ! k) = Some e" "ring h' r (take k ps @ e # drop k ps)"
    "elements h' (take k ps @ e # drop k ps) = elements h (take k ps) @ v # elements h (drop k ps)"
    unfolding hd_drop_snoc [OF k] by blast
  then show ?thesis
    by (auto simp: buffers_insert_def bindE_def elements_def take_map drop_map)
qed

lemma buffers_erase_run:
  assumes rg: "ring h r ps" and k: "k < length ps"
  shows "\<exists>h'. buffers_erase ((ps @ [r]) ! k) h = (Inr ((ps @ [r]) ! Suc k), h') \<and>
           ring h' r (take k ps @ drop (Suc k) ps) \<and>
           elements h' (take k ps @ drop (Suc k) ps) =
           take k (elements h ps) @ drop (Suc k) (elements h ps)"
proof -
  have "ring h r (take k ps @ ps ! k # drop (Suc k) ps)" using rg k by (simp add: id_take_nth_drop [symmetric])
  from take_out [OF this] obtain h' where
    "buffers_erase_node (ps ! k) h = (Inr (), h')" "ring h' r (take k ps @ drop (Suc k) ps)"
    "elements h' (take k ps @ drop (Suc k) ps) = elements h (take k ps) @ elements h (drop (Suc k) ps)"
    by blast
  moreover have "nx h ((ps @ [r]) ! k) = Some ((ps @ [r]) ! Suc k)"
    using path_nth [OF ringD(2) [OF rg], of "Suc k"] k by simp
  ultimately show ?thesis
    using k by (auto simp: buffers_erase_def it_incr_def bindE_def ret_def nth_append elements_def
        take_map drop_map)
qed

lemma root_prev: "ring h r ps \<Longrightarrow> pv h r = Some (last (r # ps))"
  using ring_cut(4) [of h r ps "[]"] by simp

lemma root_next: "ring h r ps \<Longrightarrow> nx h r = Some (hd (ps @ [r]))"
  using ring_cut(3) [of h r "[]" ps] by simp

lemma push_back_rep: "ring h r ps \<Longrightarrow> \<exists>h'. buffers_call r (Push_back v) h = (Inr (), h') \<and> buffers_rep h' r (elements h ps @ [v])"
  using put_in [of h r ps "[]" v] by (fastforce simp: push_back_def bindE_def buffers_rep_def)

lemma push_front_rep: "ring h r ps \<Longrightarrow> \<exists>h'. buffers_call r (Push_front v) h = (Inr (), h') \<and> buffers_rep h' r (v # elements h ps)"
  using put_in [of h r "[]" ps v] by (fastforce simp: push_front_def buffers_begin_def bindE_def buffers_rep_def)

lemma pop_back_rep:
  assumes rg: "ring h r ps"
  shows "\<exists>h'. buffers_call r Pop_back h = (Inr (), h') \<and> buffers_rep h' r (seq_spec Pop_back (elements h ps))"
proof (cases ps rule: rev_cases)
  case Nil
  with rg root_prev [OF rg] show ?thesis
    by (force simp: pop_back_def bindE_def ret_def buffers_rep_def)
next
  case (snoc qs e)
  have "e \<noteq> r" using ringD(1) [OF rg] snoc by auto
  with take_out [of h r qs e "[]"] rg snoc root_prev [OF rg] show ?thesis
    by (fastforce simp: pop_back_def bindE_def buffers_rep_def)
qed

lemma pop_front_rep:
  assumes rg: "ring h r ps"
  shows "\<exists>h'. buffers_call r Pop_front h = (Inr (), h') \<and> buffers_rep h' r (seq_spec Pop_front (elements h ps))"
proof (cases ps)
  case Nil
  with rg root_next [OF rg] show ?thesis
    by (force simp: pop_front_def bindE_def ret_def buffers_rep_def)
next
  case (Cons e qs)
  have "e \<noteq> r" using ringD(1) [OF rg] Cons by auto
  with take_out [of h r "[]" e qs] rg Cons root_next [OF rg] show ?thesis
    by (fastforce simp: pop_front_def bindE_def buffers_rep_def)
qed

lemma insert_at_rep:
  assumes rg: "ring h r ps" and k: "k \<le> length ps"
  shows "\<exists>h'. buffers_call r (Insert_at k v) h = (Inr (), h') \<and>
           buffers_rep h' r (take k (elements h ps) @ v # drop k (elements h ps))"
proof -
  from buffers_insert_run [OF rg k, of v] obtain e h' where
    ins: "buffers_insert ((ps @ [r]) ! k) v h = (Inr e, h')" "ring h' r (take k ps @ e # drop k ps)"
    "elements h' (take k ps @ e # drop k ps) = take k (elements h ps) @ v # drop k (elements h ps)" by blast
  then have "buffers_rep h' r (take k (elements h ps) @ v # drop k (elements h ps))"
    unfolding buffers_rep_def by blast
  with ins(1) advance_run [OF rg k] show ?thesis by (simp add: bindE_def ret_def)
qed

lemma erase_at_rep:
  assumes rg: "ring h r ps" and k: "k < length ps"
  shows "\<exists>h'. buffers_call r (Erase_at k) h = (Inr (), h') \<and>
           buffers_rep h' r (take k (elements h ps) @ drop (Suc k) (elements h ps))"
proof -
  from buffers_erase_run [OF rg k] obtain h' where
    er: "buffers_erase ((ps @ [r]) ! k) h = (Inr ((ps @ [r]) ! Suc k), h')"
    "ring h' r (take k ps @ drop (Suc k) ps)"
    "elements h' (take k ps @ drop (Suc k) ps) = take k (elements h ps) @ drop (Suc k) (elements h ps)" by blast
  then have "buffers_rep h' r (take k (elements h ps) @ drop (Suc k) (elements h ps))"
    unfolding buffers_rep_def by blast
  with er(1) advance_run [OF rg, of k] k show ?thesis by (simp add: bindE_def ret_def)
qed

lemma buffers_call_rep:
  assumes "buffers_rep h r vs" and ok: "seq_ok x vs"
  shows "\<exists>h'. buffers_call r x h = (Inr (), h') \<and> buffers_rep h' r (seq_spec x vs)"
proof -
  from assms(1) obtain ps where rg: "ring h r ps" and vs: "elements h ps = vs"
    unfolding buffers_rep_def by blast
  note ops = push_back_rep [OF rg] push_front_rep [OF rg] pop_back_rep [OF rg] pop_front_rep [OF rg]
    insert_at_rep [OF rg] erase_at_rep [OF rg]
  show ?thesis
  proof (cases x)
    case (Insert_at k v)
    with ok vs have "k \<le> length ps" by auto
    with ops(5) vs Insert_at show ?thesis by simp
  next
    case (Erase_at k)
    with ok vs have "k < length ps" by auto
    with ops(6) vs Erase_at show ?thesis by simp
  qed (use ops(1-4) vs in simp_all)
qed

interpretation buf: sequence_container buffers_call buffers_rep
  by unfold_locales (rule buffers_call_rep)

section \<open>New containers, iteration, destruction\<close>

lemma buffers_new_rep:
  assumes "\<forall>p. el h p \<noteq> None \<longrightarrow> p < hp_new h"
  shows "\<exists>r h'. buffers_new h = (Inr r, h') \<and> buffers_rep h' r []"
proof -
  let ?r = "hp_new h"
  let ?h = "h\<lparr>hp_nodes := (hp_nodes h)(?r \<mapsto> \<lparr>n_next = ?r, n_prev = ?r, n_ele = None\<rparr>), hp_new := Suc ?r\<rparr>"
  have "buffers_new h = (Inr ?r, ?h)"
    by (simp add: buffers_new_def new_list_base_def bindE_def set_next_def set_prev_def store_def
        ret_def Let_def)
  moreover have "ring ?h ?r []"
    using assms by (auto simp: ring_def views less_Suc_eq)
  ultimately show ?thesis unfolding buffers_rep_def by fastforce
qed

lemma walk_suffix:
  assumes rg: "ring h r (xs @ ys)"
  shows "walk (hd (ys @ [r])) r acc h = Some (Inr (rev acc @ elements h ys), h)"
  using rg
proof (induction ys arbitrary: xs acc)
  case Nil
  show ?case by (subst walk.simps) (simp add: it_ne_def it_eq_def)
next
  case (Cons y ys)
  have "y \<noteq> r" using ringD(1) [OF Cons.prems] by auto
  moreover obtain v where v: "el h y = Some (Some v)" using ringD(4) [OF Cons.prems, of y] by auto
  then have "it_deref y h = (Inr v, h)"
    by (auto simp: it_deref_def load_def bindE_def ret_def el_def split: option.splits)
  moreover have "nx h y = Some (hd (ys @ [r]))"
    using ring_cut(3) [of h r "xs @ [y]" ys] Cons.prems by simp
  then have "it_incr y h = (Inr (hd (ys @ [r])), h)" by (simp add: it_incr_def)
  ultimately have "walk y r acc h = walk (hd (ys @ [r])) r (v # acc) h"
    by (subst walk.simps) (simp add: it_ne_def it_eq_def)
  with Cons.IH [of "xs @ [y]" "v # acc"] Cons.prems v show ?case by simp
qed

text \<open>The destructor's loop on the rest of a ring frees its nodes and nothing else.\<close>

lemma destroy_rest:
  assumes "distinct (r # ys)" and "path h (ys @ [r])" and "\<forall>y \<in> set ys. \<exists>v. el h y = Some (Some v)"
  shows "\<exists>h'. destroy_loop r (hd (ys @ [r])) (hd (ys @ [r])) h = Some (Inr (), h') \<and>
           el h' = (\<lambda>p. if p \<in> set ys then None else el h p)"
  using assms
proof (induction ys arbitrary: h)
  case Nil
  then show ?case by (subst destroy_loop.simps) simp
next
  case (Cons y ys)
  have yr: "y \<noteq> r" "y \<notin> set ys" using Cons.prems(1) by auto
  have link: "nx h y = Some (hd (ys @ [r]))" and rest: "path h (ys @ [r])"
    using Cons.prems(2) by (cases ys; simp)+
  obtain v where "el h y = Some (Some v)" using Cons.prems(3) by auto
  from el_delete [OF this] obtain h1 where h1: "delete_node y h = (Inr (), h1)"
    "nx h1 = (nx h)(y := None)" "pv h1 = (pv h)(y := None)" "el h1 = (el h)(y := None)" by blast
  have "path h1 (ys @ [r])"
  proof (rule path_frame [OF rest, where e = y and p = y and q = y])
    show "nx h1 = (nx h)(y := None, y := None)" "pv h1 = (pv h)(y := None, y := None)"
      using h1 by simp_all
  next
    fix x assume "x \<in> set (butlast (ys @ [r]))"
    with yr show "x \<noteq> y \<and> x \<noteq> y" by auto
  next
    fix x assume "x \<in> set (tl (ys @ [r]))"
    with yr show "x \<noteq> y \<and> x \<noteq> y" by (cases ys) auto
  qed
  moreover have "\<forall>z \<in> set ys. \<exists>v. el h1 z = Some (Some v)" using Cons.prems(3) yr h1(4) by auto
  ultimately obtain h' where h': "destroy_loop r (hd (ys @ [r])) (hd (ys @ [r])) h1 = Some (Inr (), h')"
    "el h' = (\<lambda>p. if p \<in> set ys then None else el h1 p)"
    using Cons.IH [of h1] Cons.prems(1) by auto
  have "destroy_loop r y y h = destroy_loop r (hd (ys @ [r])) (hd (ys @ [r])) h1"
    using yr(1) link h1(1) by (subst destroy_loop.simps) simp
  then show ?case using h' h1(4) by (auto simp: fun_eq_iff)
qed

section \<open>The moved container\<close>

text \<open>What the move constructor leaves of a container that is not empty.\<close>

lemma move_run:
  assumes rg: "ring h r ps" and ne: "ps \<noteq> []"
  shows "\<exists>h'. buffers_move r h = (Inr (hp_new h), h') \<and>
           nx h' = (nx h)(hp_new h \<mapsto> hd ps, r \<mapsto> r) \<and> pv h' = (pv h)(hp_new h \<mapsto> last ps, r \<mapsto> r) \<and>
           el h' = (el h)(hp_new h \<mapsto> None)"
proof -
  let ?s = "hp_new h"
  obtain m where m: "hp_nodes h r = Some m" "n_ele m = None"
    using ringD(3) [OF rg] by (auto simp: el_def)
  have fresh: "?s \<noteq> r" using ringD(3,5) [OF rg] by (metis less_irrefl option.distinct(1))
  have nx: "n_next m = hd ps" using root_next [OF rg] m(1) ne by (simp add: nx_def)
  have pv: "n_prev m = last ps" using root_prev [OF rg] m(1) ne by (simp add: pv_def)
  have nr: "hd ps \<noteq> r" "last ps \<noteq> r" using ringD(1) [OF rg] ne by auto
  define h' where "h' = h\<lparr>hp_nodes := (hp_nodes h)(?s \<mapsto> \<lparr>n_next = hd ps, n_prev = last ps, n_ele = None\<rparr>,
      r \<mapsto> \<lparr>n_next = r, n_prev = r, n_ele = None\<rparr>), hp_new := Suc ?s\<rparr>"
  have me: "m\<lparr>n_next := a, n_prev := b\<rparr> = \<lparr>n_next = a, n_prev = b, n_ele = None\<rparr>" for a b
    using m(2) by (cases m) simp
  have "buffers_move r h = (Inr ?s, h')"
    using fresh m nx pv nr
    by (simp add: buffers_move_def new_list_base_def bindE_def set_next_def set_prev_def store_def
        get_next_def get_prev_def load_def ret_def Let_def h'_def fun_upd_twist me)
  moreover have "nx h' = (nx h)(?s \<mapsto> hd ps, r \<mapsto> r)" "pv h' = (pv h)(?s \<mapsto> last ps, r \<mapsto> r)"
    "el h' = (el h)(?s \<mapsto> None)"
    using fresh ringD(3) [OF rg] by (auto simp: h'_def views fun_eq_iff)
  ultimately show ?thesis by blast
qed

lemma move_empty:
  assumes rg: "ring h r []"
  shows "\<exists>h'. buffers_move r h = (Inr (hp_new h), h') \<and> ring h' (hp_new h) [] \<and> ring h' r []"
proof -
  let ?s = "hp_new h"
  obtain m where m: "hp_nodes h r = Some m" "n_ele m = None"
    using ringD(3) [OF rg] by (auto simp: el_def)
  have fresh: "?s \<noteq> r" using ringD(3,5) [OF rg] by (metis less_irrefl option.distinct(1))
  have nx: "n_next m = r" "n_prev m = r"
    using root_next [OF rg] root_prev [OF rg] m(1) by (simp_all add: nx_def pv_def)
  define h' where "h' = h\<lparr>hp_nodes := (hp_nodes h)(?s \<mapsto> \<lparr>n_next = ?s, n_prev = ?s, n_ele = None\<rparr>,
      r \<mapsto> m), hp_new := Suc ?s\<rparr>"
  have me: "m\<lparr>n_next := r, n_prev := r\<rparr> = m" using nx by (cases m) simp
  have "buffers_move r h = (Inr ?s, h')"
    using fresh m nx
    by (simp add: buffers_move_def new_list_base_def bindE_def set_next_def set_prev_def store_def
        get_next_def get_prev_def load_def ret_def Let_def h'_def fun_upd_twist me)
  moreover have "ring h' ?s []" "ring h' r []"
    using fresh m nx ringD(5) [OF rg] by (auto simp: ring_def h'_def views less_Suc_eq)
  ultimately show ?thesis by blast
qed

text \<open>The two loops on a list that leads to a root other than the one they were given.\<close>

lemma deref_root: "el h q = Some None \<Longrightarrow> it_deref q h = (Inl (Undefined ''element of a root''), h)"
  by (auto simp: it_deref_def load_def bindE_def throw_def el_def)

lemma deref_node: "el h q = Some (Some v) \<Longrightarrow> it_deref q h = (Inr v, h)"
  by (auto simp: it_deref_def load_def bindE_def ret_def el_def)

fun forward :: "'a heap \<Rightarrow> nat list \<Rightarrow> bool" where
  "forward h [] = True"
| "forward h [x] = True"
| "forward h (x # y # zs) = (nx h x = Some y \<and> forward h (y # zs))"

lemma forward_path: "path h zs \<Longrightarrow> forward h zs"
  by (induction h zs rule: path.induct) auto

lemma forward_snoc: "zs \<noteq> [] \<Longrightarrow> forward h (zs @ [q]) \<longleftrightarrow> forward h zs \<and> nx h (last zs) = Some q"
  by (induction h zs rule: forward.induct) auto

lemma forward_Cons: "forward h (y # ys @ [q]) \<longleftrightarrow> nx h y = Some (hd (ys @ [q])) \<and> forward h (ys @ [q])"
  by (cases ys) auto

lemma forward_cong:
  "forward h zs \<Longrightarrow> (\<And>x. x \<in> set (butlast zs) \<Longrightarrow> nx h' x = nx h x) \<Longrightarrow> forward h' zs"
  by (induction h zs rule: forward.induct) auto

lemma walk_to_root:
  assumes "forward h (ys @ [q])" and "s \<notin> set (ys @ [q])" and "el h q = Some None"
    and "\<forall>y \<in> set ys. \<exists>v. el h y = Some (Some v)"
  shows "walk (hd (ys @ [q])) s acc h = Some (Inl (Undefined ''element of a root''), h)"
  using assms
proof (induction ys arbitrary: acc)
  case Nil
  then show ?case by (subst walk.simps) (simp add: it_ne_def it_eq_def deref_root)
next
  case (Cons y ys)
  then have link: "nx h y = Some (hd (ys @ [q]))" and rest: "forward h (ys @ [q])"
    by (simp_all add: forward_Cons)
  obtain v where v: "el h y = Some (Some v)" using Cons.prems(4) by auto
  have "walk y s acc h = walk (hd (ys @ [q])) s (v # acc) h"
    using Cons.prems(2) deref_node [OF v] link
    by (subst walk.simps) (simp add: it_ne_def it_eq_def it_incr_def)
  with Cons.IH [OF rest] Cons.prems show ?case by simp
qed

lemma destroy_to_root:
  assumes "forward h (ys @ [q])" and "distinct (q # ys)" and "s \<notin> set (ys @ [q])" and "el h q = Some None"
    and "\<forall>y \<in> set ys. \<exists>v. el h y = Some (Some v)"
  shows "\<exists>h'. destroy_loop s (hd (ys @ [q])) (hd (ys @ [q])) h = Some (Inl (Undefined ''delete of a root''), h')"
  using assms
proof (induction ys arbitrary: h)
  case Nil
  then obtain n m where "nx h q = Some n" "hp_nodes h q = Some m" "n_ele m = None"
    by (auto simp: views)
  with Nil show ?case by (subst destroy_loop.simps) (simp add: delete_node_def)
next
  case (Cons y ys)
  have yq: "y \<noteq> q" "y \<notin> set ys" using Cons.prems(2) by auto
  have link: "nx h y = Some (hd (ys @ [q]))" and rest: "forward h (ys @ [q])"
    using Cons.prems(1) by (simp_all add: forward_Cons)
  obtain v where "el h y = Some (Some v)" using Cons.prems(5) by auto
  from el_delete [OF this] obtain h1 where h1: "delete_node y h = (Inr (), h1)"
    "nx h1 = (nx h)(y := None)" "el h1 = (el h)(y := None)" by blast
  have "forward h1 (ys @ [q])" using yq h1(2) by (intro forward_cong [OF rest]) auto
  moreover have "\<forall>z \<in> set ys. \<exists>v. el h1 z = Some (Some v)" using Cons.prems(5) yq h1(3) by auto
  ultimately obtain h' where
    "destroy_loop s (hd (ys @ [q])) (hd (ys @ [q])) h1 = Some (Inl (Undefined ''delete of a root''), h')"
    using Cons.IH [of h1] Cons.prems(2-4) h1(3) yq(1) by auto
  moreover have "destroy_loop s y y h = destroy_loop s (hd (ys @ [q])) (hd (ys @ [q])) h1"
    using Cons.prems(3) link h1(1) by (subst destroy_loop.simps) simp
  ultimately show ?case by simp
qed

text \<open>The old list after a move: intact up to the old root.\<close>

lemma moved_forward:
  assumes rg: "ring h r ps" and ne: "ps \<noteq> []"
    and nx: "nx h' = (nx h)(hp_new h \<mapsto> hd ps, r \<mapsto> r)"
  shows "forward h' (ps @ [r])" and "hp_new h \<notin> set (r # ps)"
proof -
  show fresh: "hp_new h \<notin> set (r # ps)"
    using ringD(3,4,5) [OF rg] by (metis less_irrefl option.distinct(1) set_ConsD)
  have "forward h (ps @ [r])" using ring_cut(2) [of h r "[]" ps] rg by (simp add: forward_path)
  then show "forward h' (ps @ [r])"
  proof (rule forward_cong)
    fix x assume "x \<in> set (butlast (ps @ [r]))"
    then have "x \<noteq> hp_new h" "x \<noteq> r" using fresh ringD(1) [OF rg] by auto
    then show "nx h' x = nx h x" by (simp add: nx)
  qed
qed

section \<open>Properties\<close>

text \<open>
  C8: The linked list is a sequence. Any calls that stay within the bounds of the sequence run on
  a new container without a wild access and leave it with the elements of the abstract sequence,
  which a loop from \<open>begin()\<close> to \<open>end()\<close> visits in order. The nodes are all different, and both
  directions of their links agree: following \<open>next\<close> from the root visits the nodes in the order of
  their elements and comes back to the root, and every node's \<open>prev\<close> is the node it was reached from.
\<close>
theorem buffers_is_sequence:
  fixes vs :: "'a list"
  assumes "seq_run xs [] = Some vs"
  shows "\<exists>r h h' b ps. buffers_new empty_heap = (Inr r, h) \<and> calls buffers_call r xs h = (Inr (), h') \<and>
           buffers_begin r h' = (Inr b, h') \<and> walk b r [] h' = Some (Inr vs, h') \<and>
           distinct (r # ps) \<and> map (el h') ps = map (\<lambda>v. Some (Some v)) vs \<and>
           (\<forall>i \<le> length ps. nx h' ((r # ps) ! i) = Some ((ps @ [r]) ! i) \<and>
              pv h' ((ps @ [r]) ! i) = Some ((r # ps) ! i))"
proof -
  obtain r and h :: "'a heap" where new: "buffers_new empty_heap = (Inr r, h)" "buffers_rep h r []"
    using buffers_new_rep [of "empty_heap :: 'a heap"] by (auto simp: empty_heap_def views)
  from buf.run_rep [OF new(2) assms] obtain h' where
    run: "calls buffers_call r xs h = (Inr (), h')" "buffers_rep h' r vs" by blast
  from run(2) obtain ps where rg: "ring h' r ps" and vs: "elements h' ps = vs"
    unfolding buffers_rep_def by blast
  have "walk (hd (ps @ [r])) r [] h' = Some (Inr vs, h')"
    using walk_suffix [of h' r "[]" ps "[]"] rg vs by simp
  moreover have "buffers_begin r h' = (Inr (hd (ps @ [r])), h')"
    using root_next [OF rg] by (simp add: buffers_begin_def)
  moreover have "\<forall>i \<le> length ps. nx h' ((r # ps) ! i) = Some ((ps @ [r]) ! i) \<and>
      pv h' ((ps @ [r]) ! i) = Some ((r # ps) ! i)" by (rule ring_links [OF rg])
  moreover have "el h' p = Some (Some (the (the (el h' p))))" if "p \<in> set ps" for p
    using ringD(4) [OF rg that] by auto
  then have "distinct (r # ps)" "map (el h') ps = map (\<lambda>v. Some (Some v)) vs"
    using ringD(1) [OF rg] vs by (auto simp: elements_def)
  ultimately show ?thesis using new(1) run(1) by blast
qed

theorem buffers_is_sequence_witness:
  "\<exists>r h h' b. buffers_new empty_heap = (Inr r, h) \<and>
     calls buffers_call r [Push_back (1::int), Push_front 2, Insert_at 1 7, Pop_back] h = (Inr (), h') \<and>
     buffers_begin r h' = (Inr b, h') \<and> walk b r [] h' = Some (Inr [2, 7], h') \<and>
     (\<exists>p q. nx h' p = Some q \<and> pv h' q = Some p \<and> el h' p = Some (Some 2) \<and> el h' q = Some (Some 7))"
proof -
  have "seq_run [Push_back (1::int), Push_front 2, Insert_at 1 7, Pop_back] [] = Some [2, 7]" by simp
  from buffers_is_sequence [OF this] obtain r h h' b ps where
    run: "buffers_new empty_heap = (Inr r, h)"
      "calls buffers_call r [Push_back (1::int), Push_front 2, Insert_at 1 7, Pop_back] h = (Inr (), h')"
      "buffers_begin r h' = (Inr b, h')" "walk b r [] h' = Some (Inr [2, 7], h')"
    and el: "map (el h') ps = map (\<lambda>v. Some (Some v)) [2, 7]"
    and links: "\<forall>i \<le> length ps. nx h' ((r # ps) ! i) = Some ((ps @ [r]) ! i) \<and>
      pv h' ((ps @ [r]) ! i) = Some ((r # ps) ! i)" by metis
  from el obtain p q where ps: "ps = [p, q]" by (auto simp: map_eq_Cons_conv)
  from links [rule_format, of 1] el ps run show ?thesis by auto
qed

text \<open>
  Iterators stay where they should. \<open>insert\<close> at a position returns an iterator to the new
  element, and \<open>erase\<close> of an element returns the position of the one after it, whose links and
  elements are otherwise those of the sequence without it.
\<close>
lemma insert_erase_positions:
  assumes "ring h r ps" and "k \<le> length ps"
  shows "(\<exists>e h'. buffers_insert ((ps @ [r]) ! k) v h = (Inr e, h') \<and> ring h' r (take k ps @ e # drop k ps) \<and>
            elements h' (take k ps @ e # drop k ps) = take k (elements h ps) @ v # drop k (elements h ps)) \<and>
         (k < length ps \<longrightarrow>
            (\<exists>h'. buffers_erase ((ps @ [r]) ! k) h = (Inr ((ps @ [r]) ! Suc k), h') \<and>
               ring h' r (take k ps @ drop (Suc k) ps) \<and>
               elements h' (take k ps @ drop (Suc k) ps) =
               take k (elements h ps) @ drop (Suc k) (elements h ps)))"
  using buffers_insert_run [OF assms] buffers_erase_run [OF assms(1)] by blast

text \<open>A container at address 0 with one element at address 1.\<close>

definition demo_heap :: "int heap" where
  "demo_heap =
     \<lparr>hp_nodes = [0 \<mapsto> \<lparr>n_next = 1, n_prev = 1, n_ele = None\<rparr>, 1 \<mapsto> \<lparr>n_next = 0, n_prev = 0, n_ele = Some 5\<rparr>],
      hp_new = 2\<rparr>"

lemma demo_ring: "ring demo_heap 0 [1]"
  by (simp add: ring_def demo_heap_def views)

lemma insert_erase_positions_example:
  "\<exists>h'. buffers_erase 1 demo_heap = (Inr 0, h') \<and> ring h' 0 []"
  using insert_erase_positions [OF demo_ring, of 0] by auto

text \<open>
  C27: The destructor releases exactly the nodes of the container: it ends, frees each node once
  and touches nothing else in the heap.
\<close>
theorem destructor_frees_ring:
  assumes "ring h r ps"
  shows "\<exists>h'. buffers_destroy r h = Some (Inr (), h') \<and>
           el h' = (\<lambda>p. if p \<in> set ps then None else el h p)"
proof -
  have "path h (ps @ [r])" using ring_cut(2) [of h r "[]" ps] assms by simp
  moreover have "\<forall>p \<in> set ps. \<exists>v. el h p = Some (Some v)" using ringD(4) [OF assms] by blast
  ultimately show ?thesis
    using destroy_rest [OF ringD(1) [OF assms]] root_next [OF assms] by (simp add: buffers_destroy_def)
qed

theorem destructor_frees_ring_witness:
  "\<exists>h'. buffers_destroy 0 demo_heap = Some (Inr (), h') \<and> el h' 1 = None"
  using destructor_frees_ring [OF demo_ring] by auto

text \<open>
  C40: The move constructor does not take over a container that has elements. The first and last
  node still point at the old root, so a loop over the new container runs into the old root and
  reads the element it does not have, and destroying the new container deletes the old root.
\<close>
theorem moved_container_is_broken:
  assumes rg: "ring h r ps" and ne: "ps \<noteq> []"
  shows "\<exists>s h'. buffers_move r h = (Inr s, h') \<and>
           buffers_begin s h' = (Inr (hd ps), h') \<and>
           walk (hd ps) s [] h' = Some (Inl (Undefined ''element of a root''), h') \<and>
           (\<exists>h''. buffers_destroy s h' = Some (Inl (Undefined ''delete of a root''), h''))"
proof -
  obtain h' where mv: "buffers_move r h = (Inr (hp_new h), h')"
    "nx h' = (nx h)(hp_new h \<mapsto> hd ps, r \<mapsto> r)" "el h' = (el h)(hp_new h \<mapsto> None)"
    using move_run [OF assms] by blast
  note fw = moved_forward [OF assms mv(2)]
  have el: "el h' r = Some None" "\<forall>y \<in> set ps. \<exists>v. el h' y = Some (Some v)"
    using ringD(3,4) [OF rg] fw(2) mv(3) by auto
  have hd: "hd (ps @ [r]) = hd ps" using ne by simp
  have first: "nx h' (hp_new h) = Some (hd ps)" using mv(2) fw(2) by simp
  have out: "hp_new h \<notin> set (ps @ [r])" using fw(2) by simp
  have "walk (hd ps) (hp_new h) [] h' = Some (Inl (Undefined ''element of a root''), h')"
    using walk_to_root [OF fw(1) out el] hd by simp
  moreover have "\<exists>h''. buffers_destroy (hp_new h) h' = Some (Inl (Undefined ''delete of a root''), h'')"
    using destroy_to_root [OF fw(1) ringD(1) [OF rg] out el] hd first by (simp add: buffers_destroy_def)
  ultimately show ?thesis using mv(1) first by (auto simp: buffers_begin_def)
qed

theorem moved_container_is_broken_witness:
  "\<exists>s h'. buffers_move 0 demo_heap = (Inr s, h') \<and>
     walk 1 s [] h' = Some (Inl (Undefined ''element of a root''), h')"
  using moved_container_is_broken [OF demo_ring] by auto

text \<open>
  Comparing an iterator with a const iterator by \<open>!=\<close> gives the answer of \<open>==\<close>: a loop to a
  const end visits nothing of a container that has elements, and on an empty one it reads the
  element of the root.
\<close>
lemma mixed_comparison_inverted:
  assumes "ring h r ps"
  shows "mixed_ne x y = mixed_eq x y \<and>
         walk_const (hd (ps @ [r])) r [] h =
           (if ps = [] then Some (Inl (Undefined ''element of a root''), h) else Some (Inr [], h))"
proof -
  have "hd ps \<noteq> r" if "ps \<noteq> []" using ringD(1) [OF assms] that by (cases ps) auto
  with deref_root [OF ringD(3) [OF assms]] show ?thesis
    by (subst walk_const.simps) (auto simp: mixed_ne_def mixed_eq_def)
qed

lemma mixed_comparison_inverted_example:
  "walk_const 1 0 [] demo_heap = Some (Inr [], demo_heap)"
  using mixed_comparison_inverted [OF demo_ring] by simp

end
