(* ===== verification/ConstIterators.thy ===== *)
theory ConstIterators
  imports Buffers
begin

text \<open>
  \<open>ceph_test/test_iter.cc\<close>: the class \<open>buffers_const_iterator\<close>, the members of the container that give
  one, and a loop over a constant container. It reads what the other iterator reads; only the
  operators between the two kinds go wrong (\<open>mixed_ne\<close> in \<open>Buffers\<close>).
\<close>

section \<open>The class\<close>

record const_iterator =
  ci_cur :: nat

text \<open>From a node, from an iterator and from another one; the same for the assignment.\<close>

definition ci_new :: "nat \<Rightarrow> const_iterator" where
  "ci_new p = \<lparr>ci_cur = p\<rparr>"

definition ci_of_iterator :: "nat \<Rightarrow> const_iterator" where
  "ci_of_iterator p = \<lparr>ci_cur = p\<rparr>"

definition ci_copy :: "const_iterator \<Rightarrow> const_iterator" where
  "ci_copy other = \<lparr>ci_cur = ci_cur other\<rparr>"

definition ci_assign :: "const_iterator \<Rightarrow> const_iterator \<Rightarrow> const_iterator" where
  "ci_assign self other = self\<lparr>ci_cur := ci_cur other\<rparr>"

definition ci_deref :: "const_iterator \<Rightarrow> ('a, 'a) heap_action" where
  "ci_deref self =
     bindE (load (ci_cur self)) (\<lambda>n.
       case n_ele n of
         None \<Rightarrow> throw (Undefined ''element of a root'')
       | Some x \<Rightarrow> ret x)"

definition ci_incr :: "const_iterator \<Rightarrow> ('a, const_iterator) heap_action" where
  "ci_incr self = bindE (get_next (ci_cur self)) (\<lambda>n. ret (self\<lparr>ci_cur := n\<rparr>))"

text \<open>\<open>operator++(int)\<close>: the value returned and the iterator afterwards; so too for an iterator.\<close>

definition ci_post_incr :: "const_iterator \<Rightarrow> ('a, const_iterator \<times> const_iterator) heap_action" where
  "ci_post_incr self = (let temp = ci_copy self in bindE (ci_incr self) (\<lambda>self'. ret (temp, self')))"

definition it_post_incr :: "nat \<Rightarrow> ('a, nat \<times> nat) heap_action" where
  "it_post_incr cur = (let temp = cur in bindE (it_incr cur) (\<lambda>cur'. ret (temp, cur')))"

definition ci_eq :: "const_iterator \<Rightarrow> const_iterator \<Rightarrow> bool" where
  "ci_eq self other \<longleftrightarrow> ci_cur self = ci_cur other"

definition ci_ne :: "const_iterator \<Rightarrow> const_iterator \<Rightarrow> bool" where
  "ci_ne self other \<longleftrightarrow> \<not> ci_eq self other"

section \<open>A constant container\<close>

definition const_begin :: "nat \<Rightarrow> ('a, const_iterator) heap_action" where
  "const_begin r = bindE (get_next r) (\<lambda>n. ret (ci_new n))"

definition const_end :: "nat \<Rightarrow> ('a, const_iterator) heap_action" where
  "const_end r = ret (ci_new r)"

definition const_back :: "nat \<Rightarrow> ('a, const_iterator) heap_action" where
  "const_back r = bindE (get_prev r) (\<lambda>p. ret (ci_of_iterator p))"

text \<open>\<open>for (auto it = c.begin(); it != c.end(); it++)\<close>, collecting \<open>*it\<close>.\<close>

partial_function (option) const_walk ::
    "const_iterator \<Rightarrow> const_iterator \<Rightarrow> 'a list \<Rightarrow> 'a heap \<Rightarrow> ((exn + 'a list) \<times> 'a heap) option" where
  "const_walk p e acc h =
     (if \<not> ci_ne p e then Some (Inr (rev acc), h)
      else
        (case ci_deref p h of
           (Inl x, h1) \<Rightarrow> Some (Inl x, h1)
         | (Inr v, h1) \<Rightarrow>
             (case ci_post_incr p h1 of
                (Inl x, h2) \<Rightarrow> Some (Inl x, h2)
              | (Inr (temp, q), h2) \<Rightarrow> const_walk q e (v # acc) h2)))"

lemma ci_reads_as_iterator:
  "ci_deref (ci_new p) = it_deref p" "ci_incr (ci_new p) = bindE (it_incr p) (\<lambda>n. ret (ci_new n))"
  "ci_ne (ci_new p) (ci_new q) = it_ne p q"
  by (simp_all add: ci_deref_def it_deref_def ci_incr_def it_incr_def ci_ne_def ci_eq_def it_ne_def it_eq_def
      ci_new_def)

lemma const_walk_suffix:
  assumes "ring h r (xs @ ys)"
  shows "const_walk (ci_new (hd (ys @ [r]))) (ci_new r) acc h = Some (Inr (rev acc @ elements h ys), h)"
  using assms
proof (induction ys arbitrary: xs acc)
  case Nil
  show ?case by (subst const_walk.simps) (simp add: ci_reads_as_iterator it_ne_def it_eq_def)
next
  case (Cons y ys)
  have "y \<noteq> r" using ringD(1) [OF Cons.prems] by auto
  moreover obtain v where v: "el h y = Some (Some v)" using ringD(4) [OF Cons.prems, of y] by auto
  moreover have "nx h y = Some (hd (ys @ [r]))" using ring_cut(3) [of h r "xs @ [y]" ys] Cons.prems by simp
  then have "ci_post_incr (ci_new y) h = (Inr (ci_new y, ci_new (hd (ys @ [r]))), h)"
    by (simp add: ci_post_incr_def ci_incr_def ci_copy_def ci_new_def bindE_def ret_def Let_def)
  ultimately have "const_walk (ci_new y) (ci_new r) acc h = const_walk (ci_new (hd (ys @ [r]))) (ci_new r) (v # acc) h"
    by (subst const_walk.simps) (simp add: ci_reads_as_iterator it_ne_def it_eq_def deref_node)
  with Cons.IH [of "xs @ [y]" "v # acc"] Cons.prems v show ?case by simp
qed

text \<open>The loop over a constant container gives its elements in order, and the last of them is \<open>back\<close>.\<close>

lemma const_walk_elements:
  assumes "ring h r ps"
  shows "\<exists>b e. const_begin r h = (Inr b, h) \<and> const_end r h = (Inr e, h) \<and>
           const_walk b e [] h = Some (Inr (elements h ps), h)"
proof -
  have "nx h r = Some (hd (ps @ [r]))" using ring_cut(3) [of h r "[]" ps] assms by simp
  then have "const_begin r h = (Inr (ci_new (hd (ps @ [r]))), h)"
    by (simp add: const_begin_def bindE_def ret_def)
  moreover have "const_end r h = (Inr (ci_new r), h)" by (simp add: const_end_def ret_def)
  ultimately show ?thesis using const_walk_suffix [of h r "[]" ps "[]"] assms by simp
qed

end
