(* ===== verification/TaskQueue.thy ===== *)
theory TaskQueue
  imports Prelude
begin

text \<open>
  \<open>ceph_test/test_cp.cc\<close>: a worker thread that takes the queued tasks in batches. The calls of its
  clients and the steps of the worker interleave; what happens under the mutex is one step. The
  flag \<open>stopped\<close> has no initializer in the class (\<open>main\<close> gets it cleared by \<open>make_shared\<close>), so it is a
  parameter of the initial state.
\<close>

section \<open>State\<close>

datatype worker_pc = W_loop | W_waiting | W_woken | W_running | W_done

text \<open>
  \<open>tq_checked\<close> are the tasks of calls to \<open>add_task\<close> that have read the flag but not yet locked,
  \<open>tq_owns\<close> tells whether the worker's lock object owns the mutex. Two history variables record
  the tasks that were run and those that were accepted.
\<close>

record 'a task_manager =
  tq_stopped :: bool
  tq_task :: "'a list"
  tq_checked :: "'a list"
  tq_worker :: worker_pc
  tq_owns :: bool
  tq_batch :: "'a list"
  tq_ran :: "'a list"
  tq_accepted :: "'a list"

definition task_manager_new :: "bool \<Rightarrow> 'a task_manager" where
  "task_manager_new stopped =
     \<lparr>tq_stopped = stopped, tq_task = [], tq_checked = [], tq_worker = W_loop, tq_owns = True,
      tq_batch = [], tq_ran = [], tq_accepted = []\<rparr>"

section \<open>The worker\<close>

text \<open>
  The wait with its predicate, by a worker that owns the mutex; where it does not wait it swaps the
  queue out and unlocks.
\<close>

definition tq_wait :: "'a task_manager \<Rightarrow> 'a task_manager" where
  "tq_wait s =
     (if tq_task s \<noteq> [] \<or> tq_stopped s
      then s\<lparr>tq_batch := tq_task s, tq_task := [], tq_owns := False, tq_worker := W_running\<rparr>
      else s\<lparr>tq_worker := W_waiting\<rparr>)"

text \<open>
  A step of \<open>entry\<close>, \<open>None\<close> where it is blocked or over. After the first batch the lock object does
  not own the mutex: where the predicate holds the wait returns at once and \<open>unlock\<close> throws, where
  it does not the wait is entered with a lock that is not owned.
\<close>

definition tq_entry :: "'a task_manager \<Rightarrow> (exn + 'a task_manager) option" where
  "tq_entry s =
     (case tq_worker s of
        W_loop \<Rightarrow>
          if \<not> tq_stopped s \<or> tq_task s \<noteq> [] then
            Some (if tq_owns s then Inr (tq_wait s)
                  else if tq_task s \<noteq> [] \<or> tq_stopped s then Inl (Std_exception ''system_error'')
                  else Inl (Undefined ''wait on a lock that is not owned''))
          else Some (Inr (s\<lparr>tq_worker := W_done\<rparr>))
      | W_waiting \<Rightarrow> None
      | W_woken \<Rightarrow> Some (Inr (tq_wait s))
      | W_running \<Rightarrow>
          (case tq_batch s of
             [] \<Rightarrow> Some (Inr (s\<lparr>tq_worker := W_loop\<rparr>))
           | t # ts \<Rightarrow> Some (Inr (s\<lparr>tq_batch := ts, tq_ran := tq_ran s @ [t]\<rparr>)))
      | W_done \<Rightarrow> None)"

section \<open>The clients\<close>

definition tq_notify :: "'a task_manager \<Rightarrow> 'a task_manager" where
  "tq_notify s = (if tq_worker s = W_waiting then s\<lparr>tq_worker := W_woken\<rparr> else s)"

text \<open>\<open>add_task\<close>: the check without the lock, with the result where it fails; then the rest.\<close>

definition tq_add_check :: "'a \<Rightarrow> 'a task_manager \<Rightarrow> int + 'a task_manager" where
  "tq_add_check t s = (if tq_stopped s then Inl (- 1) else Inr (s\<lparr>tq_checked := tq_checked s @ [t]\<rparr>))"

definition tq_add_push :: "'a \<Rightarrow> 'a task_manager \<Rightarrow> 'a task_manager" where
  "tq_add_push t s =
     tq_notify (s\<lparr>tq_checked := remove1 t (tq_checked s), tq_task := tq_task s @ [t],
                  tq_accepted := tq_accepted s @ [t]\<rparr>)"

definition tq_stop :: "'a task_manager \<Rightarrow> 'a task_manager" where
  "tq_stop s = (if tq_stopped s then s else tq_notify (s\<lparr>tq_stopped := True\<rparr>))"

inductive tq_step :: "'a task_manager \<Rightarrow> 'a task_manager \<Rightarrow> bool" where
  Tq_worker: "tq_entry s = Some (Inr s') \<Longrightarrow> tq_step s s'"
| Tq_check: "tq_add_check t s = Inr s' \<Longrightarrow> tq_step s s'"
| Tq_push: "t \<in> set (tq_checked s) \<Longrightarrow> tq_step s (tq_add_push t s)"
| Tq_stop: "tq_step s (tq_stop s)"
| Tq_spurious: "tq_worker s = W_waiting \<Longrightarrow> tq_step s (s\<lparr>tq_worker := W_woken\<rparr>)"

inductive_cases tq_stepE: "tq_step s s'"

definition tq_reachable :: "bool \<Rightarrow> 'a task_manager \<Rightarrow> bool" where
  "tq_reachable stopped s \<longleftrightarrow> tq_step\<^sup>*\<^sup>* (task_manager_new stopped) s"

section \<open>The invariant\<close>

text \<open>
  Before the first batch nothing has run and nothing is in hand, and the worker waits only while
  there is neither a task nor a request to stop; after it the worker never waits again.
\<close>

definition tq_wf :: "'a task_manager \<Rightarrow> bool" where
  "tq_wf s \<longleftrightarrow>
     tq_ran s @ tq_batch s @ tq_task s = tq_accepted s \<and>
     (tq_owns s \<longrightarrow> tq_ran s = [] \<and> tq_batch s = [] \<and> tq_worker s \<noteq> W_running) \<and>
     (\<not> tq_owns s \<longrightarrow> tq_worker s \<notin> {W_waiting, W_woken}) \<and>
     (tq_worker s = W_waiting \<longrightarrow> tq_task s = [] \<and> \<not> tq_stopped s) \<and>
     (tq_worker s \<noteq> W_running \<longrightarrow> tq_batch s = []) \<and>
     (tq_worker s = W_done \<longrightarrow> tq_stopped s)"

lemma tq_wf_step: "tq_step s s' \<Longrightarrow> tq_wf s \<Longrightarrow> tq_wf s'"
proof (induction rule: tq_step.induct)
  case (Tq_worker s s')
  then show ?case
    by (cases "tq_worker s") (auto simp: tq_entry_def tq_wait_def tq_wf_def split: if_splits list.splits)
next
  case (Tq_push t s)
  then show ?case by (auto simp: tq_add_push_def tq_notify_def tq_wf_def)
next
  case (Tq_stop s)
  then show ?case by (auto simp: tq_stop_def tq_notify_def tq_wf_def)
qed (auto simp: tq_add_check_def tq_wf_def split: if_splits)

lemma tq_reachable_wf:
  assumes "tq_reachable stopped s"
  shows "tq_wf s"
  using assms unfolding tq_reachable_def
proof (induction rule: rtranclp_induct)
  case base
  show ?case by (simp add: tq_wf_def task_manager_new_def)
next
  case (step s s')
  then show ?case by (blast intro: tq_wf_step)
qed

text \<open>After the first batch the worker takes nothing more from the queue.\<close>

lemma one_batch_step:
  assumes "tq_step s s'" and "tq_wf s" and "\<not> tq_owns s"
  shows "\<not> tq_owns s' \<and> tq_ran s' @ tq_batch s' = tq_ran s @ tq_batch s"
  using assms(1)
proof (cases rule: tq_step.cases)
  case Tq_worker
  with assms(2,3) show ?thesis
    by (cases "tq_worker s") (auto simp: tq_entry_def tq_wf_def split: if_splits list.splits)
qed (use assms(3) in \<open>auto simp: tq_add_check_def tq_add_push_def tq_stop_def tq_notify_def split: if_splits\<close>)

lemma one_batch_steps:
  assumes "tq_step\<^sup>*\<^sup>* s s'" and "tq_wf s" and "\<not> tq_owns s"
  shows "tq_wf s' \<and> \<not> tq_owns s' \<and> tq_ran s' @ tq_batch s' = tq_ran s @ tq_batch s"
  using assms
proof (induction rule: rtranclp_induct)
  case (step s' s'')
  then have "tq_wf s'" "\<not> tq_owns s'" "tq_ran s' @ tq_batch s' = tq_ran s @ tq_batch s" by blast+
  with one_batch_step [OF step(2)] tq_wf_step [OF step(2)] show ?case by simp
qed simp

section \<open>Properties\<close>

text \<open>
  C30: Tasks are run once and in the order they were accepted, and no wakeup is missed. In every
  reachable state what was run, what the worker has in hand and what is queued make up the tasks
  accepted, and a worker that waits has neither a task to take nor a request to stop.
\<close>
theorem tasks_run_in_order:
  assumes "tq_reachable stopped s"
  shows "tq_ran s @ tq_batch s @ tq_task s = tq_accepted s \<and>
         (tq_worker s = W_waiting \<longrightarrow> tq_task s = [] \<and> \<not> tq_stopped s) \<and>
         (tq_worker s = W_done \<longrightarrow> tq_ran s @ tq_task s = tq_accepted s)"
  using tq_reachable_wf [OF assms] unfolding tq_wf_def by auto

definition one_task :: "string task_manager" where
  "one_task = tq_add_push ''TaskA'' ((task_manager_new False)\<lparr>tq_checked := [''TaskA'']\<rparr>)"

lemma one_task_reachable: "tq_reachable False one_task"
proof -
  have "tq_step (task_manager_new False) ((task_manager_new False)\<lparr>tq_checked := [''TaskA'']\<rparr>)"
    by (rule Tq_check [of "''TaskA''"]) (simp add: tq_add_check_def task_manager_new_def)
  moreover have "tq_step ((task_manager_new False)\<lparr>tq_checked := [''TaskA'']\<rparr>) one_task"
    unfolding one_task_def by (rule Tq_push) simp
  ultimately show ?thesis unfolding tq_reachable_def by (meson rtranclp.rtrancl_into_rtrancl rtranclp.rtrancl_refl)
qed

theorem tasks_run_in_order_witness: "tq_task one_task = [''TaskA'']"
proof -
  have "tq_accepted one_task = [''TaskA'']" "tq_ran one_task = []" "tq_batch one_task = []" by code_simp+
  with tasks_run_in_order [OF one_task_reachable] show ?thesis by simp
qed

text \<open>
  Only one batch is ever run. Once the worker has taken its first batch, the tasks it runs are
  those of that batch, however the program goes on; and back at its loop it fails, unless by
  then it was told to stop and no task was added: its lock was never taken again.
\<close>
lemma tasks_one_batch_only:
  assumes "tq_reachable stopped s" and "\<not> tq_owns s" and "tq_step\<^sup>*\<^sup>* s s'"
  shows "(\<exists>rest. tq_ran s @ tq_batch s = tq_ran s' @ rest) \<and>
         (tq_worker s' = W_loop \<and> (tq_task s' \<noteq> [] \<or> \<not> tq_stopped s') \<longrightarrow> (\<exists>e. tq_entry s' = Some (Inl e)))"
proof -
  have "\<not> tq_owns s'" "tq_ran s' @ tq_batch s' = tq_ran s @ tq_batch s"
    using one_batch_steps [OF assms(3) tq_reachable_wf [OF assms(1)] assms(2)] by blast+
  then show ?thesis by (auto simp: tq_entry_def intro!: exI [of _ "tq_batch s'"])
qed

lemma first_batch_taken: "tq_reachable False (tq_wait one_task)"
proof -
  have "tq_entry one_task = Some (Inr (tq_wait one_task))"
    by (simp add: tq_entry_def one_task_def tq_add_push_def tq_notify_def task_manager_new_def)
  with one_task_reachable show ?thesis unfolding tq_reachable_def
    by (meson Tq_worker rtranclp.rtrancl_into_rtrancl)
qed

lemma tasks_one_batch_only_example:
  "\<exists>s' e. tq_step\<^sup>*\<^sup>* (tq_wait one_task) s' \<and> tq_ran s' = [''TaskA''] \<and> tq_entry s' = Some (Inl e)"
proof -
  let ?s1 = "(tq_wait one_task)\<lparr>tq_batch := [], tq_ran := [''TaskA'']\<rparr>" and ?s2 = "(tq_wait one_task)\<lparr>tq_batch := [], tq_ran := [''TaskA''], tq_worker := W_loop\<rparr>"
  have w: "tq_worker (tq_wait one_task) = W_running" "tq_batch (tq_wait one_task) = [''TaskA'']" "tq_ran (tq_wait one_task) = []"
    "\<not> tq_owns (tq_wait one_task)" "\<not> tq_stopped (tq_wait one_task)" by code_simp+
  have "tq_step (tq_wait one_task) ?s1" "tq_step ?s1 ?s2"
    by (rule Tq_worker, simp add: tq_entry_def w)+
  then have steps: "tq_step\<^sup>*\<^sup>* (tq_wait one_task) ?s2" by (meson rtranclp.rtrancl_into_rtrancl rtranclp.rtrancl_refl)
  from tasks_one_batch_only [OF first_batch_taken w(4) this] have "\<exists>e. tq_entry ?s2 = Some (Inl e)" using w(5) by simp
  with steps show ?thesis by (intro exI [of _ ?s2]) auto
qed

end
