(* ===== verification/ThreadRing.thy ===== *)
theory ThreadRing
  imports Prelude
begin

text \<open>
  \<open>TestCPP/thread.cc\<close> (and its copy \<open>boost_cpp/test_thread.cc\<close>): three threads that print in turn.
  Each has its own mutex, condition variable and flag; a thread prints when it is woken and then
  wakes its successor. The steps of the threads and of \<open>main\<close> interleave freely; a condition
  variable may also wake a thread without a notification, which the parameter of the step
  relation permits or rules out.
\<close>

section \<open>State\<close>

text \<open>Where a thread is in \<open>run\<close>. It holds its mutex in \<open>At_check\<close>, \<open>Resumed\<close> and \<open>Processed\<close>.\<close>

datatype pc = Not_created | Entering | At_check | Waiting | Woken | Resumed | Processed | Returned

datatype main_op = Create nat | Notify nat | Sleep | Stop nat | Join nat | Delete nat

record thread_ring =
  rg_pc :: "nat \<Rightarrow> pc"
  rg_stopped :: "nat \<Rightarrow> bool"
  rg_out :: "nat list"
  rg_main :: "main_op list"

definition main_script :: "main_op list" where
  "main_script =
     [Create 0, Create 1, Create 2, Notify 0, Sleep, Stop 0, Stop 1, Stop 2,
      Join 0, Join 1, Join 2, Delete 0, Delete 1, Delete 2]"

definition ring_init :: thread_ring where
  "ring_init = \<lparr>rg_pc = (\<lambda>_. Not_created), rg_stopped = (\<lambda>_. False), rg_out = [], rg_main = main_script\<rparr>"

text \<open>What the three classes print.\<close>

definition process_text :: "nat \<Rightarrow> string" where
  "process_text i =
     (if i = 0 then ''a'' else if i = 1 then ''b'' else ''c'' @ [LF] @ ''========='' @ [LF])"

definition printed :: "thread_ring \<Rightarrow> string" where
  "printed r = ''Start: '' @ [LF] @ concat (map process_text (rg_out r))"

section \<open>Operations\<close>

text \<open>The argument of \<open>run\<close>: each thread's successor.\<close>

definition next_ptr :: "nat \<Rightarrow> nat" where
  "next_ptr i = (i + 1) mod 3"

definition set_pc :: "nat \<Rightarrow> pc \<Rightarrow> thread_ring \<Rightarrow> thread_ring" where
  "set_pc i p r = r\<lparr>rg_pc := (rg_pc r)(i := p)\<rparr>"

text \<open>\<open>notify_all\<close> wakes a thread only if it is waiting.\<close>

definition thr_notify :: "nat \<Rightarrow> thread_ring \<Rightarrow> thread_ring" where
  "thr_notify i r = (if rg_pc r i = Waiting then set_pc i Woken r else r)"

definition holds_mutex :: "thread_ring \<Rightarrow> nat \<Rightarrow> bool" where
  "holds_mutex r i \<longleftrightarrow> rg_pc r i \<in> {At_check, Resumed, Processed}"

definition isstop :: "nat \<Rightarrow> thread_ring \<Rightarrow> bool" where
  "isstop i r = rg_stopped r i"

text \<open>\<open>run\<close>, one step of thread \<open>i\<close>; \<open>None\<close> where it blocks or has nothing left to do.\<close>

definition thr_run :: "nat \<Rightarrow> thread_ring \<Rightarrow> thread_ring option" where
  "thr_run i r =
     (case rg_pc r i of
        Not_created \<Rightarrow> None
      | Entering \<Rightarrow> Some (set_pc i At_check r)
      | At_check \<Rightarrow> Some (set_pc i (if isstop i r then Returned else Waiting) r)
      | Waiting \<Rightarrow> None
      | Woken \<Rightarrow> Some (set_pc i Resumed r)
      | Resumed \<Rightarrow>
          Some (if isstop i r then set_pc i Returned r
                else set_pc i Processed (r\<lparr>rg_out := rg_out r @ [i]\<rparr>))
      | Processed \<Rightarrow> Some (thr_notify (next_ptr i) (set_pc i At_check r))
      | Returned \<Rightarrow> None)"

definition thr_create :: "nat \<Rightarrow> thread_ring \<Rightarrow> thread_ring" where
  "thr_create i r = set_pc i Entering r"

text \<open>\<open>stop\<close> needs the thread's mutex and blocks while the thread holds it.\<close>

definition thr_stop :: "nat \<Rightarrow> thread_ring \<Rightarrow> thread_ring option" where
  "thr_stop i r =
     (if holds_mutex r i then None
      else Some (thr_notify i (r\<lparr>rg_stopped := (rg_stopped r)(i := True)\<rparr>)))"

definition thr_join :: "nat \<Rightarrow> thread_ring \<Rightarrow> thread_ring option" where
  "thr_join i r = (if rg_pc r i = Returned then Some r else None)"

definition main_run :: "thread_ring \<Rightarrow> thread_ring option" where
  "main_run r =
     (case rg_main r of
        [] \<Rightarrow> None
      | op # ops \<Rightarrow>
          (let r1 = r\<lparr>rg_main := ops\<rparr> in
           case op of
             Create i \<Rightarrow> Some (thr_create i r1)
           | Notify i \<Rightarrow> Some (thr_notify i r1)
           | Sleep \<Rightarrow> Some r1
           | Stop i \<Rightarrow> thr_stop i r1
           | Join i \<Rightarrow> thr_join i r1
           | Delete i \<Rightarrow> Some r1))"

inductive ring_step :: "bool \<Rightarrow> thread_ring \<Rightarrow> thread_ring \<Rightarrow> bool" for spurious :: bool where
  Ring_thread: "i < 3 \<Longrightarrow> thr_run i r = Some r' \<Longrightarrow> ring_step spurious r r'"
| Ring_main: "main_run r = Some r' \<Longrightarrow> ring_step spurious r r'"
| Ring_spurious: "spurious \<Longrightarrow> i < 3 \<Longrightarrow> rg_pc r i = Waiting \<Longrightarrow> ring_step spurious r (set_pc i Woken r)"

inductive_cases ring_stepE: "ring_step spurious r r'"

definition ring_reachable :: "bool \<Rightarrow> thread_ring \<Rightarrow> bool" where
  "ring_reachable spurious r \<longleftrightarrow> (ring_step spurious)\<^sup>*\<^sup>* ring_init r"

lemma ring_reachable_init: "ring_reachable sp ring_init"
  by (simp add: ring_reachable_def)

lemma ring_reachable_step: "ring_reachable sp r \<Longrightarrow> ring_step sp r r' \<Longrightarrow> ring_reachable sp r'"
  by (simp add: ring_reachable_def)

lemma ring_reachable_induct [consumes 1, case_names init step]:
  assumes "ring_reachable sp r" and "P ring_init"
    and "\<And>r r'. ring_reachable sp r \<Longrightarrow> P r \<Longrightarrow> ring_step sp r r' \<Longrightarrow> P r'"
  shows "P r"
  using assms(1) unfolding ring_reachable_def
proof (induction rule: rtranclp_induct)
  case (step r r')
  then show ?case using assms(3) unfolding ring_reachable_def by blast
qed (rule assms(2))

section \<open>The effects of the steps\<close>

lemma set_pc_simps [simp]:
  "rg_pc (set_pc i p r) = (rg_pc r)(i := p)" "rg_stopped (set_pc i p r) = rg_stopped r"
  "rg_out (set_pc i p r) = rg_out r" "rg_main (set_pc i p r) = rg_main r"
  by (simp_all add: set_pc_def)

lemma thr_notify_simps [simp]:
  "rg_pc (thr_notify i r) = (if rg_pc r i = Waiting then (rg_pc r)(i := Woken) else rg_pc r)"
  "rg_stopped (thr_notify i r) = rg_stopped r" "rg_out (thr_notify i r) = rg_out r"
  "rg_main (thr_notify i r) = rg_main r"
  by (simp_all add: thr_notify_def)

text \<open>\<open>main\<close> is always at some point of its script, which has no operation twice.\<close>

lemma main_suffix:
  assumes "ring_reachable sp r"
  shows "\<exists>pre. main_script = pre @ rg_main r"
  using assms
proof (induction rule: ring_reachable_induct)
  case (step r r')
  from step(2) have "rg_main r' = rg_main r \<or> (\<exists>op. rg_main r = op # rg_main r')"
  proof (cases rule: ring_step.cases)
    case (Ring_thread i)
    then show ?thesis by (auto simp: thr_run_def split: pc.splits if_splits)
  next
    case Ring_main
    then show ?thesis
      by (auto simp: main_run_def thr_create_def thr_stop_def thr_join_def Let_def
          split: list.splits main_op.splits if_splits)
  qed simp
  with step(3) show ?case by (metis append.assoc append_Cons append_Nil)
qed (simp add: ring_init_def)

lemma main_script_distinct: "distinct main_script"
  by (simp add: main_script_def)

lemma main_rest:
  assumes "ring_reachable sp r" and "rg_main r = op # ops"
  shows "op \<notin> set ops"
proof -
  obtain pre where "main_script = pre @ op # ops" using main_suffix [OF assms(1)] assms(2) by auto
  with main_script_distinct show ?thesis by (metis distinct.simps(2) distinct_append)
qed

section \<open>The order of the output\<close>

text \<open>A thread that is woken to print, as opposed to one that is woken to stop.\<close>

definition has_turn :: "thread_ring \<Rightarrow> nat \<Rightarrow> bool" where
  "has_turn r i \<longleftrightarrow> i < 3 \<and> rg_pc r i \<in> {Woken, Resumed} \<and> \<not> rg_stopped r i"

definition passes_turn :: "thread_ring \<Rightarrow> nat \<Rightarrow> bool" where
  "passes_turn r i \<longleftrightarrow> i < 3 \<and> rg_pc r i = Processed"

text \<open>
  The turn exists at most once: it is with \<open>main\<close> before its notification, with the one thread that
  is woken to print, or with the one that has printed; and it moves around the ring with the
  output.
\<close>

definition turn_wf :: "thread_ring \<Rightarrow> bool" where
  "turn_wf r \<longleftrightarrow>
     rg_out r = map (\<lambda>k. k mod 3) [0..<length (rg_out r)] \<and>
     (\<forall>i. has_turn r i \<longrightarrow> i = length (rg_out r) mod 3 \<and> (\<forall>j. \<not> passes_turn r j)) \<and>
     (\<forall>i. passes_turn r i \<longrightarrow> next_ptr i = length (rg_out r) mod 3) \<and>
     (Notify 0 \<in> set (rg_main r) \<longrightarrow> rg_out r = [] \<and> (\<forall>i. \<not> has_turn r i \<and> \<not> passes_turn r i))"

lemma next_ptr_inj: "i < 3 \<Longrightarrow> j < 3 \<Longrightarrow> next_ptr i = next_ptr j \<Longrightarrow> i = j"
  unfolding next_ptr_def by presburger

lemma next_ptr_props: "next_ptr i < 3" "i < 3 \<Longrightarrow> next_ptr i \<noteq> i"
  unfolding next_ptr_def by presburger+

lemma turn_wf_no_change:
  assumes "turn_wf r" and "rg_out r' = rg_out r" and "set (rg_main r') \<subseteq> set (rg_main r)"
    and "\<And>i. has_turn r' i \<Longrightarrow> has_turn r i" and "\<And>i. passes_turn r' i \<Longrightarrow> passes_turn r i"
  shows "turn_wf r'"
  using assms unfolding turn_wf_def by (simp add: subset_iff) blast

text \<open>The steps that hand the turn on.\<close>

lemma turn_wf_thread:
  assumes wf: "turn_wf r" and i: "i < 3" and run: "thr_run i r = Some r'"
  shows "turn_wf r'"
proof (cases "rg_pc r i")
  case Resumed
  show ?thesis
  proof (cases "rg_stopped r i")
    case False
    with Resumed run have r': "r' = set_pc i Processed (r\<lparr>rg_out := rg_out r @ [i]\<rparr>)"
      by (simp add: thr_run_def isstop_def)
    have "has_turn r i" using i Resumed False by (simp add: has_turn_def)
    with wf have turn: "i = length (rg_out r) mod 3" "\<And>j. \<not> passes_turn r j" "Notify 0 \<notin> set (rg_main r)"
      "rg_out r = map (\<lambda>k. k mod 3) [0..<length (rg_out r)]" "\<And>j. has_turn r j \<Longrightarrow> j = i"
      unfolding turn_wf_def by blast+
    then have "passes_turn r' j \<longleftrightarrow> j = i" "\<not> has_turn r' j" for j
      using i by (auto simp: r' passes_turn_def has_turn_def)
    moreover have "next_ptr i = Suc (length (rg_out r)) mod 3" using turn(1) by (simp add: next_ptr_def mod_Suc_eq)
    ultimately show ?thesis using turn by (auto simp: turn_wf_def r')
  next
    case True
    with Resumed run wf show ?thesis
      by (intro turn_wf_no_change [OF wf]) (auto simp: thr_run_def isstop_def has_turn_def passes_turn_def split: if_splits)
  qed
next
  case Processed
  let ?n = "next_ptr i"
  have r': "r' = thr_notify ?n (set_pc i At_check r)" using Processed run by (simp add: thr_run_def)
  have "passes_turn r i" using i Processed by (simp add: passes_turn_def)
  with wf have turn: "?n = length (rg_out r) mod 3" "\<And>j. \<not> has_turn r j" "Notify 0 \<notin> set (rg_main r)"
    "\<And>j. passes_turn r j \<Longrightarrow> j = i" unfolding turn_wf_def by (metis next_ptr_inj passes_turn_def)+
  have "\<not> passes_turn r' j" for j using turn(4) by (auto simp: r' passes_turn_def split: if_splits)
  moreover have "has_turn r' j \<Longrightarrow> j = ?n" for j using turn(2) [of j] i by (auto simp: r' has_turn_def split: if_splits)
  ultimately show ?thesis using wf turn by (auto simp: turn_wf_def r')
qed (use run in \<open>auto intro!: turn_wf_no_change [OF wf] simp: thr_run_def isstop_def has_turn_def passes_turn_def split: if_splits\<close>)

lemma turn_wf_main:
  assumes wf: "turn_wf r" and reach: "ring_reachable sp r" and run: "main_run r = Some r'"
  shows "turn_wf r'"
proof (cases "rg_main r")
  case (Cons op ops)
  show ?thesis
  proof (cases op)
    case (Notify k)
    have k: "k = 0" using main_suffix [OF reach] Cons Notify by (auto simp: main_script_def Cons_eq_append_conv)
    have r': "r' = thr_notify 0 (r\<lparr>rg_main := ops\<rparr>)" using run Cons Notify k by (simp add: main_run_def)
    have "Notify 0 \<notin> set ops" using main_rest [OF reach Cons] Notify k by simp
    moreover from wf Cons Notify k have "rg_out r = []" "\<And>i. \<not> has_turn r i" "\<And>i. \<not> passes_turn r i"
      unfolding turn_wf_def by simp_all
    ultimately show ?thesis by (auto simp: turn_wf_def r' has_turn_def passes_turn_def split: if_splits)
  qed (use run Cons in \<open>auto intro!: turn_wf_no_change [OF wf] simp: main_run_def thr_create_def thr_stop_def
      thr_join_def Let_def has_turn_def passes_turn_def split: if_splits\<close>)
qed (use run in \<open>simp add: main_run_def\<close>)

lemma ring_turn_wf:
  assumes "ring_reachable False r"
  shows "turn_wf r"
  using assms
proof (induction rule: ring_reachable_induct)
  case init
  show ?case by (simp add: turn_wf_def ring_init_def has_turn_def passes_turn_def)
next
  case (step r r')
  from step(2) show ?case
    by (cases rule: ring_step.cases) (auto intro: turn_wf_thread turn_wf_main step(1,3))
qed

section \<open>Stopping\<close>

text \<open>
  What \<open>main\<close> has done and what the threads know of it. A thread that was told to stop is never
  waiting: its flag is set and the notification sent while it does not hold its mutex.
\<close>

definition stop_wf :: "thread_ring \<Rightarrow> bool" where
  "stop_wf r \<longleftrightarrow>
     (\<forall>i. (i < 3 \<and> Create i \<notin> set (rg_main r)) = (rg_pc r i \<noteq> Not_created)) \<and>
     (\<forall>i < 3. Stop i \<notin> set (rg_main r) \<longrightarrow> rg_stopped r i) \<and>
     (\<forall>i. rg_stopped r i \<longrightarrow> rg_pc r i \<noteq> Waiting) \<and>
     (\<forall>i < 3. Join i \<notin> set (rg_main r) \<longrightarrow> rg_pc r i = Returned) \<and>
     (\<forall>i. rg_pc r i = Returned \<longrightarrow> rg_stopped r i)"

lemma main_op_bound:
  assumes "ring_reachable sp r" and "rg_main r = op # ops"
  shows "op \<in> {Sleep, Notify 0} \<union> Create ` {..<3} \<union> Stop ` {..<3} \<union> Join ` {..<3} \<union> Delete ` {..<3}"
proof -
  have "op \<in> set main_script" using main_suffix [OF assms(1)] assms(2) by (metis in_set_conv_decomp)
  then show ?thesis by (auto simp: main_script_def)
qed

lemma stop_wf_thread:
  assumes wf: "stop_wf r" and i: "i < 3" and run: "thr_run i r = Some r'"
  shows "stop_wf r'"
  using assms unfolding stop_wf_def
  by (cases "rg_pc r i") (auto simp: thr_run_def isstop_def next_ptr_props split: if_splits)

lemma stop_wf_notify: "stop_wf r \<Longrightarrow> stop_wf (thr_notify k r)"
  unfolding stop_wf_def by auto

lemma stop_wf_pop:
  assumes "stop_wf r" and "rg_main r = op # ops" and "op \<notin> range Create \<union> range Stop \<union> range Join"
  shows "stop_wf (r\<lparr>rg_main := ops\<rparr>)"
proof -
  have "f k \<in> set (rg_main r) \<longleftrightarrow> f k \<in> set ops" if "f \<in> {Create, Stop, Join}" for f k
    using assms(2,3) that by auto
  with assms(1) show ?thesis by (simp add: stop_wf_def)
qed

lemma stop_wf_main:
  assumes wf: "stop_wf r" and reach: "ring_reachable sp r" and run: "main_run r = Some r'"
  shows "stop_wf r'"
proof (cases "rg_main r")
  case (Cons op ops)
  have new: "op \<notin> set ops" by (rule main_rest [OF reach Cons])
  have bound: "op \<in> {Sleep, Notify 0} \<union> Create ` {..<3} \<union> Stop ` {..<3} \<union> Join ` {..<3} \<union> Delete ` {..<3}"
    by (rule main_op_bound [OF reach Cons])
  show ?thesis
  proof (cases op)
    case (Create k)
    with run Cons have r': "r' = set_pc k Entering (r\<lparr>rg_main := ops\<rparr>)" by (simp add: main_run_def thr_create_def)
    from wf Cons Create have "rg_pc r k = Not_created" by (auto simp: stop_wf_def)
    with wf Cons Create new bound show ?thesis by (auto simp: stop_wf_def r')
  next
    case (Stop k)
    with run Cons have r': "r' = thr_notify k (r\<lparr>rg_main := ops, rg_stopped := (rg_stopped r)(k := True)\<rparr>)"
      by (simp add: main_run_def thr_stop_def Let_def split: if_splits)
    with wf Cons Stop new bound show ?thesis by (auto simp: stop_wf_def)
  next
    case (Join k)
    with run Cons have "r' = r\<lparr>rg_main := ops\<rparr>" "rg_pc r k = Returned"
      by (simp_all add: main_run_def thr_join_def split: if_splits)
    with wf Cons Join show ?thesis by (auto simp: stop_wf_def)
  qed (use run Cons stop_wf_pop [OF wf Cons] in \<open>auto simp: main_run_def Let_def intro: stop_wf_notify\<close>)
qed (use run in \<open>simp add: main_run_def\<close>)

lemma ring_stop_wf:
  assumes "ring_reachable sp r"
  shows "stop_wf r"
  using assms
proof (induction rule: ring_reachable_induct)
  case init
  have "(i < 3 \<and> Create i \<notin> set main_script) = False" "i < 3 \<Longrightarrow> Stop i \<in> set main_script \<and> Join i \<in> set main_script" for i
    by (auto simp: main_script_def numeral_3_eq_3 less_Suc_eq)
  then show ?case by (auto simp: stop_wf_def ring_init_def)
next
  case (step r r')
  from step(2) show ?case
  proof (cases rule: ring_step.cases)
    case (Ring_spurious i)
    with step(3) show ?thesis by (auto simp: stop_wf_def)
  qed (auto intro: stop_wf_thread stop_wf_main step(1,3))
qed

text \<open>The number of steps each thread still has, once it was told to stop.\<close>

fun stop_rank :: "pc \<Rightarrow> nat" where
  "stop_rank Entering = 2"
| "stop_rank At_check = 1"
| "stop_rank Woken = 2"
| "stop_rank Resumed = 1"
| "stop_rank Processed = 2"
| "stop_rank _ = 0"

definition shutdown_measure :: "thread_ring \<Rightarrow> nat" where
  "shutdown_measure r = stop_rank (rg_pc r 0) + stop_rank (rg_pc r 1) + stop_rank (rg_pc r 2) + length (rg_main r)"

definition all_stopped :: "thread_ring \<Rightarrow> bool" where
  "all_stopped r \<longleftrightarrow> set (rg_main r) \<subseteq> Join ` {..<3} \<union> Delete ` {..<3}"

lemma all_stoppedD:
  assumes "stop_wf r" and "all_stopped r" and "i < 3"
  shows "rg_stopped r i" and "rg_pc r i \<noteq> Waiting" and "rg_pc r i \<noteq> Not_created"
  using assms unfolding stop_wf_def all_stopped_def by auto

lemma shutdown_thread:
  assumes wf: "stop_wf r" and stop: "all_stopped r" and i: "i < 3" and run: "thr_run i r = Some r'"
  shows "all_stopped r' \<and> shutdown_measure r' < shutdown_measure r"
proof -
  note known = all_stoppedD [OF wf stop]
  have n: "rg_pc r (next_ptr i) \<noteq> Waiting" "next_ptr i \<noteq> i" using known(2) next_ptr_props i by blast+
  have main: "rg_main r' = rg_main r" using run by (auto simp: thr_run_def split: pc.splits if_splits)
  have "\<exists>p. rg_pc r' = (rg_pc r)(i := p) \<and> stop_rank p < stop_rank (rg_pc r i)"
    using run known [OF i] n by (cases "rg_pc r i") (auto simp: thr_run_def isstop_def)
  then obtain p where "rg_pc r' = (rg_pc r)(i := p)" "stop_rank p < stop_rank (rg_pc r i)" by blast
  moreover have "i = 0 \<or> i = 1 \<or> i = 2" using i by linarith
  ultimately have "shutdown_measure r' < shutdown_measure r" using main by (auto simp: shutdown_measure_def)
  with main stop show ?thesis by (simp add: all_stopped_def)
qed

lemma shutdown_main:
  assumes stop: "all_stopped r" and run: "main_run r = Some r'"
  shows "all_stopped r' \<and> shutdown_measure r' < shutdown_measure r"
proof (cases "rg_main r")
  case (Cons op ops)
  with stop have "r' = r\<lparr>rg_main := ops\<rparr>"
    using run by (auto simp: all_stopped_def main_run_def thr_join_def split: if_splits)
  with Cons stop show ?thesis by (simp add: all_stopped_def shutdown_measure_def)
qed (use run in \<open>simp add: main_run_def\<close>)

lemma shutdown_progress:
  assumes wf: "stop_wf r" and stop: "all_stopped r" and stuck: "\<And>r'. \<not> ring_step sp r r'"
  shows "rg_main r = [] \<and> (\<forall>i < 3. rg_pc r i = Returned)"
proof -
  have ret: "rg_pc r i = Returned" if "i < 3" for i
  proof (rule ccontr)
    assume "rg_pc r i \<noteq> Returned"
    with all_stoppedD [OF wf stop that] obtain r' where "thr_run i r = Some r'"
      by (cases "rg_pc r i") (auto simp: thr_run_def)
    with that stuck show False by (blast intro: Ring_thread)
  qed
  have "rg_main r = []"
  proof (rule ccontr)
    assume "rg_main r \<noteq> []"
    then obtain op ops where ops: "rg_main r = op # ops" by (cases "rg_main r") auto
    with stop ret have "\<exists>r'. main_run r = Some r'" by (auto simp: all_stopped_def main_run_def thr_join_def)
    with stuck show False by (blast intro: Ring_main)
  qed
  with ret show ?thesis by blast
qed

text \<open>Once told to stop, the program is a system whose every step lowers the measure.\<close>

lemma shutdown_step:
  assumes "stop_wf r" and "all_stopped r" and "ring_step sp r r'"
  shows "all_stopped r' \<and> shutdown_measure r' < shutdown_measure r"
  using assms(3)
proof (cases rule: ring_step.cases)
  case (Ring_spurious i)
  with all_stoppedD(2) [OF assms(1,2)] show ?thesis by blast
qed (use shutdown_thread [OF assms(1,2)] shutdown_main [OF assms(2)] in blast)+

interpretation shutdown: ranked_system "ring_step sp" "\<lambda>r. ring_reachable sp r \<and> all_stopped r" "measure shutdown_measure"
  for sp
proof
  fix r r' assume r: "ring_reachable sp r \<and> all_stopped r" and step: "ring_step sp r r'"
  then have "all_stopped r' \<and> shutdown_measure r' < shutdown_measure r"
    using shutdown_step [of r sp r'] ring_stop_wf [of sp r] by blast
  with r step show "ring_reachable sp r' \<and> all_stopped r'" "(r', r) \<in> measure shutdown_measure"
    by (auto intro: ring_reachable_step)
qed simp

section \<open>A lost notification\<close>

definition turn_lost :: "thread_ring \<Rightarrow> bool" where
  "turn_lost r \<longleftrightarrow> (\<forall>i. \<not> has_turn r i \<and> \<not> passes_turn r i) \<and> (\<forall>i. Notify i \<notin> set (rg_main r))"

lemma turn_lost_thread:
  assumes lost: "turn_lost r" and i: "i < 3" and run: "thr_run i r = Some r'"
  shows "turn_lost r' \<and> rg_out r' = rg_out r"
proof -
  have "\<not> has_turn r i" "\<not> passes_turn r i" using lost by (simp_all add: turn_lost_def)
  with i have "rg_pc r i = Resumed \<longrightarrow> rg_stopped r i" "rg_pc r i = Woken \<longrightarrow> rg_stopped r i" "rg_pc r i \<noteq> Processed"
    by (auto simp: has_turn_def passes_turn_def)
  with lost run i show ?thesis
    by (cases "rg_pc r i") (auto simp: thr_run_def isstop_def turn_lost_def has_turn_def passes_turn_def split: if_splits)
qed

lemma turn_lost_main:
  assumes lost: "turn_lost r" and run: "main_run r = Some r'"
  shows "turn_lost r' \<and> rg_out r' = rg_out r"
proof (cases "rg_main r")
  case (Cons op ops)
  with lost run show ?thesis
    by (cases op) (auto simp: main_run_def thr_create_def thr_stop_def thr_join_def Let_def turn_lost_def
        has_turn_def passes_turn_def split: if_splits)
qed (use run in \<open>simp add: main_run_def\<close>)

lemma turn_lost_forever:
  assumes "(ring_step False)\<^sup>*\<^sup>* r r'" and "turn_lost r"
  shows "turn_lost r' \<and> rg_out r' = rg_out r"
  using assms
proof (induction rule: rtranclp_induct)
  case (step r' r'')
  from step(2) have "turn_lost r'' \<and> rg_out r'' = rg_out r'"
    by (cases rule: ring_step.cases) (use step(3,4) turn_lost_thread turn_lost_main in blast)+
  with step(3,4) show ?case by simp
qed simp

section \<open>Properties\<close>

text \<open>
  C20: The threads print in turn. As long as no condition variable wakes a thread without a
  notification, what has been printed in any interleaving is \<open>a\<close>, \<open>b\<close>, \<open>c\<close> round and round, and no
  two threads are ever at printing at once.
\<close>
theorem ring_prints_in_turn:
  assumes "ring_reachable False r"
  shows "rg_out r = map (\<lambda>k. k mod 3) [0..<length (rg_out r)] \<and>
         (\<forall>i j. i < 3 \<and> j < 3 \<and> \<not> rg_stopped r i \<and> \<not> rg_stopped r j \<and>
            rg_pc r i = Resumed \<and> rg_pc r j = Resumed \<longrightarrow> i = j)"
proof -
  have wf: "turn_wf r" by (rule ring_turn_wf [OF assms])
  then have "i = length (rg_out r) mod 3" if "i < 3" "\<not> rg_stopped r i" "rg_pc r i = Resumed" for i
    using that unfolding turn_wf_def has_turn_def by blast
  with wf show ?thesis unfolding turn_wf_def by metis
qed

text \<open>A run in which every thread waits before it is notified: the states along one schedule.\<close>

text \<open>Who moves next in a schedule: a thread, or \<open>main\<close>.\<close>

fun ring_schedule :: "nat option list \<Rightarrow> thread_ring \<Rightarrow> thread_ring option" where
  "ring_schedule [] r = Some r"
| "ring_schedule (w # ws) r =
     (case (case w of None \<Rightarrow> main_run r | Some i \<Rightarrow> if i < 3 then thr_run i r else None) of
        None \<Rightarrow> None
      | Some r' \<Rightarrow> ring_schedule ws r')"

lemma ring_schedule_reachable:
  assumes "ring_schedule ws r = Some r'" and "ring_reachable sp r"
  shows "ring_reachable sp r'"
  using assms
proof (induction ws arbitrary: r)
  case (Cons w ws)
  then obtain r1 where r1: "(case w of None \<Rightarrow> main_run r | Some i \<Rightarrow> if i < 3 then thr_run i r else None) = Some r1"
    "ring_schedule ws r1 = Some r'" by (auto split: option.splits)
  then have "ring_step sp r r1" by (cases w) (auto intro: Ring_thread Ring_main split: if_splits)
  with Cons r1 show ?case by (blast intro: ring_reachable_step)
qed simp

lemma scheduled: "ring_schedule ws ring_init \<noteq> None \<Longrightarrow> ring_reachable sp (the (ring_schedule ws ring_init))"
  by (rule ring_schedule_reachable [OF _ ring_reachable_init]) simp

definition ready_schedule :: "nat option list" where
  "ready_schedule =
     [None, None, None, Some 0, Some 0, Some 1, Some 1, Some 2, Some 2, None,
      Some 0, Some 0, Some 0, Some 1, Some 1, Some 1, Some 2, Some 2]"

theorem ring_prints_in_turn_witness:
  "rg_out (the (ring_schedule ready_schedule ring_init)) = [0, 1, 2]"
proof -
  have "ring_schedule ready_schedule ring_init \<noteq> None" by code_simp
  then have "ring_reachable False (the (ring_schedule ready_schedule ring_init))"
    by (rule scheduled)
  moreover have "length (rg_out (the (ring_schedule ready_schedule ring_init))) = 3" by code_simp
  ultimately show ?thesis using ring_prints_in_turn [of "the (ring_schedule ready_schedule ring_init)"]
    by (simp add: upt_rec)
qed

text \<open>
  C18: Stopping cannot be missed, and the program ends. Once \<open>main\<close> is past its calls of \<open>stop\<close>, also
  with spurious wakeups, no schedule goes on for ever, and wherever one comes to a standstill every
  thread has returned and \<open>main\<close> has joined them all and deleted the objects; so it can always
  get there. No object is deleted before its thread has returned.
\<close>
theorem ring_shutdown_ends:
  assumes "ring_reachable sp r" and "all_stopped r"
  shows "\<not> (\<exists>f. f 0 = r \<and> (\<forall>n. ring_step sp (f n) (f (Suc n)))) \<and>
         (\<forall>t. (ring_step sp)\<^sup>*\<^sup>* r t \<longrightarrow> (\<forall>u. \<not> ring_step sp t u) \<longrightarrow>
            rg_main t = [] \<and> (\<forall>i < 3. rg_pc t i = Returned)) \<and>
         (\<exists>t. (ring_step sp)\<^sup>*\<^sup>* r t \<and> rg_main t = [] \<and> (\<forall>i < 3. rg_pc t i = Returned)) \<and>
         (\<forall>i < 3. Join i \<notin> set (rg_main r) \<longrightarrow> rg_pc r i = Returned)"
proof -
  have joined: "rg_main t = [] \<and> (\<forall>i < 3. rg_pc t i = Returned)"
    if "(ring_step sp)\<^sup>*\<^sup>* r t" "\<forall>u. \<not> ring_step sp t u" for t
    using shutdown.run_inv [OF that(1)] assms that(2) shutdown_progress [OF ring_stop_wf, of sp t sp] by blast
  moreover have "\<exists>t. (ring_step sp)\<^sup>*\<^sup>* r t \<and> rg_main t = [] \<and> (\<forall>i < 3. rg_pc t i = Returned)"
    using shutdown.run_ends [of sp r] assms joined by blast
  moreover have "\<not> (\<exists>f. f 0 = r \<and> (\<forall>n. ring_step sp (f n) (f (Suc n))))"
    using shutdown.no_infinite_run [of sp] assms by blast
  ultimately show ?thesis using ring_stop_wf [OF assms(1)] unfolding stop_wf_def by blast
qed

definition stopped_schedule :: "nat option list" where
  "stopped_schedule = ready_schedule @ [Some 0, Some 1, Some 2, Some 2, None, None, None, None]"

theorem ring_shutdown_ends_witness:
  "rg_pc (the (ring_schedule stopped_schedule ring_init)) 0 = Woken \<and>
   (\<exists>t. (ring_step True)\<^sup>*\<^sup>* (the (ring_schedule stopped_schedule ring_init)) t \<and> rg_main t = [] \<and> rg_pc t 0 = Returned)"
proof -
  let ?r = "the (ring_schedule stopped_schedule ring_init)"
  have "ring_schedule stopped_schedule ring_init \<noteq> None" by code_simp
  then have reach: "ring_reachable True ?r" by (rule scheduled)
  have "rg_main ?r = [Join 0, Join 1, Join 2, Delete 0, Delete 1, Delete 2]" by code_simp
  then have "all_stopped ?r" by (simp add: all_stopped_def)
  from ring_shutdown_ends [OF reach this]
  have "\<exists>t. (ring_step True)\<^sup>*\<^sup>* ?r t \<and> rg_main t = [] \<and> rg_pc t 0 = Returned" by auto
  moreover have "rg_pc ?r 0 = Woken" by code_simp
  ultimately show ?thesis by blast
qed

text \<open>
  The first notification can be lost. When \<open>main\<close> notifies the first thread before that thread
  waits, then, without spurious wakeups, nothing is ever printed, however the program goes on.
\<close>
lemma ring_notification_lost:
  assumes "ring_reachable False r" and "rg_main r = Notify 0 # ops" and "rg_pc r 0 \<noteq> Waiting"
    and "main_run r = Some r1" and "(ring_step False)\<^sup>*\<^sup>* r1 r2"
  shows "printed r2 = ''Start: '' @ [LF]"
proof -
  have r1: "r1 = r\<lparr>rg_main := ops\<rparr>" using assms(2-4) by (simp add: main_run_def Let_def thr_notify_def)
  have "Notify i \<notin> set ops" for i
    using main_suffix [OF assms(1)] assms(2) by (auto simp: main_script_def Cons_eq_append_conv)
  moreover have "rg_out r = [] \<and> (\<forall>i. \<not> has_turn r i \<and> \<not> passes_turn r i)"
    using ring_turn_wf [OF assms(1)] assms(2) unfolding turn_wf_def by simp
  ultimately have "turn_lost r1" "rg_out r1 = []" by (simp_all add: r1 turn_lost_def has_turn_def passes_turn_def)
  with turn_lost_forever [OF assms(5)] show ?thesis by (simp add: printed_def)
qed

lemma ring_notification_lost_example:
  "printed (the (ring_schedule [None] (the (ring_schedule [None, None, None] ring_init)))) = ''Start: '' @ [LF]"
proof -
  let ?r = "the (ring_schedule [None, None, None] ring_init)"
  have "ring_schedule [None, None, None] ring_init \<noteq> None" by code_simp
  then have "ring_reachable False ?r" by (rule scheduled)
  moreover have main: "rg_main ?r = Notify 0 # drop 4 main_script" "rg_pc ?r 0 \<noteq> Waiting" by code_simp+
  moreover from main have "main_run ?r = ring_schedule [None] ?r" "main_run ?r \<noteq> None"
    by (simp_all add: main_run_def Let_def)
  ultimately show ?thesis using ring_notification_lost [of ?r "drop 4 main_script" "the (main_run ?r)"] by simp
qed

end
