(* ===== verification/SelectLoop.thy ===== *)
theory SelectLoop
  imports Prelude
begin

text \<open>
  \<open>ceph_test/test_select.cc\<close>: a thread that waits with \<open>select\<close> for the pipes of registered handlers
  and calls their callbacks, and the clients that register, unregister and stop it. The thread holds
  the mutex while it copies the descriptors and while it calls the callbacks, but not in \<open>select\<close>;
  the clients wake it through a pipe of its own. The steps of the thread and of any number of
  clients interleave freely. The capacity of a pipe and the descriptors that \<open>pipe2\<close> returned are
  parameters.
\<close>

section \<open>Pipes and handlers\<close>

text \<open>
  \<open>pipe_ocloexc\<close> over the results of \<open>pipe2\<close> and \<open>fcntl\<close>: its result and the ends it closes. Only
  the read end becomes non-blocking.
\<close>

definition pipe_ocloexc :: "int \<Rightarrow> int \<Rightarrow> int \<Rightarrow> int \<Rightarrow> int \<times> int list" where
  "pipe_ocloexc pipe2_ret fcntl_ret rd wr =
     (if pipe2_ret < 0 then (-1, [])
      else if fcntl_ret < 0 then (-1, [wr, rd])
      else (0, []))"

datatype callback = No_callback | Process_callback

record io_handler =
  ih_user :: string
  ih_pipefd :: "int \<times> int"
  ih_callback :: callback

text \<open>The constructor ends the program when it has no pipe; a callback is assigned afterwards.\<close>

definition io_handler_new :: "string \<Rightarrow> int \<Rightarrow> int \<Rightarrow> int \<Rightarrow> int \<Rightarrow> io_handler option" where
  "io_handler_new u pipe2_ret fcntl_ret rd wr =
     (if fst (pipe_ocloexc pipe2_ret fcntl_ret rd wr) < 0 then None
      else Some \<lparr>ih_user = u, ih_pipefd = (rd, wr), ih_callback = No_callback\<rparr>)"

abbreviation read_end :: "io_handler \<Rightarrow> int" where
  "read_end h \<equiv> fst (ih_pipefd h)"

text \<open>\<open>std::map\<close> in key order: \<open>insert\<close> keeps the entry that is there.\<close>

type_synonym mio = "(int \<times> io_handler) list"

fun io_insert :: "int \<Rightarrow> io_handler \<Rightarrow> mio \<Rightarrow> mio" where
  "io_insert k h [] = [(k, h)]"
| "io_insert k h ((k', h') # m) =
     (if k < k' then (k, h) # (k', h') # m
      else if k = k' then (k', h') # m
      else (k', h') # io_insert k h m)"

definition io_erase :: "int \<Rightarrow> mio \<Rightarrow> mio" where
  "io_erase k m = filter (\<lambda>e. fst e \<noteq> k) m"

abbreviation keys :: "mio \<Rightarrow> int set" where
  "keys m \<equiv> fst ` set m"

lemma keys_io_insert [simp]: "keys (io_insert k h m) = insert k (keys m)"
  by (induction k h m rule: io_insert.induct) auto

lemma set_io_insert: "e \<in> set (io_insert k h m) \<Longrightarrow> e = (k, h) \<or> e \<in> set m"
  by (induction k h m rule: io_insert.induct) (auto split: if_splits)

lemma keys_io_erase [simp]: "keys (io_erase k m) = keys m - {k}"
  by (auto simp: io_erase_def)

lemma set_io_erase: "e \<in> set (io_erase k m) \<Longrightarrow> e \<in> set m"
  by (simp add: io_erase_def)

lemma io_insert_sorted:
  "sorted_wrt (<) (map fst m) \<Longrightarrow> sorted_wrt (<) (map fst (io_insert k h m))"
proof (induction k h m rule: io_insert.induct)
  case (2 k h k' h' m)
  have "set (map fst (io_insert k h m)) = insert k (set (map fst m))"
    using keys_io_insert [of k h m] by simp
  with 2 show ?case by auto
qed simp

lemma io_erase_sorted: "sorted_wrt (<) (map fst m) \<Longrightarrow> sorted_wrt (<) (map fst (io_erase k m))"
  by (induction m) (auto simp: io_erase_def)

section \<open>State\<close>

text \<open>
  Where the thread is in \<open>entry\<close>: at the condition of its loop, before the first critical section, in
  \<open>select\<close> with the largest descriptor plus one and the descriptors to wait for, before the second
  critical section with the descriptors that are readable, and in it, with the handlers still to be
  looked at or at its end.
\<close>

datatype entry_pc =
    E_test
  | E_collect
  | E_select int "int set"
  | E_lock "int set"
  | E_call mio "int set"
  | E_clear "int set"
  | E_returned
  | E_crashed

text \<open>What a client still has to do, and where it is inside an operation of the manager.\<close>

datatype client_op =
    Register_fd io_handler
  | Unregister_fd io_handler
  | Stop_loop
  | Write_to io_handler
  | Pause
  | Join_loop

datatype client_pc = C_idle | C_register io_handler | C_signal bool

record client =
  cl_pc :: client_pc
  cl_ops :: "client_op list"

datatype mutex_owner = By_loop | By_client nat

datatype loop_event =
    Ev_registered int
  | Ev_unregistered int
  | Ev_called int bytes
  | Ev_written int bytes

text \<open>\<open>sl_pipes\<close> holds what is in a pipe, by its read end; \<open>sl_log\<close> records what happened.\<close>

record select_loop =
  sl_pc :: entry_pc
  sl_clients :: "client list"
  sl_mtx :: "mutex_owner option"
  sl_stopped :: bool
  sl_map :: mio
  sl_tp :: int
  sl_pipes :: "int \<Rightarrow> bytes"
  sl_log :: "loop_event list"

text \<open>
  After \<open>create\<close>, with the programs of the clients. \<open>stopped\<close> has no initializer in the class; it is
  false because \<open>make_shared\<close> value-initializes the object.
\<close>

definition sl_init :: "int \<Rightarrow> client_op list list \<Rightarrow> select_loop" where
  "sl_init tp ps =
     \<lparr>sl_pc = E_test, sl_clients = map (\<lambda>ops. \<lparr>cl_pc = C_idle, cl_ops = ops\<rparr>) ps, sl_mtx = None,
      sl_stopped = False, sl_map = [], sl_tp = tp, sl_pipes = (\<lambda>_. []), sl_log = []\<rparr>"

text \<open>\<open>create\<close>: without a pipe there is no thread.\<close>

definition tm_create ::
  "int \<Rightarrow> int \<Rightarrow> int \<Rightarrow> int \<Rightarrow> client_op list list \<Rightarrow> int \<times> select_loop option" where
  "tm_create pipe2_ret fcntl_ret rd wr ps =
     (if fst (pipe_ocloexc pipe2_ret fcntl_ret rd wr) < 0 then (-1, None) else (0, Some (sl_init rd ps)))"

section \<open>Operations\<close>

abbreviation set_pipe :: "int \<Rightarrow> bytes \<Rightarrow> select_loop \<Rightarrow> select_loop" where
  "set_pipe fd bs s \<equiv> s\<lparr>sl_pipes := (sl_pipes s)(fd := bs)\<rparr>"

abbreviation log_event :: "loop_event \<Rightarrow> select_loop \<Rightarrow> select_loop" where
  "log_event e s \<equiv> s\<lparr>sl_log := sl_log s @ [e]\<rparr>"

text \<open>A blocking write of a few bytes: \<open>None\<close> where it has to wait for room.\<close>

definition write_pipe :: "nat \<Rightarrow> int \<Rightarrow> bytes \<Rightarrow> select_loop \<Rightarrow> select_loop option" where
  "write_pipe cap fd bs s =
     (if length (sl_pipes s fd) + length bs \<le> cap then Some (set_pipe fd (sl_pipes s fd @ bs) s)
      else None)"

definition signal_thread :: "nat \<Rightarrow> select_loop \<Rightarrow> select_loop option" where
  "signal_thread cap s = write_pipe cap (sl_tp s) (replicate 4 NUL) s"

text \<open>\<open>clear_signal\<close> reads at most 256 bytes and fails on an empty pipe.\<close>

definition clear_signal :: "int \<Rightarrow> select_loop \<Rightarrow> int \<times> select_loop" where
  "clear_signal fd s =
     (if sl_pipes s fd = [] then (-1, s) else (0, set_pipe fd (drop 256 (sl_pipes s fd)) s))"

text \<open>\<open>read\<close> and \<open>process\<close>, the callback; what is read is recorded and printed.\<close>

definition read_fd :: "int \<Rightarrow> select_loop \<Rightarrow> int \<times> select_loop" where
  "read_fd fd s =
     (if sl_pipes s fd = [] then (-1, log_event (Ev_called fd []) s)
      else (0, log_event (Ev_called fd (take 256 (sl_pipes s fd)))
                 (set_pipe fd (drop 256 (sl_pipes s fd)) s)))"

definition process_io :: "io_handler \<Rightarrow> select_loop \<Rightarrow> int \<times> select_loop" where
  "process_io h s = (let (r, s') = read_fd (read_end h) s in (if r < 0 then -1 else 0, s'))"

fun event_text :: "loop_event \<Rightarrow> string" where
  "event_text (Ev_called fd bs) = (if bs = [] then [] else ''Read Data: '' @ bs @ [LF])"
| "event_text _ = []"

definition loop_output :: "select_loop \<Rightarrow> string" where
  "loop_output s = concat (map event_text (sl_log s))"

text \<open>\<open>FD_SET\<close> has a behaviour only below \<open>FD_SETSIZE\<close>.\<close>

definition fd_settable :: "int \<Rightarrow> bool" where
  "fd_settable fd \<longleftrightarrow> 0 \<le> fd \<and> fd < 1024"

text \<open>\<open>maxfd\<close> after the loop over the handlers.\<close>

fun max_fd :: "int \<Rightarrow> mio \<Rightarrow> int" where
  "max_fd m [] = m"
| "max_fd m ((fd, h) # ios) = max_fd (if fd \<ge> m then fd + 1 else m) ios"

text \<open>\<open>select\<close> only looks at the descriptors below its first argument.\<close>

definition readable :: "select_loop \<Rightarrow> int \<Rightarrow> int set \<Rightarrow> int set" where
  "readable s m fds = Set.filter (\<lambda>fd. fd < m \<and> sl_pipes s fd \<noteq> []) fds"

text \<open>
  \<open>entry\<close>, one step of the thread. The argument is what \<open>select\<close> gives: a non-empty part of what is
  readable, or an error. \<open>None\<close> where the thread blocks or has returned. An exception of an empty
  callback and a descriptor out of range end the program.
\<close>

definition entry_step :: "int set option \<Rightarrow> select_loop \<Rightarrow> select_loop option" where
  "entry_step sel s =
     (case sl_pc s of
        E_test \<Rightarrow>
          Some (if \<not> sl_stopped s \<or> sl_map s \<noteq> [] then s\<lparr>sl_pc := E_collect\<rparr>
                else s\<lparr>sl_pc := E_returned\<rparr>)
      | E_collect \<Rightarrow>
          (if sl_mtx s = None
           then Some (if fd_settable (sl_tp s) \<and> list_all (\<lambda>e. fd_settable (fst e)) (sl_map s)
                      then s\<lparr>sl_pc := E_select (max_fd (sl_tp s + 1) (sl_map s))
                                              (insert (sl_tp s) (keys (sl_map s)))\<rparr>
                      else s\<lparr>sl_pc := E_crashed\<rparr>)
           else None)
      | E_select m fds \<Rightarrow>
          (case sel of
             None \<Rightarrow> Some (s\<lparr>sl_pc := E_returned\<rparr>)
           | Some r \<Rightarrow> (if r \<noteq> {} \<and> r \<subseteq> readable s m fds then Some (s\<lparr>sl_pc := E_lock r\<rparr>) else None))
      | E_lock r \<Rightarrow>
          (if sl_mtx s = None then Some (s\<lparr>sl_mtx := Some By_loop, sl_pc := E_call (sl_map s) r\<rparr>)
           else None)
      | E_call [] r \<Rightarrow> Some (s\<lparr>sl_pc := E_clear r\<rparr>)
      | E_call ((fd, h) # ios) r \<Rightarrow>
          Some (if fd \<notin> r then s\<lparr>sl_pc := E_call ios r\<rparr>
                else case ih_callback h of
                  No_callback \<Rightarrow> s\<lparr>sl_pc := E_crashed\<rparr>
                | Process_callback \<Rightarrow> (snd (process_io h s))\<lparr>sl_pc := E_call ios r\<rparr>)
      | E_clear r \<Rightarrow>
          Some ((if sl_tp s \<in> r then snd (clear_signal (sl_tp s) s) else s)\<lparr>sl_mtx := None, sl_pc := E_test\<rparr>)
      | E_returned \<Rightarrow> None
      | E_crashed \<Rightarrow> None)"

text \<open>
  The operations of the clients. \<open>register_fd\<close> looks at \<open>stopped\<close> before it waits for the mutex, and
  \<open>register_fd\<close> and \<open>unregister_fd\<close> write their signal while they hold it.
\<close>

abbreviation set_client :: "nat \<Rightarrow> client_pc \<Rightarrow> client_op list \<Rightarrow> select_loop \<Rightarrow> select_loop" where
  "set_client i p ops s \<equiv> s\<lparr>sl_clients := (sl_clients s)[i := \<lparr>cl_pc = p, cl_ops = ops\<rparr>]\<rparr>"

definition register_fd :: "nat \<Rightarrow> io_handler \<Rightarrow> client_op list \<Rightarrow> select_loop \<Rightarrow> select_loop" where
  "register_fd i h ops s =
     (if sl_stopped s then set_client i C_idle ops s else set_client i (C_register h) ops s)"

definition register_locked :: "nat \<Rightarrow> io_handler \<Rightarrow> client_op list \<Rightarrow> select_loop \<Rightarrow> select_loop option" where
  "register_locked i h ops s =
     (if sl_mtx s = None
      then Some (log_event (Ev_registered (read_end h)) (set_client i (C_signal True) ops
             (s\<lparr>sl_mtx := Some (By_client i), sl_map := io_insert (read_end h) h (sl_map s)\<rparr>)))
      else None)"

definition unregister_fd :: "nat \<Rightarrow> io_handler \<Rightarrow> client_op list \<Rightarrow> select_loop \<Rightarrow> select_loop option" where
  "unregister_fd i h ops s =
     (if sl_mtx s = None
      then Some (log_event (Ev_unregistered (read_end h)) (set_client i (C_signal True) ops
             (s\<lparr>sl_mtx := Some (By_client i), sl_map := io_erase (read_end h) (sl_map s)\<rparr>)))
      else None)"

definition stop_loop :: "nat \<Rightarrow> client_op list \<Rightarrow> select_loop \<Rightarrow> select_loop" where
  "stop_loop i ops s =
     (if sl_stopped s then set_client i C_idle ops s
      else set_client i (C_signal False) ops (s\<lparr>sl_stopped := True\<rparr>))"

text \<open>The end of an operation: the signal, and the release of the mutex if it is held.\<close>

definition finish_signal :: "nat \<Rightarrow> nat \<Rightarrow> bool \<Rightarrow> client_op list \<Rightarrow> select_loop \<Rightarrow> select_loop option" where
  "finish_signal cap i locked ops s =
     (case signal_thread cap s of
        None \<Rightarrow> None
      | Some s' \<Rightarrow> Some (set_client i C_idle ops (if locked then s'\<lparr>sl_mtx := None\<rparr> else s')))"

text \<open>\<open>test\<close> copies the name into an array of 256 characters and writes it to the pipe.\<close>

definition test_write :: "nat \<Rightarrow> nat \<Rightarrow> io_handler \<Rightarrow> client_op list \<Rightarrow> select_loop \<Rightarrow> select_loop option" where
  "test_write cap i h ops s =
     (if length (ih_user h) > 256 then Some (s\<lparr>sl_pc := E_crashed\<rparr>)
      else case write_pipe cap (read_end h) (ih_user h) s of
        None \<Rightarrow> None
      | Some s' \<Rightarrow> Some (log_event (Ev_written (read_end h) (ih_user h)) (set_client i C_idle ops s')))"

definition join_loop :: "nat \<Rightarrow> client_op list \<Rightarrow> select_loop \<Rightarrow> select_loop option" where
  "join_loop i ops s = (if sl_pc s = E_returned then Some (set_client i C_idle ops s) else None)"

definition client_step :: "nat \<Rightarrow> nat \<Rightarrow> select_loop \<Rightarrow> select_loop option" where
  "client_step cap i s =
     (if sl_pc s = E_crashed then None
      else let ops = cl_ops (sl_clients s ! i) in
      case cl_pc (sl_clients s ! i) of
        C_signal locked \<Rightarrow> finish_signal cap i locked ops s
      | C_register h \<Rightarrow> register_locked i h ops s
      | C_idle \<Rightarrow>
          (case ops of
             [] \<Rightarrow> None
           | Register_fd h # ops' \<Rightarrow> Some (register_fd i h ops' s)
           | Unregister_fd h # ops' \<Rightarrow> unregister_fd i h ops' s
           | Stop_loop # ops' \<Rightarrow> Some (stop_loop i ops' s)
           | Write_to h # ops' \<Rightarrow> test_write cap i h ops' s
           | Pause # ops' \<Rightarrow> Some (set_client i C_idle ops' s)
           | Join_loop # ops' \<Rightarrow> join_loop i ops' s))"

text \<open>The flag permits \<open>select\<close> to fail.\<close>

inductive sl_step :: "nat \<Rightarrow> bool \<Rightarrow> select_loop \<Rightarrow> select_loop \<Rightarrow> bool" for cap :: nat and fails :: bool where
  Sl_loop: "entry_step sel s = Some s' \<Longrightarrow> fails \<or> sel \<noteq> None \<Longrightarrow> sl_step cap fails s s'"
| Sl_client: "i < length (sl_clients s) \<Longrightarrow> client_step cap i s = Some s' \<Longrightarrow> sl_step cap fails s s'"

inductive_cases sl_stepE: "sl_step cap fails s s'"

text \<open>\<open>main\<close> of the file.\<close>

definition select_main :: "io_handler \<Rightarrow> io_handler \<Rightarrow> io_handler \<Rightarrow> client_op list" where
  "select_main io1 io2 io3 =
     [Register_fd io1, Register_fd io2, Register_fd io3, Write_to io1, Write_to io3, Write_to io2, Pause,
      Unregister_fd io1, Unregister_fd io2, Unregister_fd io3, Stop_loop, Join_loop]"

section \<open>The effects of the steps\<close>

lemma process_io_effect:
  "snd (process_io h s) =
     s\<lparr>sl_pipes := (sl_pipes s)(read_end h := drop 256 (sl_pipes s (read_end h))),
       sl_log := sl_log s @ [Ev_called (read_end h) (take 256 (sl_pipes s (read_end h)))]\<rparr>"
proof -
  have "(sl_pipes s)(read_end h := []) = sl_pipes s" if "sl_pipes s (read_end h) = []"
    using that by (metis fun_upd_triv)
  then show ?thesis by (simp add: process_io_def read_fd_def Let_def)
qed

lemma clear_signal_effect: "snd (clear_signal fd s) = set_pipe fd (drop 256 (sl_pipes s fd)) s"
  by (cases "sl_pipes s fd = []") (simp_all add: clear_signal_def fun_upd_idem)

lemma write_pipe_effect:
  "write_pipe cap fd bs s = Some s' \<longleftrightarrow>
     length (sl_pipes s fd) + length bs \<le> cap \<and> s' = set_pipe fd (sl_pipes s fd @ bs) s"
  by (auto simp: write_pipe_def)

lemma finish_signal_effect:
  "finish_signal cap i locked ops s = Some s' \<longleftrightarrow>
     length (sl_pipes s (sl_tp s)) + 4 \<le> cap \<and>
     s' = set_client i C_idle ops
            (set_pipe (sl_tp s) (sl_pipes s (sl_tp s) @ replicate 4 NUL)
              (s\<lparr>sl_mtx := if locked then None else sl_mtx s\<rparr>))"
  by (auto simp: finish_signal_def signal_thread_def write_pipe_def)

lemma test_write_effect:
  "length (ih_user h) \<le> 256 \<Longrightarrow>
   test_write cap i h ops s = Some s' \<longleftrightarrow>
     length (sl_pipes s (read_end h)) + length (ih_user h) \<le> cap \<and>
     s' = log_event (Ev_written (read_end h) (ih_user h)) (set_client i C_idle ops
            (set_pipe (read_end h) (sl_pipes s (read_end h) @ ih_user h) s))"
  by (auto simp: test_write_def write_pipe_def)

lemma snd_process_io_sel [simp]:
  "sl_clients (snd (process_io h s)) = sl_clients s" "sl_mtx (snd (process_io h s)) = sl_mtx s"
  "sl_stopped (snd (process_io h s)) = sl_stopped s" "sl_map (snd (process_io h s)) = sl_map s"
  "sl_tp (snd (process_io h s)) = sl_tp s"
  "sl_pipes (snd (process_io h s)) =
     (sl_pipes s)(read_end h := drop 256 (sl_pipes s (read_end h)))"
  "sl_log (snd (process_io h s)) =
     sl_log s @ [Ev_called (read_end h) (take 256 (sl_pipes s (read_end h)))]"
  by (simp_all add: process_io_effect)

lemma max_fd_ge: "m \<le> max_fd m ios"
  by (induction m ios rule: max_fd.induct) (auto intro: order_trans [rotated])

lemma max_fd_above: "fd \<in> keys ios \<Longrightarrow> fd < max_fd m ios"
proof (induction m ios rule: max_fd.induct)
  case (2 m fd' h ios)
  then show ?case using max_fd_ge [of "if fd' \<ge> m then fd' + 1 else m" ios] by (auto split: if_splits)
qed simp

section \<open>What a client may do\<close>

text \<open>
  Handlers as \<open>main\<close> makes them: with a callback, a pipe of their own with a descriptor that
  \<open>FD_SET\<close> takes, and a name that the array of \<open>test\<close> has room for.
\<close>

definition handler_ok :: "int \<Rightarrow> io_handler \<Rightarrow> bool" where
  "handler_ok tp h \<longleftrightarrow>
     ih_callback h = Process_callback \<and> fd_settable (read_end h) \<and> read_end h \<noteq> tp \<and>
     length (ih_user h) \<le> 256"

fun op_ok :: "int \<Rightarrow> client_op \<Rightarrow> bool" where
  "op_ok tp (Register_fd h) \<longleftrightarrow> handler_ok tp h"
| "op_ok tp (Unregister_fd h) \<longleftrightarrow> handler_ok tp h"
| "op_ok tp (Write_to h) \<longleftrightarrow> handler_ok tp h"
| "op_ok tp _ \<longleftrightarrow> True"

fun pc_ok :: "int \<Rightarrow> client_pc \<Rightarrow> bool" where
  "pc_ok tp (C_register h) \<longleftrightarrow> handler_ok tp h"
| "pc_ok tp _ \<longleftrightarrow> True"

definition client_ok :: "int \<Rightarrow> client \<Rightarrow> bool" where
  "client_ok tp c \<longleftrightarrow> pc_ok tp (cl_pc c) \<and> (\<forall>op \<in> set (cl_ops c). op_ok tp op)"

text \<open>The bytes a client can still write into any one pipe.\<close>

fun op_cost :: "client_op \<Rightarrow> nat" where
  "op_cost (Register_fd h) = 4"
| "op_cost (Unregister_fd h) = 4"
| "op_cost Stop_loop = 4"
| "op_cost (Write_to h) = length (ih_user h)"
| "op_cost _ = 0"

definition client_cost :: "client \<Rightarrow> nat" where
  "client_cost c = (if cl_pc c = C_idle then 0 else 4) + (\<Sum>op \<leftarrow> cl_ops c. op_cost op)"

definition total_cost :: "client list \<Rightarrow> nat" where
  "total_cost cs = (\<Sum>c \<leftarrow> cs. client_cost c)"

text \<open>
  An orderly program unregisters what it registers, and joins the thread only at its end.
\<close>

fun closes :: "client_op list \<Rightarrow> bool" where
  "closes [] \<longleftrightarrow> True"
| "closes (Register_fd h # ops) \<longleftrightarrow>
     (\<exists>h'. Unregister_fd h' \<in> set ops \<and> read_end h' = read_end h) \<and> closes ops"
| "closes (Join_loop # ops) \<longleftrightarrow> ops = []"
| "closes (_ # ops) \<longleftrightarrow> closes ops"

section \<open>The invariant\<close>

fun loop_holds :: "entry_pc \<Rightarrow> bool" where
  "loop_holds (E_call ios r) \<longleftrightarrow> True"
| "loop_holds (E_clear r) \<longleftrightarrow> True"
| "loop_holds _ \<longleftrightarrow> False"

definition client_holds :: "client list \<Rightarrow> nat \<Rightarrow> bool" where
  "client_holds cs i \<longleftrightarrow> i < length cs \<and> cl_pc (cs ! i) = C_signal True"

definition mtx_wf :: "select_loop \<Rightarrow> bool" where
  "mtx_wf s \<longleftrightarrow>
     (sl_mtx s = Some By_loop \<longleftrightarrow> loop_holds (sl_pc s)) \<and>
     (\<forall>i. sl_mtx s = Some (By_client i) \<longleftrightarrow> client_holds (sl_clients s) i)"

definition map_wf :: "select_loop \<Rightarrow> bool" where
  "map_wf s \<longleftrightarrow>
     sorted_wrt (<) (map fst (sl_map s)) \<and> fd_settable (sl_tp s) \<and>
     (\<forall>(fd, h) \<in> set (sl_map s). fd = read_end h \<and> handler_ok (sl_tp s) h) \<and>
     (\<forall>c \<in> set (sl_clients s). client_ok (sl_tp s) c)"

definition pc_wf :: "select_loop \<Rightarrow> bool" where
  "pc_wf s \<longleftrightarrow>
     (case sl_pc s of
        E_select m fds \<Rightarrow> sl_tp s \<in> fds \<and> (\<forall>fd \<in> fds. fd < m)
      | E_call ios r \<Rightarrow> (\<exists>pre. sl_map s = pre @ ios)
      | E_crashed \<Rightarrow> False
      | _ \<Rightarrow> True)"

definition signalling :: "client \<Rightarrow> bool" where
  "signalling c = (case cl_pc c of C_signal _ \<Rightarrow> True | _ \<Rightarrow> False)"

text \<open>No wakeup is lost: a thread that could go home finds a signal in its pipe, or one is coming.\<close>

definition wake_wf :: "select_loop \<Rightarrow> bool" where
  "wake_wf s \<longleftrightarrow>
     (sl_stopped s \<and> sl_map s = [] \<longrightarrow>
      sl_pc s \<in> {E_test, E_returned} \<or> sl_pipes s (sl_tp s) \<noteq> [] \<or>
      (\<exists>c \<in> set (sl_clients s). signalling c))"

definition room_wf :: "nat \<Rightarrow> select_loop \<Rightarrow> bool" where
  "room_wf cap s \<longleftrightarrow> (\<forall>fd. length (sl_pipes s fd) + total_cost (sl_clients s) \<le> cap)"

section \<open>The steps keep the invariant\<close>

text \<open>The cases of a step of the thread and of a client.\<close>

lemma entry_step_cases [consumes 1]:
  assumes "entry_step sel s = Some s'"
  obtains (Again) "sl_pc s = E_test" "\<not> sl_stopped s \<or> sl_map s \<noteq> []" "s' = s\<lparr>sl_pc := E_collect\<rparr>"
  | (Return) "sl_pc s = E_test" "sl_stopped s" "sl_map s = []" "s' = s\<lparr>sl_pc := E_returned\<rparr>"
  | (Collect) "sl_pc s = E_collect" "sl_mtx s = None"
      "s' = s\<lparr>sl_pc := E_select (max_fd (sl_tp s + 1) (sl_map s)) (insert (sl_tp s) (keys (sl_map s)))\<rparr>"
  | (Bad_descriptor) "sl_pc s = E_collect"
      "\<not> (fd_settable (sl_tp s) \<and> list_all (\<lambda>e. fd_settable (fst e)) (sl_map s))"
      "s' = s\<lparr>sl_pc := E_crashed\<rparr>"
  | (Fail) m fds where "sl_pc s = E_select m fds" "sel = None" "s' = s\<lparr>sl_pc := E_returned\<rparr>"
  | (Ready) m fds r where "sl_pc s = E_select m fds" "sel = Some r" "r \<noteq> {}" "r \<subseteq> readable s m fds"
      "s' = s\<lparr>sl_pc := E_lock r\<rparr>"
  | (Lock) r where "sl_pc s = E_lock r" "sl_mtx s = None"
      "s' = s\<lparr>sl_mtx := Some By_loop, sl_pc := E_call (sl_map s) r\<rparr>"
  | (Pass) fd h ios r where "sl_pc s = E_call ((fd, h) # ios) r" "fd \<notin> r" "s' = s\<lparr>sl_pc := E_call ios r\<rparr>"
  | (Empty_callback) fd h ios r where "sl_pc s = E_call ((fd, h) # ios) r" "ih_callback h = No_callback"
      "s' = s\<lparr>sl_pc := E_crashed\<rparr>"
  | (Call) fd h ios r where "sl_pc s = E_call ((fd, h) # ios) r" "fd \<in> r" "ih_callback h = Process_callback"
      "s' = (snd (process_io h s))\<lparr>sl_pc := E_call ios r\<rparr>"
  | (All_called) r where "sl_pc s = E_call [] r" "s' = s\<lparr>sl_pc := E_clear r\<rparr>"
  | (Clear) r where "sl_pc s = E_clear r"
      "s' = (if sl_tp s \<in> r then set_pipe (sl_tp s) (drop 256 (sl_pipes s (sl_tp s))) s else s)
              \<lparr>sl_mtx := None, sl_pc := E_test\<rparr>"
proof (cases "sl_pc s")
  case E_test
  then show ?thesis using assms that(1,2) by (simp add: entry_step_def split: if_splits)
next
  case E_collect
  then show ?thesis using assms that(3,4) by (simp add: entry_step_def split: if_splits)
next
  case (E_select m fds)
  then show ?thesis using assms that(5,6) by (simp add: entry_step_def split: if_splits option.splits)
next
  case (E_lock r)
  then show ?thesis using assms that(7) by (simp add: entry_step_def split: if_splits)
next
  case (E_call ios r)
  show ?thesis
  proof (cases ios)
    case Nil
    with E_call show ?thesis using assms that(11) by (simp add: entry_step_def)
  next
    case (Cons e ios')
    obtain fd h where "e = (fd, h)" by fastforce
    with Cons E_call show ?thesis
      using assms that(8,9,10) by (simp add: entry_step_def split: if_splits callback.splits)
  qed
next
  case (E_clear r)
  then show ?thesis using assms that(12) by (simp add: entry_step_def clear_signal_effect split: if_splits)
next
  case E_returned
  then show ?thesis using assms by (simp add: entry_step_def)
next
  case E_crashed
  then show ?thesis using assms by (simp add: entry_step_def)
qed

lemma client_step_cases [consumes 2]:
  assumes "client_step cap i s = Some s'" and "client_ok tp (sl_clients s ! i)"
  obtains (Refused) h ops where "sl_clients s ! i = \<lparr>cl_pc = C_idle, cl_ops = Register_fd h # ops\<rparr>"
      "sl_stopped s" "s' = set_client i C_idle ops s"
  | (Register) h ops where "sl_clients s ! i = \<lparr>cl_pc = C_idle, cl_ops = Register_fd h # ops\<rparr>"
      "s' = set_client i (C_register h) ops s"
  | (Registered) h ops where "sl_clients s ! i = \<lparr>cl_pc = C_register h, cl_ops = ops\<rparr>" "sl_mtx s = None"
      "s' = log_event (Ev_registered (read_end h)) (set_client i (C_signal True) ops
             (s\<lparr>sl_mtx := Some (By_client i), sl_map := io_insert (read_end h) h (sl_map s)\<rparr>))"
  | (Unregister) h ops where "sl_clients s ! i = \<lparr>cl_pc = C_idle, cl_ops = Unregister_fd h # ops\<rparr>"
      "sl_mtx s = None"
      "s' = log_event (Ev_unregistered (read_end h)) (set_client i (C_signal True) ops
             (s\<lparr>sl_mtx := Some (By_client i), sl_map := io_erase (read_end h) (sl_map s)\<rparr>))"
  | (Stopped) ops where "sl_clients s ! i = \<lparr>cl_pc = C_idle, cl_ops = Stop_loop # ops\<rparr>" "sl_stopped s"
      "s' = set_client i C_idle ops s"
  | (Stop) ops where "sl_clients s ! i = \<lparr>cl_pc = C_idle, cl_ops = Stop_loop # ops\<rparr>"
      "s' = set_client i (C_signal False) ops (s\<lparr>sl_stopped := True\<rparr>)"
  | (Write) h ops where "sl_clients s ! i = \<lparr>cl_pc = C_idle, cl_ops = Write_to h # ops\<rparr>"
      "length (sl_pipes s (read_end h)) + length (ih_user h) \<le> cap"
      "s' = log_event (Ev_written (read_end h) (ih_user h)) (set_client i C_idle ops
            (set_pipe (read_end h) (sl_pipes s (read_end h) @ ih_user h) s))"
  | (Pause) ops where "sl_clients s ! i = \<lparr>cl_pc = C_idle, cl_ops = Pause # ops\<rparr>"
      "s' = set_client i C_idle ops s"
  | (Join) ops where "sl_clients s ! i = \<lparr>cl_pc = C_idle, cl_ops = Join_loop # ops\<rparr>"
      "sl_pc s = E_returned" "s' = set_client i C_idle ops s"
  | (Signal) locked ops where "sl_clients s ! i = \<lparr>cl_pc = C_signal locked, cl_ops = ops\<rparr>"
      "length (sl_pipes s (sl_tp s)) + 4 \<le> cap"
      "s' = set_client i C_idle ops
            (set_pipe (sl_tp s) (sl_pipes s (sl_tp s) @ replicate 4 NUL)
              (s\<lparr>sl_mtx := if locked then None else sl_mtx s\<rparr>))"
proof -
  obtain p ops where c: "sl_clients s ! i = \<lparr>cl_pc = p, cl_ops = ops\<rparr>" by (cases "sl_clients s ! i") auto
  have run: "sl_pc s \<noteq> E_crashed" using assms(1) by (auto simp: client_step_def)
  show ?thesis
  proof (cases p)
    case C_idle
    show ?thesis
    proof (cases ops)
      case Nil
      with C_idle c run show ?thesis using assms(1) by (simp add: client_step_def Let_def)
    next
      case (Cons op ops')
      note [simp] = C_idle Cons c run
      show ?thesis
      proof (cases op)
        case (Register_fd h)
        then show ?thesis
          using assms(1) that(1,2) by (simp add: client_step_def register_fd_def split: if_splits)
      next
        case (Unregister_fd h)
        then show ?thesis
          using assms(1) that(4) by (simp add: client_step_def unregister_fd_def split: if_splits)
      next
        case Stop_loop
        then show ?thesis
          using assms(1) that(5,6) by (simp add: client_step_def stop_loop_def split: if_splits)
      next
        case (Write_to h)
        then have "length (ih_user h) \<le> 256" using assms(2) by (simp add: client_ok_def handler_ok_def)
        with Write_to show ?thesis
          using assms(1) that(7) by (simp add: client_step_def test_write_effect)
      next
        case Pause
        then show ?thesis using assms(1) that(8) by (simp add: client_step_def)
      next
        case Join_loop
        then show ?thesis
          using assms(1) that(9) by (simp add: client_step_def join_loop_def split: if_splits)
      qed
    qed
  next
    case (C_register h)
    with c run show ?thesis
      using assms(1) that(3) by (simp add: client_step_def register_locked_def split: if_splits)
  next
    case (C_signal locked)
    with c run show ?thesis
      using assms(1) that(10) by (simp add: client_step_def finish_signal_effect)
  qed
qed

text \<open>At a handler the thread looks at, the callback is there.\<close>

lemma called_handler:
  assumes "map_wf s" and "pc_wf s" and "sl_pc s = E_call ((fd, h) # ios) r"
  shows "fd = read_end h" "handler_ok (sl_tp s) h" "fd \<in> keys (sl_map s)"
proof -
  have "(fd, h) \<in> set (sl_map s)" using assms(2,3) by (auto simp: pc_wf_def)
  with assms(1) show "fd = read_end h" "handler_ok (sl_tp s) h" "fd \<in> keys (sl_map s)"
    by (force simp: map_wf_def)+
qed

lemma not_empty_callback:
  assumes "map_wf s" and "pc_wf s" and "sl_pc s = E_call ((fd, h) # ios) r"
  shows "ih_callback h \<noteq> No_callback"
  using called_handler(2) [OF assms] by (simp add: handler_ok_def)

lemma all_settable:
  assumes "map_wf s"
  shows "fd_settable (sl_tp s) \<and> list_all (\<lambda>e. fd_settable (fst e)) (sl_map s)"
  using assms unfolding map_wf_def list_all_iff by (fastforce simp: handler_ok_def)

lemma map_wf_client: "map_wf s \<Longrightarrow> i < length (sl_clients s) \<Longrightarrow> client_ok (sl_tp s) (sl_clients s ! i)"
  by (simp add: map_wf_def)

lemma mtx_wf_same:
  assumes "mtx_wf s" and "sl_mtx s' = sl_mtx s" and "loop_holds (sl_pc s') = loop_holds (sl_pc s)"
    and "sl_clients s' = sl_clients s"
  shows "mtx_wf s'"
  using assms by (simp add: mtx_wf_def)

lemma mtx_entry:
  assumes "mtx_wf s" and "map_wf s" and "pc_wf s" and "entry_step sel s = Some s'"
  shows "mtx_wf s'"
  using assms(4)
proof (cases rule: entry_step_cases)
  case (Empty_callback fd h ios r)
  with not_empty_callback [OF assms(2,3)] show ?thesis by blast
next
  case (Clear r)
  then have "sl_mtx s = Some By_loop" using assms(1) by (simp add: mtx_wf_def)
  then have "\<not> client_holds (sl_clients s) i" for i using assms(1) unfolding mtx_wf_def by fastforce
  with Clear show ?thesis by (simp add: mtx_wf_def)
next
  case (Lock r)
  then have "\<not> client_holds (sl_clients s) i" for i using assms(1) unfolding mtx_wf_def by fastforce
  with Lock show ?thesis by (simp add: mtx_wf_def)
next
  case (Bad_descriptor)
  with all_settable [OF assms(2)] show ?thesis by blast
qed (rule mtx_wf_same [OF assms(1)]; simp)+

text \<open>The client holds the mutex before or after its step, or neither.\<close>

lemma client_holds_update:
  "i < length cs \<Longrightarrow>
   client_holds (cs[i := c]) j \<longleftrightarrow> (if i = j then cl_pc c = C_signal True else client_holds cs j)"
  by (simp add: client_holds_def nth_list_update)

lemma mtx_client_free:
  assumes "mtx_wf s" and "i < length (sl_clients s)"
    and "cl_pc (sl_clients s ! i) \<noteq> C_signal True" and "p \<noteq> C_signal True"
    and "sl_clients s' = (sl_clients s)[i := \<lparr>cl_pc = p, cl_ops = ops\<rparr>]" "sl_pc s' = sl_pc s" "sl_mtx s' = sl_mtx s"
  shows "mtx_wf s'"
proof -
  have "client_holds (sl_clients s') j = client_holds (sl_clients s) j" for j
    using assms(2-5) by (auto simp: client_holds_update) (auto simp: client_holds_def)
  with assms(1,6,7) show ?thesis by (simp add: mtx_wf_def)
qed

lemma mtx_client_acquire:
  assumes "mtx_wf s" and "i < length (sl_clients s)" and "sl_mtx s = None"
    and "sl_clients s' = (sl_clients s)[i := \<lparr>cl_pc = C_signal True, cl_ops = ops\<rparr>]" "sl_pc s' = sl_pc s"
    and "sl_mtx s' = Some (By_client i)"
  shows "mtx_wf s'"
proof -
  have "\<not> client_holds (sl_clients s) j" for j using assms(1,3) unfolding mtx_wf_def by fastforce
  then have "client_holds (sl_clients s') j \<longleftrightarrow> j = i" for j
    using assms(2,4) by (simp add: client_holds_update)
  with assms show ?thesis by (auto simp: mtx_wf_def)
qed

lemma mtx_client_release:
  assumes "mtx_wf s" and "i < length (sl_clients s)" and "cl_pc (sl_clients s ! i) = C_signal True"
    and "sl_clients s' = (sl_clients s)[i := \<lparr>cl_pc = C_idle, cl_ops = ops\<rparr>]" "sl_pc s' = sl_pc s"
    and "sl_mtx s' = None"
  shows "mtx_wf s'"
proof -
  have mtx: "sl_mtx s = Some (By_client i)" using assms(1-3) by (simp add: mtx_wf_def client_holds_def)
  then have "client_holds (sl_clients s) j \<Longrightarrow> j = i" for j using assms(1) by (auto simp: mtx_wf_def)
  then have "\<not> client_holds (sl_clients s') j" for j
    using assms(2,4) by (auto simp: client_holds_update)
  moreover have "\<not> loop_holds (sl_pc s)" using assms(1) mtx unfolding mtx_wf_def by fastforce
  ultimately show ?thesis using assms(5,6) by (simp add: mtx_wf_def)
qed

lemma mtx_client:
  assumes wf: "mtx_wf s" and i: "i < length (sl_clients s)" and "client_step cap i s = Some s'"
    and "client_ok tp (sl_clients s ! i)"
  shows "mtx_wf s'"
  using assms(3,4)
proof (cases rule: client_step_cases)
  case (Registered h ops)
  then show ?thesis by (intro mtx_client_acquire [OF wf i]) simp_all
next
  case (Unregister h ops)
  then show ?thesis by (intro mtx_client_acquire [OF wf i]) simp_all
next
  case (Signal locked ops)
  show ?thesis
  proof (cases locked)
    case True
    with Signal show ?thesis by (intro mtx_client_release [OF wf i]) simp_all
  next
    case False
    with Signal show ?thesis by (intro mtx_client_free [OF wf i, of C_idle]) simp_all
  qed
qed (rule mtx_client_free [OF wf i]; simp)+

lemma map_entry:
  assumes "map_wf s" and "entry_step sel s = Some s'"
  shows "map_wf s'"
  using assms(2,1) by (cases rule: entry_step_cases) (simp_all add: map_wf_def)

lemma client_ok_update:
  "\<forall>c \<in> set cs. client_ok tp c \<Longrightarrow> client_ok tp c' \<Longrightarrow> \<forall>c \<in> set (cs[i := c']). client_ok tp c"
  using set_update_subset_insert [of cs i c'] by blast

lemma map_client:
  assumes wf: "map_wf s" and i: "i < length (sl_clients s)" and "client_step cap i s = Some s'"
  shows "map_wf s'"
proof -
  have ok: "client_ok (sl_tp s) (sl_clients s ! i)" by (rule map_wf_client [OF wf i])
  have cs: "\<forall>c \<in> set (sl_clients s). client_ok (sl_tp s) c" using wf by (simp add: map_wf_def)
  note upd = client_ok_update [OF cs]
  from assms(3) ok show ?thesis
  proof (cases rule: client_step_cases)
    case (Registered h ops)
    with wf ok show ?thesis
      by (auto simp: map_wf_def client_ok_def io_insert_sorted dest!: set_io_insert set_update_subset_insert [THEN subsetD])
  next
    case (Unregister h ops)
    with wf ok show ?thesis
      by (auto simp: map_wf_def client_ok_def io_erase_sorted dest!: set_io_erase set_update_subset_insert [THEN subsetD])
  qed (use wf ok in \<open>auto simp: map_wf_def client_ok_def dest!: set_update_subset_insert [THEN subsetD]\<close>)
qed

lemma pc_entry:
  assumes "map_wf s" and "pc_wf s" and "entry_step sel s = Some s'"
  shows "pc_wf s'"
  using assms(3)
proof (cases rule: entry_step_cases)
  case Collect
  then show ?thesis using max_fd_above [of _ "sl_map s"] max_fd_ge [of "sl_tp s + 1" "sl_map s"]
    by (force simp: pc_wf_def)
next
  case Bad_descriptor
  with all_settable [OF assms(1)] show ?thesis by blast
next
  case (Pass fd h ios r)
  with assms(2) show ?thesis by (auto simp: pc_wf_def intro: exI [of _ "_ @ [_]"])
next
  case (Empty_callback fd h ios r)
  with not_empty_callback [OF assms(1,2)] show ?thesis by blast
next
  case (Call fd h ios r)
  with assms(2) show ?thesis by (auto simp: pc_wf_def intro: exI [of _ "_ @ [_]"])
qed (simp_all add: pc_wf_def)

lemma pc_wf_same:
  assumes "pc_wf s" and "sl_pc s' = sl_pc s" and "sl_map s' = sl_map s" and "sl_tp s' = sl_tp s"
  shows "pc_wf s'"
  using assms unfolding pc_wf_def by (simp split: entry_pc.splits)

text \<open>While the thread looks at the handlers, no client gets at the map.\<close>

lemma pc_client:
  assumes "mtx_wf s" and "pc_wf s" and "client_step cap i s = Some s'" and "client_ok tp (sl_clients s ! i)"
  shows "pc_wf s'"
proof -
  have free: "sl_mtx s = None \<Longrightarrow> \<not> loop_holds (sl_pc s)" using assms(1) by (auto simp: mtx_wf_def)
  from assms(3,4) show ?thesis
  proof (cases rule: client_step_cases)
    case (Registered h ops)
    with free assms(2) show ?thesis by (auto simp: pc_wf_def split: entry_pc.splits)
  next
    case (Unregister h ops)
    with free assms(2) show ?thesis by (auto simp: pc_wf_def split: entry_pc.splits)
  qed (rule pc_wf_same [OF assms(2)]; simp)+
qed

lemma wake_entry:
  assumes "map_wf s" and "pc_wf s" and "wake_wf s" and "entry_step sel s = Some s'"
  shows "wake_wf s'"
  using assms(4)
proof (cases rule: entry_step_cases)
  case (Call fd h ios r)
  then have "read_end h \<noteq> sl_tp s" using called_handler(2) [OF assms(1,2)] by (simp add: handler_ok_def)
  with Call assms(3) show ?thesis by (simp add: wake_wf_def)
next
  case Again
  then show ?thesis by (auto simp: wake_wf_def)
qed (use assms(3) in \<open>simp_all add: wake_wf_def\<close>)

lemma set_update: "i < length xs \<Longrightarrow> x \<in> set (xs[i := x])"
  by (simp add: set_update_memI)

lemma in_set_update: "c \<in> set xs \<Longrightarrow> c \<noteq> xs ! i \<Longrightarrow> c \<in> set (xs[i := x])"
  by (metis in_set_conv_nth length_list_update nth_list_update_neq)

lemma wake_keep:
  assumes "wake_wf s" and "sl_stopped s' = sl_stopped s" and "sl_map s' = sl_map s"
    and "sl_pc s' = sl_pc s" and "sl_tp s' = sl_tp s" and "sl_pipes s (sl_tp s) \<noteq> [] \<Longrightarrow> sl_pipes s' (sl_tp s) \<noteq> []"
    and "sl_clients s' = (sl_clients s)[i := c]" and "\<not> signalling (sl_clients s ! i)"
  shows "wake_wf s'"
  using assms in_set_update [of _ "sl_clients s" i c] unfolding wake_wf_def signalling_def
  by (metis (no_types, lifting))

lemma wake_signalled:
  assumes "i < length (sl_clients s)" and "sl_clients s' = (sl_clients s)[i := c]" and "signalling c"
  shows "wake_wf s'"
  using assms set_update [of i "sl_clients s" c] unfolding wake_wf_def signalling_def by auto

lemma wake_client:
  assumes wf: "wake_wf s" and i: "i < length (sl_clients s)" and "client_step cap i s = Some s'"
    and "client_ok tp (sl_clients s ! i)"
  shows "wake_wf s'"
  using assms(3,4)
proof (cases rule: client_step_cases)
  case (Registered h ops)
  then show ?thesis by (intro wake_signalled [OF i]) (auto simp: signalling_def)
next
  case (Unregister h ops)
  then show ?thesis by (intro wake_signalled [OF i]) (auto simp: signalling_def)
next
  case (Stop ops)
  then show ?thesis by (intro wake_signalled [OF i]) (auto simp: signalling_def)
next
  case (Signal locked ops)
  then show ?thesis by (simp add: wake_wf_def)
next
  case (Write h ops)
  then show ?thesis by (intro wake_keep [OF wf, of _ i]) (auto simp: signalling_def)
qed (rule wake_keep [OF wf, of _ i]; simp add: signalling_def)+

lemma total_cost_update:
  assumes "i < length cs"
  shows "total_cost (cs[i := c]) + client_cost (cs ! i) = total_cost cs + client_cost c"
proof -
  have "total_cost (cs[i := c]) = total_cost (take i cs) + client_cost c + total_cost (drop (Suc i) cs)"
    using assms by (simp add: total_cost_def upd_conv_take_nth_drop)
  moreover have "total_cost cs = total_cost (take i cs @ cs ! i # drop (Suc i) cs)"
    using assms by (simp add: id_take_nth_drop [symmetric])
  ultimately show ?thesis by (simp add: total_cost_def)
qed

lemma room_entry:
  assumes "room_wf cap s" and "entry_step sel s = Some s'"
  shows "room_wf cap s'"
proof -
  have le: "length (drop 256 (sl_pipes s fd)) + total_cost (sl_clients s) \<le> cap" for fd
  proof -
    have "length (sl_pipes s fd) + total_cost (sl_clients s) \<le> cap" using assms(1) by (simp add: room_wf_def)
    then show ?thesis by simp
  qed
  from assms(2) show ?thesis
    by (cases rule: entry_step_cases) (use assms(1) le in \<open>simp_all add: room_wf_def\<close>)
qed

lemma room_client:
  assumes wf: "room_wf cap s" and i: "i < length (sl_clients s)" and "client_step cap i s = Some s'"
    and "client_ok tp (sl_clients s ! i)"
  shows "room_wf cap s'"
proof -
  have keep: "room_wf cap s'"
    if "sl_clients s' = (sl_clients s)[i := c]"
      and "\<And>fd. length (sl_pipes s' fd) + client_cost c \<le> length (sl_pipes s fd) + client_cost (sl_clients s ! i)"
    for c
    unfolding room_wf_def
  proof
    fix fd
    have "length (sl_pipes s fd) + total_cost (sl_clients s) \<le> cap" using wf by (simp add: room_wf_def)
    with total_cost_update [OF i, of c] that(1) that(2) [of fd]
    show "length (sl_pipes s' fd) + total_cost (sl_clients s') \<le> cap" by simp
  qed
  from assms(3,4) show ?thesis
    by (cases rule: client_step_cases) (rule keep, simp, simp add: client_cost_def)+
qed

end
