(* ===== verification/SelectRuns.thy ===== *)
theory SelectRuns
  imports SelectLoop
begin

text \<open>
  The runs of the select loop: a handler is called only while it is registered and is handed what
  was written to it, every run of orderly clients ends with the thread and all clients finished
  (by a measure that every step lowers, as an instance of \<open>ranked_system\<close>), and the deadlock when
  the signal pipe is full.
\<close>

section \<open>What happened\<close>

fun written_event :: "int \<Rightarrow> loop_event \<Rightarrow> bytes" where
  "written_event fd (Ev_written fd' bs) = (if fd' = fd then bs else [])"
| "written_event fd _ = []"

fun read_event :: "int \<Rightarrow> loop_event \<Rightarrow> bytes" where
  "read_event fd (Ev_called fd' bs) = (if fd' = fd then bs else [])"
| "read_event fd _ = []"

definition written_to :: "int \<Rightarrow> loop_event list \<Rightarrow> bytes" where
  "written_to fd log = concat (map (written_event fd) log)"

definition read_from :: "int \<Rightarrow> loop_event list \<Rightarrow> bytes" where
  "read_from fd log = concat (map (read_event fd) log)"

definition registered_at :: "loop_event list \<Rightarrow> int \<Rightarrow> bool" where
  "registered_at log fd \<longleftrightarrow>
     (\<exists>pre post. log = pre @ Ev_registered fd # post \<and> Ev_unregistered fd \<notin> set post)"

definition calls_registered :: "loop_event list \<Rightarrow> bool" where
  "calls_registered log \<longleftrightarrow> (\<forall>pre fd bs post. log = pre @ Ev_called fd bs # post \<longrightarrow> registered_at pre fd)"

lemma bytes_snoc [simp]:
  "written_to fd (log @ [e]) = written_to fd log @ written_event fd e"
  "read_from fd (log @ [e]) = read_from fd log @ read_event fd e"
  by (simp_all add: written_to_def read_from_def)

lemma registered_at_snoc [simp]:
  "registered_at (log @ [e]) fd \<longleftrightarrow> e = Ev_registered fd \<or> e \<noteq> Ev_unregistered fd \<and> registered_at log fd"
proof
  assume "registered_at (log @ [e]) fd"
  then obtain pre post where eq: "log @ [e] = pre @ Ev_registered fd # post" and post: "Ev_unregistered fd \<notin> set post"
    by (auto simp: registered_at_def)
  show "e = Ev_registered fd \<or> e \<noteq> Ev_unregistered fd \<and> registered_at log fd"
  proof (cases post rule: rev_cases)
    case (snoc ys y)
    with eq post show ?thesis by (auto simp: registered_at_def)
  qed (use eq in simp)
next
  assume "e = Ev_registered fd \<or> e \<noteq> Ev_unregistered fd \<and> registered_at log fd"
  then show "registered_at (log @ [e]) fd"
  proof
    assume "e \<noteq> Ev_unregistered fd \<and> registered_at log fd"
    then obtain pre post where "log = pre @ Ev_registered fd # post" "Ev_unregistered fd \<notin> set (post @ [e])"
      by (auto simp: registered_at_def)
    then show ?thesis unfolding registered_at_def by (intro exI [of _ pre] exI [of _ "post @ [e]"]) simp
  next
    assume "e = Ev_registered fd"
    then show ?thesis unfolding registered_at_def by (intro exI [of _ log] exI [of _ "[]"]) simp
  qed
qed

lemma calls_registered_snoc [simp]:
  "calls_registered (log @ [e]) \<longleftrightarrow>
     calls_registered log \<and> (\<forall>fd bs. e = Ev_called fd bs \<longrightarrow> registered_at log fd)"
proof
  assume all: "calls_registered (log @ [e])"
  have "calls_registered log"
    unfolding calls_registered_def
  proof (intro allI impI)
    fix pre fd bs post
    assume "log = pre @ Ev_called fd bs # post"
    then have "log @ [e] = pre @ Ev_called fd bs # (post @ [e])" by simp
    with all show "registered_at pre fd" unfolding calls_registered_def by blast
  qed
  with all show "calls_registered log \<and> (\<forall>fd bs. e = Ev_called fd bs \<longrightarrow> registered_at log fd)"
    unfolding calls_registered_def by blast
next
  assume old: "calls_registered log \<and> (\<forall>fd bs. e = Ev_called fd bs \<longrightarrow> registered_at log fd)"
  show "calls_registered (log @ [e])"
    unfolding calls_registered_def
  proof (intro allI impI)
    fix pre fd bs post
    assume eq: "log @ [e] = pre @ Ev_called fd bs # post"
    show "registered_at pre fd"
    proof (cases post rule: rev_cases)
      case (snoc ys y)
      with eq old show ?thesis by (simp add: calls_registered_def)
    qed (use eq old in simp)
  qed
qed

definition log_wf :: "select_loop \<Rightarrow> bool" where
  "log_wf s \<longleftrightarrow>
     (\<forall>fd. fd \<in> keys (sl_map s) \<longleftrightarrow> registered_at (sl_log s) fd) \<and> calls_registered (sl_log s) \<and>
     (\<forall>fd. fd \<noteq> sl_tp s \<longrightarrow> written_to fd (sl_log s) = read_from fd (sl_log s) @ sl_pipes s fd)"

lemma log_wf_same:
  assumes "log_wf s" and "sl_map s' = sl_map s" and "sl_log s' = sl_log s" and "sl_tp s' = sl_tp s"
    and "\<And>fd. fd \<noteq> sl_tp s \<Longrightarrow> sl_pipes s' fd = sl_pipes s fd"
  shows "log_wf s'"
  using assms by (simp add: log_wf_def)

lemma log_entry:
  assumes "map_wf s" and "pc_wf s" and "log_wf s" and "entry_step sel s = Some s'"
  shows "log_wf s'"
  using assms(4)
proof (cases rule: entry_step_cases)
  case (Call fd h ios r)
  with called_handler(1,3) [OF assms(1,2)] assms(3) show ?thesis by (simp add: log_wf_def)
qed (rule log_wf_same [OF assms(3)]; simp)+

lemma log_client:
  assumes "log_wf s" and "client_step cap i s = Some s'" and ok: "client_ok (sl_tp s) (sl_clients s ! i)"
  shows "log_wf s'"
  using assms(2,3)
proof (cases rule: client_step_cases)
  case (Registered h ops)
  with assms(1) show ?thesis by (simp add: log_wf_def) blast
next
  case (Unregister h ops)
  with assms(1) show ?thesis by (simp add: log_wf_def) blast
next
  case (Write h ops)
  with assms(1) show ?thesis by (simp add: log_wf_def)
qed (rule log_wf_same [OF assms(1)]; simp)+

section \<open>Orderly programs\<close>

abbreviation unregisters :: "int \<Rightarrow> client_op list \<Rightarrow> bool" where
  "unregisters fd ops \<equiv> \<exists>h. Unregister_fd h \<in> set ops \<and> read_end h = fd"

definition orderly_client :: "client \<Rightarrow> bool" where
  "orderly_client c \<longleftrightarrow>
     closes (cl_ops c) \<and> (\<forall>h. cl_pc c = C_register h \<longrightarrow> unregisters (read_end h) (cl_ops c))"

definition orderly_wf :: "select_loop \<Rightarrow> bool" where
  "orderly_wf s \<longleftrightarrow>
     (\<forall>c \<in> set (sl_clients s). orderly_client c) \<and>
     (\<forall>fd \<in> keys (sl_map s). \<exists>c \<in> set (sl_clients s). unregisters fd (cl_ops c)) \<and>
     (sl_stopped s \<or> (\<exists>c \<in> set (sl_clients s). Stop_loop \<in> set (cl_ops c)))"

lemma orderly_entry:
  assumes "orderly_wf s" and "entry_step sel s = Some s'"
  shows "orderly_wf s'"
  using assms(2,1) by (cases rule: entry_step_cases) (simp_all add: orderly_wf_def)

text \<open>A client that goes on keeps what the others rely on, apart from the operation it has done.\<close>

lemma orderly_update:
  assumes wf: "orderly_wf s" and i: "i < length (sl_clients s)"
    and cs: "sl_clients s' = (sl_clients s)[i := c]" and c: "orderly_client c"
    and keys: "\<And>fd. fd \<in> keys (sl_map s') \<Longrightarrow>
      unregisters fd (cl_ops c) \<or> (fd \<in> keys (sl_map s) \<and> \<not> unregisters fd (cl_ops (sl_clients s ! i)))"
    and stop: "sl_stopped s' \<or> \<not> sl_stopped s \<and>
      (Stop_loop \<in> set (cl_ops (sl_clients s ! i)) \<longrightarrow> Stop_loop \<in> set (cl_ops c))"
  shows "orderly_wf s'"
proof -
  have new: "c \<in> set (sl_clients s')" using i by (simp add: cs set_update_memI)
  have others: "d \<in> set (sl_clients s')" if "d \<in> set (sl_clients s)" "d \<noteq> sl_clients s ! i" for d
    using that cs in_set_update by metis
  have "\<forall>d \<in> set (sl_clients s'). orderly_client d"
    using wf c set_update_subset_insert [of "sl_clients s" i c] unfolding cs orderly_wf_def by blast
  moreover have "\<exists>d \<in> set (sl_clients s'). unregisters fd (cl_ops d)" if "fd \<in> keys (sl_map s')" for fd
    using keys [OF that] new others wf unfolding orderly_wf_def by metis
  moreover have "sl_stopped s' \<or> (\<exists>d \<in> set (sl_clients s'). Stop_loop \<in> set (cl_ops d))"
    using stop new others wf unfolding orderly_wf_def by metis
  ultimately show ?thesis unfolding orderly_wf_def by blast
qed

lemma orderly_client_step:
  assumes wf: "orderly_wf s" and i: "i < length (sl_clients s)" and "client_step cap i s = Some s'"
    and "client_ok tp (sl_clients s ! i)"
  shows "orderly_wf s'"
proof -
  have ord: "orderly_client (sl_clients s ! i)" using wf i by (simp add: orderly_wf_def)
  note upd = orderly_update [OF wf i]
  from assms(3,4) ord show ?thesis
    by (cases rule: client_step_cases) (rule upd, simp, (auto simp: orderly_client_def)[3])+
qed

section \<open>Runs\<close>

definition sl_wf :: "nat \<Rightarrow> select_loop \<Rightarrow> bool" where
  "sl_wf cap s \<longleftrightarrow>
     mtx_wf s \<and> map_wf s \<and> pc_wf s \<and> wake_wf s \<and> log_wf s"

text \<open>The programs the clients may start with.\<close>

definition programs_ok :: "int \<Rightarrow> client_op list list \<Rightarrow> bool" where
  "programs_ok tp ps \<longleftrightarrow> fd_settable tp \<and> (\<forall>ops \<in> set ps. \<forall>op \<in> set ops. op_ok tp op)"

definition programs_orderly :: "nat \<Rightarrow> client_op list list \<Rightarrow> bool" where
  "programs_orderly cap ps \<longleftrightarrow>
     (\<forall>ops \<in> set ps. closes ops) \<and> (\<exists>ops \<in> set ps. Stop_loop \<in> set ops) \<and>
     (\<Sum>ops \<leftarrow> ps. \<Sum>op \<leftarrow> ops. op_cost op) \<le> cap"

definition sl_reachable :: "nat \<Rightarrow> bool \<Rightarrow> int \<Rightarrow> client_op list list \<Rightarrow> select_loop \<Rightarrow> bool" where
  "sl_reachable cap fails tp ps s \<longleftrightarrow> (sl_step cap fails)\<^sup>*\<^sup>* (sl_init tp ps) s"

lemma sl_wf_step:
  assumes wf: "sl_wf cap s" and step: "sl_step cap fails s s'"
  shows "sl_wf cap s'"
  using step
proof (cases rule: sl_step.cases)
  case (Sl_loop sel)
  with wf show ?thesis
    unfolding sl_wf_def by (blast intro: mtx_entry map_entry pc_entry wake_entry log_entry)
next
  case (Sl_client i)
  from wf Sl_client(1) have ok: "client_ok (sl_tp s) (sl_clients s ! i)" by (simp add: sl_wf_def map_wf_client)
  with wf Sl_client show ?thesis
    unfolding sl_wf_def
    by (blast intro: mtx_client map_client pc_client wake_client log_client)
qed

lemma sl_wf_init:
  assumes "programs_ok tp ps"
  shows "sl_wf cap (sl_init tp ps)"
proof -
  have "\<not> client_holds (sl_clients (sl_init tp ps)) i" for i
    by (simp add: client_holds_def sl_init_def)
  then have "mtx_wf (sl_init tp ps)" by (simp add: mtx_wf_def sl_init_def)
  moreover have "map_wf (sl_init tp ps)"
    using assms by (auto simp: map_wf_def programs_ok_def sl_init_def client_ok_def)
  ultimately show ?thesis
    by (simp add: sl_wf_def pc_wf_def wake_wf_def log_wf_def calls_registered_def registered_at_def
        written_to_def read_from_def sl_init_def)
qed

text \<open>Orderly programs keep the room they need.\<close>

definition orderly_inv :: "nat \<Rightarrow> select_loop \<Rightarrow> bool" where
  "orderly_inv cap s \<longleftrightarrow> sl_wf cap s \<and> room_wf cap s \<and> orderly_wf s"

lemma orderly_inv_step:
  assumes inv: "orderly_inv cap s" and step: "sl_step cap fails s s'"
  shows "orderly_inv cap s'"
proof -
  have "sl_wf cap s'" using inv step sl_wf_step unfolding orderly_inv_def by blast
  moreover from step have "room_wf cap s' \<and> orderly_wf s'"
  proof (cases rule: sl_step.cases)
    case (Sl_loop sel)
    with inv show ?thesis unfolding orderly_inv_def by (blast intro: room_entry orderly_entry)
  next
    case (Sl_client i)
    from inv Sl_client(1) have ok: "client_ok (sl_tp s) (sl_clients s ! i)"
      by (simp add: orderly_inv_def sl_wf_def map_wf_client)
    with inv Sl_client show ?thesis unfolding orderly_inv_def by (blast intro: room_client orderly_client_step)
  qed
  ultimately show ?thesis by (simp add: orderly_inv_def)
qed

lemma orderly_inv_init:
  assumes "programs_ok tp ps" and "programs_orderly cap ps"
  shows "orderly_inv cap (sl_init tp ps)"
proof -
  have "total_cost (sl_clients (sl_init tp ps)) = (\<Sum>ops \<leftarrow> ps. \<Sum>op \<leftarrow> ops. op_cost op)"
    by (simp add: total_cost_def client_cost_def sl_init_def comp_def)
  then have "room_wf cap (sl_init tp ps)"
    using assms(2) by (simp add: room_wf_def programs_orderly_def) (simp add: sl_init_def)
  moreover have "orderly_wf (sl_init tp ps)"
    using assms(2) by (auto simp: orderly_wf_def orderly_client_def programs_orderly_def sl_init_def)
  ultimately show ?thesis using sl_wf_init [OF assms(1)] by (simp add: orderly_inv_def)
qed

section \<open>Every run ends\<close>

text \<open>What the clients still do, and what is in the pipes.\<close>

definition client_work :: "client \<Rightarrow> nat" where
  "client_work c =
     3 * length (cl_ops c) + (case cl_pc c of C_idle \<Rightarrow> 0 | C_register _ \<Rightarrow> 2 | C_signal _ \<Rightarrow> 1)"

definition all_work :: "select_loop \<Rightarrow> nat" where
  "all_work s = (\<Sum>c \<leftarrow> sl_clients s. client_work c)"

definition piped :: "select_loop \<Rightarrow> nat" where
  "piped s = (\<Sum>fd \<in> {0..<1024}. length (sl_pipes s fd))"

text \<open>
  A round of the thread is fresh as long as it is going to read something: unless a client went in
  between, the descriptors it waits for are those of the map, and one that is readable is read.
\<close>

definition live_fd :: "select_loop \<Rightarrow> int \<Rightarrow> bool" where
  "live_fd s fd \<longleftrightarrow> fd = sl_tp s \<or> fd \<in> keys (sl_map s)"

definition fresh :: "select_loop \<Rightarrow> int set \<Rightarrow> int set \<Rightarrow> bool" where
  "fresh s fds r \<longleftrightarrow> (\<exists>fd \<in> r \<inter> insert (sl_tp s) fds. sl_pipes s fd \<noteq> [])"

fun round_rank :: "select_loop \<Rightarrow> entry_pc \<Rightarrow> nat" where
  "round_rank s E_test = length (sl_map s) + 5"
| "round_rank s E_collect = length (sl_map s) + 4"
| "round_rank s (E_select m fds) =
     (if fds \<subseteq> insert (sl_tp s) (keys (sl_map s)) then length (sl_map s) + 3 else 2 * length (sl_map s) + 9)"
| "round_rank s (E_lock r) =
     (if fresh s (keys (sl_map s)) r then length (sl_map s) + 2 else 2 * length (sl_map s) + 8)"
| "round_rank s (E_call ios r) =
     (if fresh s (keys ios) r then length ios + 1 else length (sl_map s) + 7 + length ios)"
| "round_rank s (E_clear r) = (if fresh s {} r then 0 else length (sl_map s) + 6)"
| "round_rank s E_returned = 0"
| "round_rank s E_crashed = 0"

definition sl_less :: "(select_loop \<times> select_loop) set" where
  "sl_less = inv_image (less_than <*lex*> less_than <*lex*> less_than)
               (\<lambda>s. (all_work s, piped s, round_rank s (sl_pc s)))"

lemma wf_sl_less: "wf sl_less"
  by (auto simp: sl_less_def)

lemma sl_lessI:
  "all_work s' < all_work s \<Longrightarrow> (s', s) \<in> sl_less"
  "all_work s' = all_work s \<Longrightarrow> piped s' < piped s \<Longrightarrow> (s', s) \<in> sl_less"
  "all_work s' = all_work s \<Longrightarrow> piped s' = piped s \<Longrightarrow> round_rank s' (sl_pc s') < round_rank s (sl_pc s)
     \<Longrightarrow> (s', s) \<in> sl_less"
  by (simp_all add: sl_less_def)

lemma piped_drop:
  assumes "fd_settable fd" and "sl_pipes s fd \<noteq> []" and "sl_pipes s' = (sl_pipes s)(fd := drop 256 (sl_pipes s fd))"
  shows "piped s' < piped s"
  unfolding piped_def
proof (rule sum_strict_mono_ex1)
  show "\<forall>x \<in> {0..<1024}. length (sl_pipes s' x) \<le> length (sl_pipes s x)" using assms(3) by simp
  show "\<exists>x \<in> {0..<1024}. length (sl_pipes s' x) < length (sl_pipes s x)"
    using assms by (intro bexI [of _ fd]) (auto simp: fd_settable_def)
qed simp

lemma all_work_update:
  assumes "i < length (sl_clients s)" and "sl_clients s' = (sl_clients s)[i := c]"
    and "client_work c < client_work (sl_clients s ! i)"
  shows "all_work s' < all_work s"
proof -
  have "all_work s' = (\<Sum>c \<leftarrow> take i (sl_clients s). client_work c) + client_work c +
      (\<Sum>c \<leftarrow> drop (Suc i) (sl_clients s). client_work c)"
    using assms(1,2) by (simp add: all_work_def upd_conv_take_nth_drop)
  moreover have "all_work s = (\<Sum>c \<leftarrow> take i (sl_clients s) @ sl_clients s ! i # drop (Suc i) (sl_clients s). client_work c)"
    using assms(1) by (simp add: all_work_def id_take_nth_drop [symmetric])
  ultimately show ?thesis using assms(3) by simp
qed

lemma less_client:
  assumes i: "i < length (sl_clients s)" and "client_step cap i s = Some s'"
    and "client_ok tp (sl_clients s ! i)"
  shows "(s', s) \<in> sl_less"
  using assms(2,3)
  by (cases rule: client_step_cases)
    (rule sl_lessI(1), rule all_work_update [OF i], simp, simp add: client_work_def)+

text \<open>A step that reads lowers what is in the pipes; the other steps of a round lower its rank.\<close>

lemma less_call:
  assumes map: "map_wf s" and pc: "pc_wf s" and at: "sl_pc s = E_call ((fd, h) # ios) r"
    and s': "s' = (snd (process_io h s))\<lparr>sl_pc := E_call ios r\<rparr>"
  shows "(s', s) \<in> sl_less"
proof -
  note h = called_handler [OF map pc at]
  show ?thesis
  proof (cases "sl_pipes s fd = []")
    case True
    then have "(sl_pipes s)(fd := []) = sl_pipes s" by (metis fun_upd_triv)
    with at s' True h(1) show ?thesis
      by (intro sl_lessI(3)) (auto simp: all_work_def piped_def fresh_def)
  next
    case False
    with h have "piped s' < piped s"
      by (intro piped_drop [of fd]) (auto simp: handler_ok_def s')
    with s' show ?thesis by (intro sl_lessI(2)) (simp_all add: all_work_def)
  qed
qed

lemma less_clear:
  assumes map: "map_wf s" and at: "sl_pc s = E_clear r"
    and s': "s' = (if sl_tp s \<in> r then set_pipe (sl_tp s) (drop 256 (sl_pipes s (sl_tp s))) s else s)
              \<lparr>sl_mtx := None, sl_pc := E_test\<rparr>"
  shows "(s', s) \<in> sl_less"
proof (cases "sl_tp s \<in> r \<and> sl_pipes s (sl_tp s) \<noteq> []")
  case True
  with s' map have "piped s' < piped s"
    by (intro piped_drop [of "sl_tp s"]) (auto simp: map_wf_def)
  with s' show ?thesis by (intro sl_lessI(2)) (simp_all add: all_work_def)
next
  case False
  then have "(if sl_tp s \<in> r then set_pipe (sl_tp s) (drop 256 (sl_pipes s (sl_tp s))) s else s) = s"
    by (auto simp: fun_upd_idem)
  with at s' False show ?thesis
    by (intro sl_lessI(3)) (auto simp: all_work_def piped_def fresh_def)
qed

lemma less_entry:
  assumes map: "map_wf s" and pc: "pc_wf s" and "entry_step sel s = Some s'"
  shows "(s', s) \<in> sl_less"
  using assms(3)
proof (cases rule: entry_step_cases)
  case Bad_descriptor
  with all_settable [OF map] show ?thesis by blast
next
  case (Ready m fds r)
  have "fresh s (keys (sl_map s)) r" if "fds \<subseteq> insert (sl_tp s) (keys (sl_map s))"
    using that Ready(3,4) by (fastforce simp: fresh_def readable_def)
  with Ready show ?thesis by (intro sl_lessI(3)) (auto simp: all_work_def piped_def fresh_def)
next
  case (Pass fd h ios r)
  then have "r \<inter> insert (sl_tp s) (keys ((fd, h) # ios)) = r \<inter> insert (sl_tp s) (keys ios)" by auto
  then have "fresh s (keys ((fd, h) # ios)) r = fresh s (keys ios) r" by (simp only: fresh_def)
  with Pass show ?thesis by (intro sl_lessI(3)) (simp_all add: all_work_def piped_def fresh_def)
next
  case (Empty_callback fd h ios r)
  with not_empty_callback [OF map pc] show ?thesis by blast
next
  case (Call fd h ios r)
  then show ?thesis by (intro less_call [OF map pc])
next
  case (Clear r)
  then show ?thesis by (intro less_clear [OF map])
qed (rule sl_lessI(3); simp add: all_work_def piped_def fresh_def)+

interpretation sl: ranked_system "sl_step cap fails" "orderly_inv cap" sl_less for cap fails
proof
  show "(s', s) \<in> sl_less" if "orderly_inv cap s" "sl_step cap fails s s'" for s s'
    using that(2)
  proof (cases rule: sl_step.cases)
    case (Sl_loop sel)
    with that(1) show ?thesis by (blast intro: less_entry dest: orderly_inv_def [THEN iffD1] sl_wf_def [THEN iffD1])
  next
    case (Sl_client i)
    with that(1) have "client_ok (sl_tp s) (sl_clients s ! i)"
      by (simp add: orderly_inv_def sl_wf_def map_wf_client)
    with Sl_client show ?thesis by (blast intro: less_client)
  qed
qed (rule wf_sl_less, rule orderly_inv_step)

section \<open>Nothing blocks for good\<close>

text \<open>The room a client needs is there.\<close>

lemma client_cost_le: "i < length cs \<Longrightarrow> client_cost (cs ! i) \<le> total_cost cs"
  using elem_le_sum_list [of i "map client_cost cs"] by (simp add: total_cost_def)

lemma room_for_client:
  "room_wf cap s \<Longrightarrow> i < length (sl_clients s) \<Longrightarrow>
   length (sl_pipes s fd) + client_cost (sl_clients s ! i) \<le> cap"
  using client_cost_le [of i "sl_clients s"] unfolding room_wf_def by (meson add_left_mono le_trans)

lemma signal_enabled:
  assumes "room_wf cap s" and "sl_pc s \<noteq> E_crashed" and "i < length (sl_clients s)"
    and "cl_pc (sl_clients s ! i) = C_signal locked"
  shows "\<exists>s'. client_step cap i s = Some s'"
proof -
  have "length (sl_pipes s (sl_tp s)) + 4 \<le> cap"
    using room_for_client [OF assms(1,3), of "sl_tp s"] assms(4) by (simp add: client_cost_def)
  with assms(2,4) show ?thesis by (simp add: client_step_def finish_signal_effect)
qed

text \<open>So the mutex is given back.\<close>

lemma mutex_free:
  assumes inv: "orderly_inv cap s" and stuck: "\<And>s'. \<not> sl_step cap fails s s'"
  shows "sl_mtx s = None"
proof (rule ccontr)
  assume "sl_mtx s \<noteq> None"
  then obtain w where w: "sl_mtx s = Some w" by blast
  have wf: "mtx_wf s" "pc_wf s" "room_wf cap s" using inv by (simp_all add: orderly_inv_def sl_wf_def)
  have run: "sl_pc s \<noteq> E_crashed" using wf(2) by (auto simp: pc_wf_def)
  show False
  proof (cases w)
    case By_loop
    with w wf(1) have "loop_holds (sl_pc s)" by (simp add: mtx_wf_def)
    then have "\<exists>s'. entry_step (Some {}) s = Some s'"
      by (cases "sl_pc s") (auto simp: entry_step_def split: list.splits)
    with stuck show False by (metis Sl_loop option.distinct(1))
  next
    case (By_client i)
    with w wf(1) have "client_holds (sl_clients s) i" by (auto simp: mtx_wf_def)
    with signal_enabled [OF wf(3) run, of i] stuck show False unfolding client_holds_def by (metis Sl_client)
  qed
qed

lemma client_waits:
  assumes inv: "orderly_inv cap s" and stuck: "\<And>s'. \<not> sl_step cap fails s s'" and i: "i < length (sl_clients s)"
  shows "cl_pc (sl_clients s ! i) = C_idle"
    "cl_ops (sl_clients s ! i) = [] \<or> cl_ops (sl_clients s ! i) = [Join_loop] \<and> sl_pc s \<noteq> E_returned"
proof -
  have wf: "pc_wf s" "room_wf cap s" "orderly_wf s" "map_wf s" using inv by (simp_all add: orderly_inv_def sl_wf_def)
  have run: "sl_pc s \<noteq> E_crashed" using wf(1) by (auto simp: pc_wf_def)
  have free: "sl_mtx s = None" by (rule mutex_free [OF inv stuck])
  have none: "client_step cap i s = None" using stuck Sl_client [OF i] by (meson not_Some_eq)
  obtain p ops where c: "sl_clients s ! i = \<lparr>cl_pc = p, cl_ops = ops\<rparr>" by (cases "sl_clients s ! i") auto
  show idle: "cl_pc (sl_clients s ! i) = C_idle"
  proof (cases p)
    case (C_register h)
    with c none run free show ?thesis by (simp add: client_step_def register_locked_def)
  next
    case (C_signal locked)
    with c none signal_enabled [OF wf(2) run i] show ?thesis by simp
  qed (simp add: c)
  have "orderly_client (sl_clients s ! i)" using wf(3) i by (simp add: orderly_wf_def)
  then have ok: "client_ok (sl_tp s) (sl_clients s ! i)" "closes ops"
    using c map_wf_client [OF wf(4) i] by (simp_all add: orderly_client_def)
  show "cl_ops (sl_clients s ! i) = [] \<or> cl_ops (sl_clients s ! i) = [Join_loop] \<and> sl_pc s \<noteq> E_returned"
  proof (cases ops)
    case (Cons op ops')
    with idle c none run free ok have "op = Join_loop \<or> (\<exists>h. op = Write_to h)"
      by (cases op) (simp_all add: client_step_def register_fd_def unregister_fd_def stop_loop_def)
    then show ?thesis
    proof
      assume "op = Join_loop"
      with Cons idle c none run ok(2) show ?thesis by (simp add: client_step_def join_loop_def split: if_splits)
    next
      assume "\<exists>h. op = Write_to h"
      then obtain h where h: "op = Write_to h" by blast
      with Cons ok(1) c have "length (ih_user h) \<le> 256" by (simp add: client_ok_def handler_ok_def)
      with h Cons idle c none run room_for_client [OF wf(2) i, of "read_end h"] show ?thesis
        by (simp add: client_step_def test_write_def write_pipe_def client_cost_def split: if_splits)
    qed
  qed (simp add: c)
qed

lemma stuck_is_finished:
  assumes inv: "orderly_inv cap s" and stuck: "\<And>s'. \<not> sl_step cap fails s s'"
  shows "sl_pc s = E_returned" "\<And>c. c \<in> set (sl_clients s) \<Longrightarrow> c = \<lparr>cl_pc = C_idle, cl_ops = []\<rparr>"
proof -
  have wf: "map_wf s" "pc_wf s" "wake_wf s" "orderly_wf s" using inv by (simp_all add: orderly_inv_def sl_wf_def)
  have waits: "cl_pc c = C_idle" "cl_ops c = [] \<or> cl_ops c = [Join_loop] \<and> sl_pc s \<noteq> E_returned"
    if "c \<in> set (sl_clients s)" for c
    using client_waits [OF inv stuck] that by (metis in_set_conv_nth)+
  have "\<not> unregisters fd (cl_ops c)" "Stop_loop \<notin> set (cl_ops c)" if "c \<in> set (sl_clients s)" for c fd
    using waits(2) [OF that] by auto
  note quiet = this
  note orderly = wf(4) [unfolded orderly_wf_def, THEN conjunct2]
  have all: "\<forall>fd \<in> keys (sl_map s). \<exists>c \<in> set (sl_clients s). unregisters fd (cl_ops c)"
    by (rule orderly [THEN conjunct1])
  have stop: "sl_stopped s \<or> (\<exists>c \<in> set (sl_clients s). Stop_loop \<in> set (cl_ops c))"
    by (rule orderly [THEN conjunct2])
  have "keys (sl_map s) = {}"
  proof (rule equals0I)
    fix fd
    assume "fd \<in> keys (sl_map s)"
    from bspec [OF all this] obtain c where c: "c \<in> set (sl_clients s)" and u: "unregisters fd (cl_ops c)"
      by (rule bexE)
    show False by (rule notE [OF quiet(1) [OF c] u])
  qed
  then have home: "sl_map s = []" "sl_stopped s" using stop quiet(2) by (simp, blast)
  have none: "entry_step (Some r) s = None" for r using stuck Sl_loop by (metis not_Some_eq)
  show ret: "sl_pc s = E_returned"
  proof (cases "sl_pc s")
    case (E_select m fds)
    have "\<not> signalling c" if "c \<in> set (sl_clients s)" for c
      using waits(1) [OF that] by (simp add: signalling_def)
    with wf(3) home E_select have "sl_pipes s (sl_tp s) \<noteq> []" by (auto simp: wake_wf_def)
    then have "{sl_tp s} \<subseteq> readable s m fds" using wf(2) E_select by (simp add: pc_wf_def readable_def)
    with E_select none [of "{sl_tp s}"] show ?thesis by (simp add: entry_step_def)
  next
    case (E_call ios r)
    with none [of "{}"] show ?thesis by (simp add: entry_step_def split: list.splits prod.splits)
  qed (use none [of "{}"] mutex_free [OF inv stuck] wf(2) in \<open>simp_all add: entry_step_def pc_wf_def\<close>)
  show "c = \<lparr>cl_pc = C_idle, cl_ops = []\<rparr>" if "c \<in> set (sl_clients s)" for c
    using waits [OF that] ret by simp
qed

section \<open>Schedules\<close>

text \<open>Runs given as a list of who goes next: a client, or the thread with everything that is readable.\<close>

definition all_readable :: "select_loop \<Rightarrow> int set" where
  "all_readable s = (case sl_pc s of E_select m fds \<Rightarrow> readable s m fds | _ \<Rightarrow> {})"

fun sl_run :: "nat \<Rightarrow> nat option list \<Rightarrow> select_loop \<Rightarrow> select_loop option" where
  "sl_run cap [] s = Some s"
| "sl_run cap (None # w) s =
     (case entry_step (Some (all_readable s)) s of None \<Rightarrow> None | Some s' \<Rightarrow> sl_run cap w s')"
| "sl_run cap (Some i # w) s =
     (if i < length (sl_clients s)
      then case client_step cap i s of None \<Rightarrow> None | Some s' \<Rightarrow> sl_run cap w s'
      else None)"

lemma sl_run_steps: "sl_run cap w s = Some s' \<Longrightarrow> (sl_step cap fails)\<^sup>*\<^sup>* s s'"
proof (induction w arbitrary: s)
  case (Cons x w)
  have "\<exists>s1. sl_step cap fails s s1 \<and> sl_run cap w s1 = Some s'"
  proof (cases x)
    case None
    with Cons(2) obtain s1 where "entry_step (Some (all_readable s)) s = Some s1" "sl_run cap w s1 = Some s'"
      by (cases "entry_step (Some (all_readable s)) s") simp_all
    then show ?thesis using Sl_loop by blast
  next
    case (Some i)
    with Cons(2) have i: "i < length (sl_clients s)" by (simp split: if_splits)
    with Some Cons(2) obtain s1 where "client_step cap i s = Some s1" "sl_run cap w s1 = Some s'"
      by (cases "client_step cap i s") simp_all
    with i show ?thesis using Sl_client by blast
  qed
  with Cons(1) show ?case by (meson converse_rtranclp_into_rtranclp)
qed simp

definition example_handler :: "string \<Rightarrow> int \<Rightarrow> io_handler" where
  "example_handler u fd = \<lparr>ih_user = u, ih_pipefd = (fd, fd + 1), ih_callback = Process_callback\<rparr>"

definition example_main :: "client_op list" where
  "example_main = select_main (example_handler ''io_1'' 5) (example_handler ''io_2'' 7) (example_handler ''io_3'' 9)"

definition example_schedule :: "nat option list" where
  "example_schedule = replicate 12 (Some 0) @ replicate 9 None @ replicate 9 (Some 0) @ [None, Some 0]"

lemma example_run: "map_option loop_output (sl_run 64 example_schedule (sl_init 3 [example_main])) = Some (''Read Data: io_1'' @ [LF] @ ''Read Data: io_2'' @ [LF] @ ''Read Data: io_3'' @ [LF])"
  by code_simp

text \<open>
  C29: Whatever clients and thread do, in every interleaving a callback is called only for a
  handler that is registered at that moment: there is a \<open>register_fd\<close> of its descriptor that no
  \<open>unregister_fd\<close> has undone, so that a handler is never called again once \<open>unregister_fd\<close> has it
  removed. And nothing that is written to a handler is lost, repeated or reordered: what was
  written is what the callbacks have read and what is still in the pipe.
\<close>
theorem handlers_called_while_registered:
  assumes "programs_ok tp ps" and "sl_reachable cap fails tp ps s"
  shows "(\<forall>pre fd bs post. sl_log s = pre @ Ev_called fd bs # post \<longrightarrow>
            (\<exists>pre1 pre2. pre = pre1 @ Ev_registered fd # pre2 \<and> Ev_unregistered fd \<notin> set pre2)) \<and>
         (\<forall>fd. fd \<noteq> sl_tp s \<longrightarrow> written_to fd (sl_log s) = read_from fd (sl_log s) @ sl_pipes s fd)"
proof -
  have "sl_wf cap s" using assms(2) sl_wf_init [OF assms(1)] unfolding sl_reachable_def
    by (induction rule: rtranclp_induct) (auto intro: sl_wf_step)
  then show ?thesis by (simp add: sl_wf_def log_wf_def calls_registered_def registered_at_def)
qed

lemma example_ok: "programs_ok 3 [example_main]"
  by (simp add: programs_ok_def example_main_def select_main_def example_handler_def handler_ok_def fd_settable_def)

lemma example_orderly: "32 \<le> cap \<Longrightarrow> programs_orderly (cap + 8) [example_main]"
  by (simp add: programs_orderly_def example_main_def select_main_def example_handler_def
      conj_disj_distribR ex_disj_distrib)

lemma example_log:
  "map_option sl_log (sl_run 64 (take 21 example_schedule) (sl_init 3 [example_main])) =
     Some [Ev_registered 5, Ev_registered 7, Ev_registered 9, Ev_written 5 ''io_1'', Ev_written 9 ''io_3'',
           Ev_written 7 ''io_2'', Ev_called 5 ''io_1'', Ev_called 7 ''io_2'', Ev_called 9 ''io_3'']"
  by code_simp

lemma example_tp: "map_option sl_tp (sl_run 64 (take 21 example_schedule) (sl_init 3 [example_main])) = Some 3"
  by code_simp

theorem handlers_called_while_registered_witness:
  "programs_ok 3 [example_main] \<and>
   (\<exists>s pre pre1 pre2. sl_reachable 64 False 3 [example_main] s \<and> sl_log s = pre @ [Ev_called 9 ''io_3''] \<and>
     length pre = 8 \<and> pre = pre1 @ Ev_registered 9 # pre2 \<and> Ev_unregistered 9 \<notin> set pre2 \<and>
     written_to 9 (sl_log s) = ''io_3'' \<and> written_to 9 (sl_log s) = read_from 9 (sl_log s) @ sl_pipes s 9 \<and> sl_tp s = 3)"
proof -
  let ?pre = "[Ev_registered 5, Ev_registered 7, Ev_registered 9, Ev_written 5 ''io_1'',
      Ev_written 9 ''io_3'', Ev_written 7 ''io_2'', Ev_called 5 ''io_1'', Ev_called 7 ''io_2'']"
  obtain s where run: "sl_run 64 (take 21 example_schedule) (sl_init 3 [example_main]) = Some s"
    and log: "sl_log s = ?pre @ [Ev_called 9 ''io_3'']" and tp: "sl_tp s = 3"
    using example_log example_tp by auto
  have reach: "sl_reachable 64 False 3 [example_main] s" using sl_run_steps [OF run] by (simp add: sl_reachable_def)
  note runs = handlers_called_while_registered [OF example_ok reach]
  from runs [THEN conjunct1, rule_format, OF log]
  obtain pre1 pre2 where pre: "?pre = pre1 @ Ev_registered 9 # pre2" "Ev_unregistered 9 \<notin> set pre2"
    by (elim exE conjE)
  have written: "written_to 9 (sl_log s) = ''io_3''" unfolding log by (simp add: written_to_def)
  have pipe: "written_to 9 (sl_log s) = read_from 9 (sl_log s) @ sl_pipes s 9"
    using runs [THEN conjunct2, rule_format, of 9] tp by simp
  have "length ?pre = 8" by simp
  with reach log pre written pipe tp example_ok show ?thesis by (intro conjI exI)
qed

text \<open>
  C19: Clients that unregister what they register, stop the loop and join it last end, in every
  interleaving: there is no infinite run, and where no step is left the thread has returned and
  every client has finished its program. No wakeup is lost and no client stays blocked, provided the
  pipes have room for all signals. \<open>main\<close> is such a client.
\<close>
theorem select_loop_ends:
  assumes "programs_ok tp ps" and "programs_orderly cap ps"
  shows "(\<forall>f. f 0 = sl_init tp ps \<longrightarrow> (\<exists>n. \<not> sl_step cap fails (f n) (f (Suc n)))) \<and>
         (\<forall>s. sl_reachable cap fails tp ps s \<and> (\<forall>s'. \<not> sl_step cap fails s s') \<longrightarrow>
              sl_pc s = E_returned \<and> (\<forall>c \<in> set (sl_clients s). cl_pc c = C_idle \<and> cl_ops c = []))"
proof -
  note init = orderly_inv_init [OF assms]
  have inv: "orderly_inv cap s" if "sl_reachable cap fails tp ps s" for s
    using that init sl.run_inv unfolding sl_reachable_def by blast
  have "sl_pc s = E_returned \<and> (\<forall>c \<in> set (sl_clients s). cl_pc c = C_idle \<and> cl_ops c = [])"
    if reach: "sl_reachable cap fails tp ps s" and stuck: "\<And>s'. \<not> sl_step cap fails s s'" for s
    using stuck_is_finished [OF inv [OF reach] stuck] by fastforce
  moreover have "\<exists>n. \<not> sl_step cap fails (f n) (f (Suc n))" if "f 0 = sl_init tp ps" for f
    by (rule sl.no_infinite_run) (use init that in simp)
  ultimately show ?thesis by blast
qed

theorem select_loop_ends_witness:
  "\<exists>s. sl_reachable 65536 True 3 [example_main] s \<and> sl_pc s = E_returned"
proof -
  have orderly: "programs_orderly 65536 [example_main]" using example_orderly [of 65528] by simp
  obtain s where "sl_reachable 65536 True 3 [example_main] s" "\<forall>s'. \<not> sl_step 65536 True s s'"
    using sl.run_ends [OF orderly_inv_init [OF example_ok orderly]] unfolding sl_reachable_def by blast
  with select_loop_ends [OF example_ok orderly, of True] show ?thesis by blast
qed

text \<open>A client that registers over and over while the thread does not get at its pipe.\<close>

lemma registers_pile_up:
  "4 * k \<le> cap \<Longrightarrow> k \<le> n \<Longrightarrow>
   \<exists>s. sl_reachable cap fails tp [replicate n (Register_fd h)] s \<and> sl_pc s = E_collect \<and> sl_tp s = tp \<and>
       length (sl_pipes s tp) = 4 * k \<and> sl_mtx s = None \<and> \<not> sl_stopped s \<and>
       sl_clients s = [\<lparr>cl_pc = C_idle, cl_ops = replicate (n - k) (Register_fd h)\<rparr>]"
proof (induction k)
  case 0
  let ?s = "sl_init tp [replicate n (Register_fd h)]"
  have "sl_step cap fails ?s (?s\<lparr>sl_pc := E_collect\<rparr>)"
    by (rule Sl_loop [of "Some {}"]) (simp_all add: entry_step_def sl_init_def)
  then show ?case
    by (intro exI [of _ "?s\<lparr>sl_pc := E_collect\<rparr>"]) (simp add: sl_reachable_def r_into_rtranclp, simp add: sl_init_def)
next
  case (Suc k)
  then obtain s where s: "sl_reachable cap fails tp [replicate n (Register_fd h)] s" "sl_pc s = E_collect" "sl_tp s = tp"
    "length (sl_pipes s tp) = 4 * k" "sl_mtx s = None" "\<not> sl_stopped s"
    "sl_clients s = [\<lparr>cl_pc = C_idle, cl_ops = Register_fd h # replicate (n - Suc k) (Register_fd h)\<rparr>]"
    by (auto simp: Suc_diff_Suc [symmetric])
  obtain s' where "sl_run cap [Some 0, Some 0, Some 0] s = Some s'" and s': "sl_pc s' = E_collect" "sl_tp s' = tp"
    "length (sl_pipes s' tp) = 4 * Suc k" "sl_mtx s' = None" "\<not> sl_stopped s'"
    "sl_clients s' = [\<lparr>cl_pc = C_idle, cl_ops = replicate (n - Suc k) (Register_fd h)\<rparr>]"
    using s(2-7) Suc(2)
    by (simp add: client_step_def register_fd_def register_locked_def finish_signal_def signal_thread_def write_pipe_def)
  with s(1) sl_run_steps have "sl_reachable cap fails tp [replicate n (Register_fd h)] s'"
    unfolding sl_reachable_def by (meson rtranclp_trans)
  with s' show ?case by blast
qed

text \<open>
  C31: The signal pipe can deadlock the program, whatever its capacity. A client that registers once
  more than there is room for signals, while the thread does not come to read them, blocks in the
  write with the mutex held; the thread waits for that mutex before it would empty the pipe, and
  nothing moves any more.
\<close>
theorem signal_pipe_deadlock:
  "\<exists>s. sl_reachable cap fails tp [replicate (cap div 4 + 1) (Register_fd h)] s \<and> sl_pc s = E_collect \<and>
       sl_mtx s = Some (By_client 0) \<and> (\<forall>s'. \<not> sl_step cap fails s s')"
proof -
  let ?n = "cap div 4 + 1"
  obtain s where s: "sl_reachable cap fails tp [replicate ?n (Register_fd h)] s" "sl_pc s = E_collect" "sl_tp s = tp"
    "length (sl_pipes s tp) = 4 * (cap div 4)" "sl_mtx s = None" "\<not> sl_stopped s"
    "sl_clients s = [\<lparr>cl_pc = C_idle, cl_ops = [Register_fd h]\<rparr>]"
    using registers_pile_up [of "cap div 4" cap ?n fails tp h] by auto
  obtain s' where run: "sl_run cap [Some 0, Some 0] s = Some s'" and s': "sl_pc s' = E_collect"
    "length (sl_pipes s' (sl_tp s')) = 4 * (cap div 4)" "sl_mtx s' = Some (By_client 0)"
    "sl_clients s' = [\<lparr>cl_pc = C_signal True, cl_ops = []\<rparr>]"
    using s(2-7) by (simp add: client_step_def register_fd_def register_locked_def)
  have "\<not> sl_step cap fails s' t" for t
  proof
    assume "sl_step cap fails s' t"
    then show False
    proof (cases rule: sl_step.cases)
      case (Sl_loop sel)
      with s' show False by (simp add: entry_step_def)
    next
      case (Sl_client i)
      moreover have "\<not> 4 * (cap div 4) + 4 \<le> cap" by presburger
      ultimately show False using s' by (simp add: client_step_def finish_signal_effect)
    qed
  qed
  moreover have "sl_reachable cap fails tp [replicate ?n (Register_fd h)] s'"
    using s(1) sl_run_steps [OF run] unfolding sl_reachable_def by (meson rtranclp_trans)
  ultimately show ?thesis using s' by blast
qed

end
