(* ===== verification/UPThreads.thy ===== *)
theory UPThreads
  imports Prelude
begin

text \<open>
  \<open>boost_cpp/upthread/upthread.hpp\<close>: an object that owns a thread, and a thread that owns the object
  while it runs, through the \<open>shared_ptr\<close> \<open>create\<close> passes to \<open>entry\<close>. One object is modelled, with the
  number of references other code holds to it, the threads it started that have not ended, and
  its handle. Destroying a handle that is joinable, or assigning to it, terminates the program.
\<close>

section \<open>State\<close>

text \<open>\<open>up_refs\<close> is \<open>None\<close> for an object no \<open>shared_ptr\<close> owns; \<open>up_ran\<close> records the threads that ran.\<close>

record upthread =
  up_t_id :: "nat option"
  up_t_name :: string
  up_handle :: "nat option"
  up_refs :: "nat option"
  up_live :: "nat list"
  up_next :: nat
  up_alive :: bool
  up_ran :: "nat list"

definition terminated :: exn where
  "terminated = Std_exception ''std::terminate''"

text \<open>\<open>UPThread()\<close>, by \<open>make_shared\<close> or as a plain object.\<close>

definition upthread_new :: "bool \<Rightarrow> upthread" where
  "upthread_new shared =
     \<lparr>up_t_id = None, up_t_name = [], up_handle = None, up_refs = (if shared then Some 1 else None),
      up_live = [], up_next = 0, up_alive = True, up_ran = []\<rparr>"

section \<open>Operations\<close>

definition up_joinable :: "upthread \<Rightarrow> bool" where
  "up_joinable s \<longleftrightarrow> up_handle s \<noteq> None"

text \<open>The implicit destructor, with that of \<open>handle\<close>.\<close>

definition up_destroy :: "(upthread, unit) action" where
  "up_destroy s =
     (if up_joinable s then (Inl terminated, s) else (Inr (), s\<lparr>up_alive := False\<rparr>))"

text \<open>The object goes with the last reference; a thread that has not ended holds one.\<close>

definition up_release :: "(upthread, unit) action" where
  "up_release s = (if up_refs s = Some 0 \<and> up_live s = [] then up_destroy s else (Inr (), s))"

definition up_create :: "string \<Rightarrow> (upthread, unit) action" where
  "up_create name s =
     (let s1 = s\<lparr>up_t_name := name\<rparr> in
      if up_refs s1 = None then (Inl (Std_exception ''bad_weak_ptr''), s1)
      else
        (let t = up_next s1;
             s2 = s1\<lparr>up_live := up_live s1 @ [t], up_next := Suc t\<rparr>
         in if up_joinable s2 then (Inl terminated, s2) else (Inr (), s2\<lparr>up_handle := Some t\<rparr>)))"

text \<open>\<open>entry\<close>, up to the call of \<open>run\<close>, and its end, which gives the reference up.\<close>

definition up_entry :: "nat \<Rightarrow> (upthread, unit) action" where
  "up_entry t s = (Inr (), s\<lparr>up_t_id := Some t, up_ran := up_ran s @ [t]\<rparr>)"

definition up_thread_end :: "nat \<Rightarrow> (upthread, unit) action" where
  "up_thread_end t s = up_release (s\<lparr>up_live := remove1 t (up_live s)\<rparr>)"

text \<open>\<open>join\<close> from another thread, once the thread it waits for has ended.\<close>

definition up_join :: "(upthread, unit) action" where
  "up_join s = (if up_joinable s then (Inr (), s\<lparr>up_handle := None\<rparr>) else (Inr (), s))"

definition up_detach :: "(upthread, unit) action" where
  "up_detach s =
     (if up_joinable s then (Inr (), s\<lparr>up_handle := None\<rparr>)
      else (Inl (Std_exception ''system_error''), s))"

text \<open>
  The move assignment, of the target and the source: the handle moves, the ownership and the threads
  that run on an object do not. Assigning to a joinable handle terminates.
\<close>

definition up_move_assign :: "upthread \<Rightarrow> upthread \<Rightarrow> (exn + unit) \<times> upthread \<times> upthread" where
  "up_move_assign self rhs =
     (let self1 = self\<lparr>up_t_id := up_t_id rhs, up_t_name := up_t_name rhs\<rparr>;
          rhs1 = rhs\<lparr>up_t_name := []\<rparr>
      in if up_joinable self1 then (Inl terminated, self1, rhs1)
         else (Inr (), self1\<lparr>up_handle := up_handle rhs1\<rparr>, rhs1\<lparr>up_handle := None\<rparr>))"

definition up_move_new :: "upthread \<Rightarrow> upthread \<times> upthread" where
  "up_move_new rhs =
     ((upthread_new False)\<lparr>up_t_id := up_t_id rhs, up_t_name := up_t_name rhs, up_handle := up_handle rhs\<rparr>,
      rhs\<lparr>up_t_name := [], up_handle := None\<rparr>)"

text \<open>
  After a move the thread goes on running on the source, which no longer waits for it: a \<open>join\<close> of
  the source does nothing and its destruction no longer terminates.
\<close>

lemma moved_thread_stays:
  assumes "up_move_assign self rhs = (Inr (), self', rhs')"
  shows "up_live rhs' = up_live rhs \<and> up_live self' = up_live self \<and> up_handle self' = up_handle rhs \<and>
         \<not> up_joinable rhs' \<and> up_destroy rhs' = (Inr (), rhs'\<lparr>up_alive := False\<rparr>)"
  using assms by (auto simp: up_move_assign_def up_joinable_def up_destroy_def Let_def split: if_splits)

text \<open>The code that holds references: it copies one, or gives one up.\<close>

definition up_share :: "(upthread, unit) action" where
  "up_share s = (Inr (), s\<lparr>up_refs := map_option Suc (up_refs s)\<rparr>)"

definition up_drop :: "(upthread, unit) action" where
  "up_drop s = up_release (s\<lparr>up_refs := map_option (\<lambda>n. n - 1) (up_refs s)\<rparr>)"

text \<open>What may happen next: calls need a reference, and \<open>join\<close> returns when the thread has ended.\<close>

datatype up_event = Up_create string | Up_join | Up_detach | Up_share | Up_drop | Up_entry nat | Up_end nat

fun up_enabled :: "upthread \<Rightarrow> up_event \<Rightarrow> bool" where
  "up_enabled s (Up_entry t) \<longleftrightarrow> t \<in> set (up_live s) \<and> t \<notin> set (up_ran s)"
| "up_enabled s (Up_end t) \<longleftrightarrow> t \<in> set (up_live s) \<and> t \<in> set (up_ran s)"
| "up_enabled s Up_join \<longleftrightarrow> (\<exists>n. up_refs s = Some (Suc n)) \<and> (\<forall>t. up_handle s = Some t \<longrightarrow> t \<notin> set (up_live s))"
| "up_enabled s _ \<longleftrightarrow> (\<exists>n. up_refs s = Some (Suc n))"

fun up_do :: "up_event \<Rightarrow> (upthread, unit) action" where
  "up_do (Up_create name) = up_create name"
| "up_do Up_join = up_join"
| "up_do Up_detach = up_detach"
| "up_do Up_share = up_share"
| "up_do Up_drop = up_drop"
| "up_do (Up_entry t) = up_entry t"
| "up_do (Up_end t) = up_thread_end t"

text \<open>The states a program that was not terminated goes through; exceptions may be caught.\<close>

inductive up_reachable :: "upthread \<Rightarrow> bool" where
  Up_new: "up_reachable (upthread_new True)"
| Up_step: "up_reachable s \<Longrightarrow> up_enabled s e \<Longrightarrow> up_do e s = (r, s') \<Longrightarrow> r \<noteq> Inl terminated \<Longrightarrow> up_reachable s'"

section \<open>The invariant\<close>

definition up_wf :: "upthread \<Rightarrow> bool" where
  "up_wf s \<longleftrightarrow>
     (\<exists>n. up_refs s = Some n \<and> up_alive s = (0 < n \<or> up_live s \<noteq> [])) \<and>
     distinct (up_live s) \<and> (\<forall>t \<in> set (up_live s). t < up_next s) \<and>
     (\<forall>t. up_handle s = Some t \<longrightarrow> t < up_next s) \<and>
     (\<not> up_alive s \<longrightarrow> up_handle s = None)"

lemmas up_defs = up_create_def up_join_def up_detach_def up_share_def up_drop_def up_entry_def up_thread_end_def
  up_release_def up_destroy_def up_joinable_def

lemma up_wf_step:
  assumes "up_wf s" and "up_enabled s e" and "up_do e s = (r, s')" and "r \<noteq> Inl terminated"
  shows "up_wf s'"
proof (cases e)
  case (Up_end t)
  with assms show ?thesis
    by (auto simp: up_wf_def up_defs split: if_splits dest: in_set_remove1 intro: less_SucI)
next
  case (Up_create name)
  with assms show ?thesis
    by (auto simp: up_wf_def up_defs terminated_def Let_def less_Suc_eq split: if_splits)
qed (use assms in \<open>auto simp: up_wf_def up_defs split: if_splits\<close>)

lemma up_reachable_wf: "up_reachable s \<Longrightarrow> up_wf s"
proof (induction rule: up_reachable.induct)
  case Up_new
  show ?case by (simp add: up_wf_def upthread_new_def)
next
  case (Up_step s e r s')
  then show ?case by (blast intro: up_wf_step)
qed

section \<open>Properties\<close>

text \<open>
  The object lives at least as long as its threads, and goes only without a joinable handle. In
  every reachable state a thread that has not ended finds its object alive, and an object that is
  gone had its thread joined or detached. A call terminates the program only while the handle is
  joinable: by creating a second thread over it, or by giving up the last reference.
\<close>
lemma upthread_outlives_threads:
  assumes "up_reachable s"
  shows "(up_live s \<noteq> [] \<longrightarrow> up_alive s) \<and>
         (\<not> up_alive s \<longrightarrow> up_handle s = None \<and> up_refs s = Some 0) \<and>
         (\<forall>e s'. up_do e s = (Inl terminated, s') \<longrightarrow> up_handle s \<noteq> None \<and>
            (e \<in> range Up_create \<or> up_refs s' = Some 0 \<and> up_live s' = []))"
proof -
  have wf: "up_wf s" by (rule up_reachable_wf [OF assms])
  have "up_handle s \<noteq> None \<and> (e \<in> range Up_create \<or> up_refs s' = Some 0 \<and> up_live s' = [])"
    if "up_do e s = (Inl terminated, s')" for e s'
    using that by (cases e) (auto simp: up_defs terminated_def Let_def split: if_splits)
  with wf show ?thesis unfolding up_wf_def by fastforce
qed

definition upthread_created :: upthread where
  "upthread_created = snd (up_entry 0 (snd (up_create ''Worker'' (upthread_new True))))"

lemma upthread_created_reachable: "up_reachable upthread_created"
proof -
  have 1: "up_do (Up_create ''Worker'') (upthread_new True) = (Inr (), snd (up_create ''Worker'' (upthread_new True)))"
    by (simp add: up_create_def upthread_new_def up_joinable_def Let_def)
  have created: "up_reachable (snd (up_create ''Worker'' (upthread_new True)))"
    by (rule Up_step [OF Up_new _ 1]) (simp_all add: upthread_new_def)
  have entered: "up_do (Up_entry 0) (snd (up_create ''Worker'' (upthread_new True))) = (Inr (), upthread_created)"
    by (simp add: upthread_created_def up_entry_def)
  show ?thesis
    by (rule Up_step [OF created _ entered]) (simp_all add: up_create_def upthread_new_def up_joinable_def Let_def)
qed

lemma upthread_outlives_threads_example: "up_alive upthread_created"
proof -
  have "up_live upthread_created \<noteq> []" by code_simp
  with upthread_outlives_threads [OF upthread_created_reachable] show ?thesis by blast
qed

text \<open>
  An object that is neither joined nor detached takes the program with it. When the last outside
  reference is given up while the thread runs, that goes well; but when the thread then ends, it
  destroys its own object with a joinable handle, and the program is terminated.
\<close>
lemma upthread_unjoined_terminates:
  assumes "up_reachable s" and "up_handle s = Some t" and "up_live s = [t]" and "up_refs s = Some 1"
  shows "\<exists>s1 s2. up_do Up_drop s = (Inr (), s1) \<and> up_reachable s1 \<and> up_alive s1 \<and>
           up_do (Up_end t) s1 = (Inl terminated, s2)"
proof -
  let ?s1 = "s\<lparr>up_refs := Some 0\<rparr>"
  have dropped: "up_do Up_drop s = (Inr (), ?s1)" using assms(3,4) by (simp add: up_defs)
  have reach: "up_reachable ?s1" by (rule Up_step [OF assms(1) _ dropped]) (simp_all add: assms(4))
  from up_reachable_wf [OF this] have alive: "up_alive ?s1" using assms(3) by (auto simp: up_wf_def)
  have "\<exists>s2. up_do (Up_end t) ?s1 = (Inl terminated, s2)" using assms(2,3) by (simp add: up_defs)
  with alive show ?thesis using dropped reach by blast
qed

lemma upthread_unjoined_terminates_example:
  "\<exists>s1 s2. up_do Up_drop upthread_created = (Inr (), s1) \<and> up_do (Up_end 0) s1 = (Inl terminated, s2)"
proof -
  have "up_handle upthread_created = Some 0" "up_live upthread_created = [0]" "up_refs upthread_created = Some 1"
    by code_simp+
  with upthread_unjoined_terminates [OF upthread_created_reachable] show ?thesis by blast
qed

end
