(* ===== verification/ListReverse.thy ===== *)
theory ListReverse
  imports Prelude
begin

text \<open>
  \<open>TestCPP/leetcode/25_rev.cpp\<close>: the reversal of a singly linked list between two nodes. Nodes
  live in an explicit store; a pointer is an address or null, and following the null pointer or
  one that was never allocated is an error of the model. Loops that need not end give \<open>None\<close>.
\<close>

section \<open>Nodes\<close>

type_synonym ptr = "nat option"

record list_node =
  ln_val :: int
  ln_next :: ptr

record list_store =
  ls_nodes :: "nat \<Rightarrow> list_node option"
  ls_new :: nat

definition empty_store :: list_store where
  "empty_store = \<lparr>ls_nodes = Map.empty, ls_new = 0\<rparr>"

definition deref :: "ptr \<Rightarrow> (list_store, nat \<times> list_node) action" where
  "deref p h =
     (case p of
        None \<Rightarrow> (Inl (Undefined ''null dereference''), h)
      | Some a \<Rightarrow>
          (case ls_nodes h a of
             None \<Rightarrow> (Inl (Undefined ''wild dereference''), h)
           | Some n \<Rightarrow> (Inr (a, n), h)))"

definition next_of :: "ptr \<Rightarrow> (list_store, ptr) action" where
  "next_of p = bindE (deref p) (\<lambda>(a, n). ret (ln_next n))"

definition val_of :: "ptr \<Rightarrow> (list_store, int) action" where
  "val_of p = bindE (deref p) (\<lambda>(a, n). ret (ln_val n))"

definition set_link :: "ptr \<Rightarrow> ptr \<Rightarrow> (list_store, unit) action" where
  "set_link p q =
     bindE (deref p) (\<lambda>(a, n) h.
       (Inr (), h\<lparr>ls_nodes := (ls_nodes h)(a \<mapsto> n\<lparr>ln_next := q\<rparr>)\<rparr>))"

definition new_ListNode :: "int \<Rightarrow> (list_store, ptr) action" where
  "new_ListNode val h =
     (Inr (Some (ls_new h)),
      h\<lparr>ls_nodes := (ls_nodes h)(ls_new h \<mapsto> \<lparr>ln_val = val, ln_next = None\<rparr>), ls_new := Suc (ls_new h)\<rparr>)"

section \<open>The program\<close>

definition cst :: "(list_store, ptr \<times> ptr) action" where
  "cst =
     bindE (new_ListNode 2) (\<lambda>head.
     bindE (new_ListNode 1) (\<lambda>n1.
     bindE (set_link head n1) (\<lambda>_.
     bindE (new_ListNode 4) (\<lambda>n2.
     bindE (next_of head) (\<lambda>p.
     bindE (set_link p n2) (\<lambda>_.
     bindE (next_of head) (\<lambda>p.
     bindE (next_of p) (\<lambda>e.
       ret (head, e)))))))))"

text \<open>One round of the loop, with \<open>suf\<close>, \<open>index\<close> and \<open>pre\<close> before and after it.\<close>

definition rev_round :: "ptr \<Rightarrow> ptr \<times> ptr \<times> ptr \<Rightarrow> (list_store, ptr \<times> ptr \<times> ptr) action" where
  "rev_round start = (\<lambda>(suf, index, pre).
     bindE (if suf = start then set_link suf None else ret ()) (\<lambda>_.
     bindE (set_link index suf) (\<lambda>_.
     bindE (next_of pre) (\<lambda>pre'.
       ret (index, pre, pre')))))"

partial_function (option) rev_loop ::
    "ptr \<Rightarrow> ptr \<Rightarrow> ptr \<times> ptr \<times> ptr \<Rightarrow> list_store \<Rightarrow> ((exn + ptr \<times> ptr \<times> ptr) \<times> list_store) option" where
  "rev_loop start end v h =
     (case v of (suf, index, pre) \<Rightarrow>
        if index \<noteq> end \<and> pre \<noteq> None then
          (case rev_round start v h of
             (Inl e, h') \<Rightarrow> Some (Inl e, h')
           | (Inr v', h') \<Rightarrow> rev_loop start end v' h')
        else Some (Inr v, h))"

text \<open>\<open>exit(-1)\<close> is the exit value, the \<open>Inl\<close> of the result.\<close>

definition reverse :: "ptr \<Rightarrow> ptr \<Rightarrow> list_store \<Rightarrow> ((exn + (int + ptr \<times> ptr)) \<times> list_store) option" where
  "reverse start end h =
     (if start = None then Some (Inr (Inl (- 1)), h)
      else if start = end then Some (Inr (Inr (start, end)), h)
      else
        (case bindE (next_of start) (\<lambda>index. bindE (next_of index) (\<lambda>pre. ret (start, index, pre))) h of
           (Inl e, h1) \<Rightarrow> Some (Inl e, h1)
         | (Inr v, h1) \<Rightarrow>
             (case rev_loop start end v h1 of
                None \<Rightarrow> None
              | Some (Inl e, h2) \<Rightarrow> Some (Inl e, h2)
              | Some (Inr (suf, index, pre), h2) \<Rightarrow>
                  Some (bindE (set_link index suf) (\<lambda>_. ret (Inr (index, start))) h2))))"

text \<open>The loop that prints a list: the values up to the null pointer.\<close>

partial_function (option) print_list :: "ptr \<Rightarrow> int list \<Rightarrow> list_store \<Rightarrow> ((exn + int list) \<times> list_store) option" where
  "print_list index acc h =
     (if index = None then Some (Inr (rev acc), h)
      else
        (case bindE (val_of index) (\<lambda>v. bindE (next_of index) (\<lambda>p. ret (v, p))) h of
           (Inl e, h') \<Rightarrow> Some (Inl e, h')
         | (Inr (v, p), h') \<Rightarrow> print_list p (v # acc) h'))"

text \<open>\<open>main\<close>: the values printed before and after the reversal.\<close>

definition rev_main :: "(int list \<times> int list) option" where
  "rev_main =
     (case cst empty_store of
        (Inl e, h) \<Rightarrow> None
      | (Inr (head, e), h) \<Rightarrow>
          (case print_list head [] h of
             Some (Inr before, h1) \<Rightarrow>
               (case reverse head None h1 of
                  Some (Inr (Inr (head', e')), h2) \<Rightarrow>
                    (case print_list head' [] h2 of
                       Some (Inr after, h3) \<Rightarrow> Some (before, after)
                     | _ \<Rightarrow> None)
                | _ \<Rightarrow> None)
           | _ \<Rightarrow> None))"

section \<open>Paths through the store\<close>

text \<open>The nodes \<open>ps\<close> are linked in order and the last of them points to \<open>q\<close>.\<close>

fun linked_to :: "list_store \<Rightarrow> nat list \<Rightarrow> ptr \<Rightarrow> bool" where
  "linked_to h [] q = True"
| "linked_to h [p] q = (\<exists>n. ls_nodes h p = Some n \<and> ln_next n = q)"
| "linked_to h (p # p' # ps) q = ((\<exists>n. ls_nodes h p = Some n \<and> ln_next n = Some p') \<and> linked_to h (p' # ps) q)"

definition vals :: "list_store \<Rightarrow> nat list \<Rightarrow> int list" where
  "vals h ps = map (\<lambda>p. case ls_nodes h p of None \<Rightarrow> 0 | Some n \<Rightarrow> ln_val n) ps"

definition first_or :: "nat list \<Rightarrow> ptr \<Rightarrow> ptr" where
  "first_or ps q = (case ps of [] \<Rightarrow> q | p # _ \<Rightarrow> Some p)"

lemma first_or_simps [simp]: "first_or [] q = q" "first_or (p # ps) q = Some p"
  by (simp_all add: first_or_def)

lemma linked_to_Cons:
  "linked_to h (p # ps) q \<longleftrightarrow> (\<exists>n. ls_nodes h p = Some n \<and> ln_next n = first_or ps q) \<and> linked_to h ps q"
  by (cases ps) auto

lemmas linked_to_split = linked_to_Cons linked_to.simps(1)

declare linked_to.simps(2,3) [simp del]

lemma linked_to_append:
  "linked_to h (ps @ qs) q \<longleftrightarrow> linked_to h ps (first_or qs q) \<and> linked_to h qs q"
  by (induction ps) (auto simp: linked_to_Cons first_or_def split: list.splits)

lemma linked_to_cong:
  assumes "\<And>p. p \<in> set ps \<Longrightarrow> ls_nodes h' p = ls_nodes h p"
  shows "linked_to h' ps q = linked_to h ps q"
  using assms by (induction ps) (auto simp: linked_to_Cons)

text \<open>The effect of the accesses on allocated nodes.\<close>

lemma next_of_run [run_simps]: "ls_nodes h p = Some n \<Longrightarrow> next_of (Some p) h = (Inr (ln_next n), h)"
  by (simp add: next_of_def bindE_def deref_def ret_def)

lemma val_of_run [run_simps]: "ls_nodes h p = Some n \<Longrightarrow> val_of (Some p) h = (Inr (ln_val n), h)"
  by (simp add: val_of_def bindE_def deref_def ret_def)

lemma set_link_run [run_simps]:
  "ls_nodes h p = Some n \<Longrightarrow>
     set_link (Some p) q h = (Inr (), h\<lparr>ls_nodes := (ls_nodes h)(p \<mapsto> n\<lparr>ln_next := q\<rparr>)\<rparr>)"
  by (simp add: set_link_def bindE_def deref_def)

lemma null_run [run_simps]:
  "next_of None h = (Inl (Undefined ''null dereference''), h)"
  by (simp add: next_of_def bindE_def deref_def)

text \<open>Two stores with the same values, that differ at most on the nodes in \<open>A\<close>.\<close>

definition same_vals :: "nat set \<Rightarrow> list_store \<Rightarrow> list_store \<Rightarrow> bool" where
  "same_vals A h h' \<longleftrightarrow>
     (\<forall>p. map_option ln_val (ls_nodes h' p) = map_option ln_val (ls_nodes h p)) \<and>
     (\<forall>p. p \<notin> A \<longrightarrow> ls_nodes h' p = ls_nodes h p)"

lemma same_vals_refl: "same_vals A h h"
  by (simp add: same_vals_def)

lemma same_vals_trans:
  "same_vals A h h' \<Longrightarrow> same_vals B h' h'' \<Longrightarrow> A \<subseteq> C \<Longrightarrow> B \<subseteq> C \<Longrightarrow> same_vals C h h''"
  unfolding same_vals_def by (metis subset_iff)

lemma same_vals_vals: "same_vals A h h' \<Longrightarrow> vals h' ps = vals h ps"
proof (induction ps)
  case (Cons p ps)
  moreover from Cons.prems have "map_option ln_val (ls_nodes h' p) = map_option ln_val (ls_nodes h p)"
    by (simp add: same_vals_def)
  then have "(case ls_nodes h' p of None \<Rightarrow> 0 | Some n \<Rightarrow> ln_val n) = (case ls_nodes h p of None \<Rightarrow> 0 | Some n \<Rightarrow> ln_val n)"
    by (auto split: option.splits)
  ultimately show ?case by (simp add: vals_def)
qed (simp add: vals_def)

definition linked_at :: "list_store \<Rightarrow> nat \<Rightarrow> ptr \<Rightarrow> list_store" where
  "linked_at h p q = h\<lparr>ls_nodes := (ls_nodes h)(p := map_option (ln_next_update (\<lambda>_. q)) (ls_nodes h p))\<rparr>"

lemma set_link_linked: "ls_nodes h p \<noteq> None \<Longrightarrow> set_link (Some p) q h = (Inr (), linked_at h p q)"
  by (auto simp: run_simps linked_at_def)

lemma linked_at_nodes: "ls_nodes (linked_at h p q) r = (if r = p then map_option (ln_next_update (\<lambda>_. q)) (ls_nodes h p) else ls_nodes h r)"
  by (simp add: linked_at_def)

lemma same_vals_linked_at: "p \<in> A \<Longrightarrow> same_vals A h (linked_at h p q)"
  by (auto simp: same_vals_def linked_at_nodes option.map_comp comp_def)

lemma linked_at_other: "p \<notin> set ps \<Longrightarrow> linked_to (linked_at h p r) ps q = linked_to h ps q"
  by (rule linked_to_cong) (auto simp: linked_at_nodes)

lemma linked_at_Cons:
  "ls_nodes h p \<noteq> None \<Longrightarrow> p \<notin> set ps \<Longrightarrow> linked_to h ps q \<Longrightarrow> r = first_or ps q \<Longrightarrow>
     linked_to (linked_at h p r) (p # ps) q"
  by (auto simp: linked_to_Cons linked_at_other linked_at_nodes)

section \<open>The loop\<close>

text \<open>
  From a reversed part \<open>rs\<close> and a part \<open>i # todo\<close> still in its order, the loop moves all of it but
  its last node over. It stops at that node because \<open>end\<close> points to it, or because \<open>end\<close> is null
  and the list ends there.
\<close>

definition stops_at :: "ptr \<Rightarrow> nat list \<Rightarrow> ptr \<Rightarrow> bool" where
  "stops_at end ps q \<longleftrightarrow> end = Some (last ps) \<or> end = None \<and> q = None"

lemma rev_loop_run:
  assumes "linked_to h (r # rs) None" and "linked_to h (i # todo) q" and "distinct (r # rs @ i # todo)"
    and "start \<noteq> Some r" and "start \<notin> Some ` set (i # todo)" and "stops_at end (i # todo) q"
  shows "\<exists>h' s q'. rev_loop start end (Some r, Some i, first_or todo q) h = Some (Inr (Some s, Some (last (i # todo)), q'), h') \<and>
           linked_to h' (rev (butlast (i # todo)) @ r # rs) None \<and> s = hd (rev (butlast (i # todo)) @ [r]) \<and>
           ls_nodes h' (last (i # todo)) \<noteq> None \<and> same_vals (set (r # rs @ i # todo)) h h'"
  using assms
proof (induction todo arbitrary: h r rs i)
  case Nil
  then have "Some i = end \<or> first_or [] q = None" by (auto simp: stops_at_def)
  with Nil show ?case by (subst rev_loop.simps) (auto simp: linked_to_Cons same_vals_refl)
next
  case (Cons m todo)
  have "m \<notin> set todo" "i \<noteq> last (m # todo)" using Cons.prems(3) by (auto dest: last_in_set split: if_splits)
  then have go: "Some i \<noteq> end" using Cons.prems(6) by (auto simp: stops_at_def)
  let ?h = "linked_at h i (Some r)"
  have alloc: "ls_nodes h i \<noteq> None" using Cons.prems(2) by (auto simp: linked_to_Cons)
  have lk: "linked_to ?h (i # r # rs) None" "linked_to ?h (m # todo) q"
    using Cons.prems alloc linked_at_Cons [OF alloc, of "r # rs" None "Some r"]
    by (simp_all add: linked_at_other linked_to_Cons [of h i])
  then obtain n where n: "ls_nodes ?h m = Some n" "ln_next n = first_or todo q" by (auto simp: linked_to_Cons [of _ m])
  have "Some r \<noteq> start" using Cons.prems(4) by simp
  with alloc n have "rev_round start (Some r, Some i, Some m) h = (Inr (Some i, Some m, first_or todo q), ?h)"
    by (simp add: rev_round_def bindE_def set_link_linked next_of_run ret_def)
  with go have step: "rev_loop start end (Some r, Some i, first_or (m # todo) q) h =
      rev_loop start end (Some i, Some m, first_or todo q) ?h" by (subst rev_loop.simps) simp
  have "stops_at end (m # todo) q" using Cons.prems(6) by (simp add: stops_at_def)
  moreover have "distinct (i # (r # rs) @ m # todo)" using Cons.prems(3) by auto
  moreover have "start \<noteq> Some i" "start \<notin> Some ` set (m # todo)" using Cons.prems(5) by auto
  ultimately obtain h' s q' where h': "rev_loop start end (Some i, Some m, first_or todo q) ?h = Some (Inr (Some s, Some (last (m # todo)), q'), h')"
    "linked_to h' (rev (butlast (m # todo)) @ i # r # rs) None" "s = hd (rev (butlast (m # todo)) @ [i])"
    "ls_nodes h' (last (m # todo)) \<noteq> None" "same_vals (set (i # (r # rs) @ m # todo)) ?h h'"
    using Cons.IH [OF lk] by blast
  have "same_vals (set (r # rs @ i # m # todo)) h h'"
    by (rule same_vals_trans [OF same_vals_linked_at [of i "{i}"] h'(5)]) auto
  with h' step show ?case by (intro exI [of _ h'] exI [of _ s] exI [of _ q']) (simp add: hd_append)
qed

section \<open>Printing\<close>

lemma print_list_linked:
  assumes "linked_to h ps None"
  shows "print_list (first_or ps None) acc h = Some (Inr (rev acc @ vals h ps), h)"
  using assms
proof (induction ps arbitrary: acc)
  case Nil
  then show ?case by (subst print_list.simps) (simp add: vals_def)
next
  case (Cons p ps)
  then obtain n where "ls_nodes h p = Some n" "ln_next n = first_or ps None" "linked_to h ps None"
    by (auto simp: linked_to_Cons)
  with Cons.IH [of "ln_val n # acc"] show ?case
    by (subst print_list.simps) (simp add: bindE_def val_of_run next_of_run ret_def vals_def)
qed

lemma print_list_cycle:
  assumes "print_list index acc h = Some res"
  shows "index \<in> {Some p, Some p'} \<longrightarrow> linked_to h [p, p'] (Some p) \<longrightarrow> False"
proof (rule print_list.raw_induct [OF _ assms], intro impI)
  fix f index acc h res
  assume IH: "\<And>index acc h res. f index acc h = Some res \<Longrightarrow>
      index \<in> {Some p, Some p'} \<longrightarrow> linked_to h [p, p'] (Some p) \<longrightarrow> False"
    and body: "(if index = None then Some (Inr (rev acc), h)
      else
        (case bindE (val_of index) (\<lambda>v. bindE (next_of index) (\<lambda>p. ret (v, p))) h of
           (Inl e, h') \<Rightarrow> Some (Inl e, h')
         | (Inr (v, p), h') \<Rightarrow> f p (v # acc) h')) = Some res"
    and index: "index \<in> {Some p, Some p'}" and l: "linked_to h [p, p'] (Some p)"
  from l obtain n n' where "ls_nodes h p = Some n" "ln_next n = Some p'" "ls_nodes h p' = Some n'" "ln_next n' = Some p"
    by (auto simp: linked_to_Cons)
  with index body have "f (Some p') (ln_val n # acc) h = Some res \<or> f (Some p) (ln_val n' # acc) h = Some res"
    by (auto simp: bindE_def val_of_run next_of_run ret_def)
  with IH l show False by blast
qed

section \<open>Properties\<close>

lemma reverse_run:
  assumes "linked_to h (x0 # x1 # x2 # xs) q" and "distinct (x0 # x1 # x2 # xs)" and "stops_at end (x0 # x1 # x2 # xs) q"
  shows "\<exists>h'. reverse (Some x0) end h = Some (Inr (Inr (Some (last (x2 # xs)), Some x0)), h') \<and>
           linked_to h' (rev (x0 # x1 # x2 # xs)) None \<and> same_vals (set (x0 # x1 # x2 # xs)) h h'"
proof -
  let ?ps = "x0 # x1 # x2 # xs" and ?l = "last (x2 # xs)"
  obtain n0 n1 where n: "ls_nodes h x0 = Some n0" "ln_next n0 = Some x1" "ls_nodes h x1 = Some n1" "ln_next n1 = Some x2"
    using assms(1) by (auto simp: linked_to_Cons)
  have last: "?l \<in> set (x2 # xs)" by (rule last_in_set) simp
  with assms(2,3) have go: "Some x0 \<noteq> end" "Some x1 \<noteq> end" "end \<noteq> Some x0" by (auto simp: stops_at_def)
  let ?h1 = "linked_at h x0 None" and ?h = "linked_at (linked_at h x0 None) x1 (Some x0)"
  have alloc: "ls_nodes h x0 \<noteq> None" "ls_nodes ?h1 x1 \<noteq> None" using n assms(2) by (auto simp: linked_at_nodes)
  have lk: "linked_to ?h [x1, x0] None" "linked_to ?h (x2 # xs) q"
    using assms(1,2) n by (auto simp: linked_to_Cons linked_at_other linked_at_nodes)
  then obtain n2 where n2: "ls_nodes ?h x2 = Some n2" "ln_next n2 = first_or xs q" by (auto simp: linked_to_Cons [of _ x2])
  have "rev_round (Some x0) (Some x0, Some x1, Some x2) h = (Inr (Some x1, Some x2, first_or xs q), ?h)"
    using n2 by (simp add: rev_round_def bindE_def set_link_linked [OF alloc(1)] set_link_linked [OF alloc(2)] next_of_run ret_def)
  with go have loop: "rev_loop (Some x0) end (Some x0, Some x1, Some x2) h =
      rev_loop (Some x0) end (Some x1, Some x2, first_or xs q) ?h" by (subst rev_loop.simps) simp
  have "stops_at end (x2 # xs) q" using assms(3) by (simp add: stops_at_def)
  then obtain h2 s q' where h2: "rev_loop (Some x0) end (Some x1, Some x2, first_or xs q) ?h = Some (Inr (Some s, Some ?l, q'), h2)"
    "linked_to h2 (rev (butlast (x2 # xs)) @ [x1, x0]) None" "s = hd (rev (butlast (x2 # xs)) @ [x1])"
    "ls_nodes h2 ?l \<noteq> None" "same_vals (set ?ps) ?h h2"
    using rev_loop_run [OF lk, of "Some x0" "end"] assms(2) by (auto simp: insert_commute)
  let ?h' = "linked_at h2 ?l (Some s)"
  have whole: "rev ?ps = ?l # rev (butlast (x2 # xs)) @ [x1, x0]"
    using append_butlast_last_id [of "x2 # xs"] by (metis list.distinct(1) rev.simps(2) rev_rev_ident append_assoc
      append_Cons append_Nil rev_append rev_singleton_conv)
  have fst: "Some s = first_or (rev (butlast (x2 # xs)) @ [x1, x0]) None"
    using h2(3) by (cases "rev (butlast (x2 # xs))") auto
  have "?l \<notin> set (rev (butlast (x2 # xs)) @ [x1, x0])" using assms(2) whole by (metis distinct_rev distinct.simps(2))
  then have "linked_to ?h' (rev ?ps) None" unfolding whole by (rule linked_at_Cons [OF h2(4) _ h2(2) fst])
  moreover have "same_vals (set ?ps) h ?h'"
    using same_vals_trans [OF same_vals_linked_at [of x0 "{x0}" h None] same_vals_linked_at [of x1 "{x1}" _ "Some x0"], of "set ?ps"]
      same_vals_trans [OF _ h2(5), of "set ?ps" h "set ?ps"] same_vals_trans [OF _ same_vals_linked_at [of ?l "set ?ps" h2 "Some s"], of "set ?ps" h "set ?ps"]
      last by auto
  moreover have "reverse (Some x0) end h = Some (Inr (Inr (Some ?l, Some x0)), ?h')"
    using go n loop h2 by (simp add: reverse_def bindE_def next_of_run ret_def set_link_linked)
  ultimately show ?thesis by blast
qed

text \<open>
  C28: Lists of three nodes or more are reversed. From the first node to \<open>end\<close>, the last node of the
  range, or null for the whole list, the links of the range are turned around in place: the new
  head and tail are returned, the range is a list of its own that prints the values in reverse,
  no node was created or changed its value, and no other node was touched.
\<close>
theorem reverse_correct:
  assumes "linked_to h ps q" and "distinct ps" and "3 \<le> length ps"
    and "end = Some (last ps) \<or> end = None \<and> q = None"
  shows "\<exists>h'. reverse (Some (hd ps)) end h = Some (Inr (Inr (Some (last ps), Some (hd ps))), h') \<and>
           linked_to h' (rev ps) None \<and>
           print_list (Some (last ps)) [] h' = Some (Inr (rev (vals h ps)), h') \<and>
           (\<forall>p. p \<notin> set ps \<longrightarrow> ls_nodes h' p = ls_nodes h p)"
proof -
  obtain x0 x1 x2 xs where ps: "ps = x0 # x1 # x2 # xs"
    using assms(3) by (auto simp: numeral_3_eq_3 Suc_le_length_iff)
  obtain h' where h': "reverse (Some x0) end h = Some (Inr (Inr (Some (last (x2 # xs)), Some x0)), h')"
    "linked_to h' (rev ps) None" "same_vals (set ps) h h'"
    using reverse_run [of h x0 x1 x2 xs q "end"] assms unfolding ps stops_at_def by blast
  have "rev ps = last ps # rev (butlast ps)" using ps by (metis append_butlast_last_id list.distinct(1) rev_eq_Cons_iff rev_rev_ident)
  then have "first_or (rev ps) None = Some (last ps)" by (metis first_or_simps(2))
  with print_list_linked [OF h'(2), of "[]"] same_vals_vals [OF h'(3), of "rev ps"]
  have "print_list (Some (last ps)) [] h' = Some (Inr (rev (vals h ps)), h')"
    by (simp add: vals_def rev_map)
  with h' ps show ?thesis by (auto simp: same_vals_def)
qed

text \<open>The store \<open>cst\<close> builds, and its list.\<close>

definition cst_store :: list_store where
  "cst_store = snd (cst empty_store)"

lemma cst_nodes:
  "ls_nodes cst_store 0 = Some \<lparr>ln_val = 2, ln_next = Some 1\<rparr>"
  "ls_nodes cst_store 1 = Some \<lparr>ln_val = 1, ln_next = Some 2\<rparr>"
  "ls_nodes cst_store 2 = Some \<lparr>ln_val = 4, ln_next = None\<rparr>"
  by code_simp+

lemma cst_list: "linked_to cst_store [0, 1, 2] None" "vals cst_store [0, 1, 2] = [2, 1, 4]"
  by (simp_all only: linked_to_Cons first_or_simps cst_nodes linked_to.simps(1)) (simp_all add: vals_def cst_nodes cst_nodes(2) [simplified])

theorem reverse_correct_witness:
  "\<exists>h'. reverse (Some 0) None cst_store = Some (Inr (Inr (Some 2, Some 0)), h') \<and>
     print_list (Some 2) [] h' = Some (Inr [4, 1, 2], h')"
proof -
  have "distinct [0, 1, 2 :: nat]" "3 \<le> length [0, 1, 2 :: nat]" by simp_all
  from reverse_correct [OF cst_list(1) this, of None] show ?thesis
    by (simp only: cst_list(2) list.sel last.simps rev.simps append.simps simp_thms list.distinct if_False if_True) blast
qed

text \<open>
  Shorter ranges are not reversed. Of a range of two nodes the result is a cycle, because the
  link of the first is only cleared inside the loop, which does not run: printing it never ends.
  Of a list of one node, with \<open>end\<close> null, the null pointer behind it is followed.
\<close>
lemma reverse_short_lists:
  assumes "p \<noteq> p'" and "linked_to h [p, p'] q" and "end = Some p' \<or> end = None \<and> q = None"
    and "linked_to h [s] None"
  shows "(\<exists>h'. reverse (Some p) end h = Some (Inr (Inr (Some p', Some p)), h') \<and>
            linked_to h' [p, p'] (Some p) \<and> print_list (Some p') [] h' = None) \<and>
         reverse (Some s) None h = Some (Inl (Undefined ''null dereference''), h)"
proof -
  obtain n n' where n: "ls_nodes h p = Some n" "ln_next n = Some p'" "ls_nodes h p' = Some n'" "ln_next n' = q"
    using assms(2) by (auto simp: linked_to_Cons)
  let ?h' = "linked_at h p' (Some p)"
  have "rev_loop (Some p) end (Some p, Some p', q) h = Some (Inr (Some p, Some p', q), h)"
    using assms(3) by (subst rev_loop.simps) auto
  then have "reverse (Some p) end h = Some (Inr (Inr (Some p', Some p)), ?h')"
    using n assms(1,3) by (auto simp: reverse_def bindE_def next_of_run ret_def set_link_linked)
  moreover have l: "linked_to ?h' [p, p'] (Some p)" using n assms(1) by (auto simp: linked_to_Cons linked_at_nodes)
  moreover have "print_list (Some p') [] ?h' = None"
    using print_list_cycle [of "Some p'" "[]" ?h' _ p p'] l by (cases "print_list (Some p') [] ?h'") auto
  moreover have "reverse (Some s) None h = Some (Inl (Undefined ''null dereference''), h)"
    using assms(4) by (auto simp: linked_to_Cons reverse_def bindE_def next_of_run null_run)
  ultimately show ?thesis by blast
qed

lemma reverse_short_lists_example:
  "\<exists>h'. reverse (Some 1) None cst_store = Some (Inr (Inr (Some 2, Some 1)), h') \<and>
     print_list (Some 2) [] h' = None"
proof -
  have "linked_to cst_store [1, 2] None" "linked_to cst_store [2] None" using cst_list(1) by (simp_all add: linked_to_Cons)
  then show ?thesis using reverse_short_lists [of 1 2 cst_store None None 2] by auto
qed

end
