(* ===== verification/CommonPrefix.thy ===== *)
theory CommonPrefix
  imports Prelude
begin

text \<open>
  \<open>TestCPP/leetcode/lm.cpp\<close>: the longest common prefix of some strings through a trie. A node owns a
  vector of links, which is indexed without a check: an index at or beyond the size is an error of
  the model. Whether an allocation succeeds is a parameter, by depth.
\<close>

section \<open>The node\<close>

datatype trieNode = TrieNode (tn_value: char) (tn_links: "trieNode option list")

definition vec_get :: "'a list \<Rightarrow> int \<Rightarrow> exn + 'a" where
  "vec_get ls i = at ls i"

definition vec_set :: "'a list \<Rightarrow> int \<Rightarrow> 'a \<Rightarrow> exn + 'a list" where
  "vec_set ls i x = bindS (at ls i) (\<lambda>_. Inr (ls[nat i := x]))"

text \<open>The loop of the constructor, over the indices that are left.\<close>

fun clear_links :: "int list \<Rightarrow> trieNode option list \<Rightarrow> exn + trieNode option list" where
  "clear_links [] ls = Inr ls"
| "clear_links (i # is) ls = bindS (vec_set ls i None) (clear_links is)"

text \<open>\<open>links\<close> starts as the empty vector and is never resized.\<close>

definition trieNode_new :: "char \<Rightarrow> exn + trieNode" where
  "trieNode_new ch = bindS (clear_links [0..25] []) (\<lambda>ls. Inr (TrieNode ch ls))"

text \<open>The loop of the destructor, which reads every link; each child that is there is destroyed.\<close>

primrec trieNode_delete :: "trieNode \<Rightarrow> exn + unit" where
  "trieNode_delete (TrieNode ch ls) =
     foldl (\<lambda>r i. bindS r (\<lambda>_. bindS (vec_get (map (map_option trieNode_delete) ls) i) (\<lambda>link.
       case link of None \<Rightarrow> Inr () | Some del \<Rightarrow> del))) (Inr ()) [0..25]"

text \<open>The move constructor, which stores into the empty vector of the new node.\<close>

fun move_links :: "int list \<Rightarrow> trieNode option list \<Rightarrow> trieNode option list \<Rightarrow>
    exn + trieNode option list \<times> trieNode option list" where
  "move_links [] to from = Inr (to, from)"
| "move_links (i # is) to from =
     bindS (vec_get from i) (\<lambda>l. bindS (vec_set to i l) (\<lambda>to'. bindS (vec_set from i None) (move_links is to')))"

definition trieNode_move :: "trieNode \<Rightarrow> exn + trieNode \<times> trieNode" where
  "trieNode_move rhs =
     bindS (move_links [0..int (length (tn_links rhs)) - 1] [] (tn_links rhs)) (\<lambda>(to, from).
       Inr (TrieNode (tn_value rhs) to, TrieNode (tn_value rhs) from))"

text \<open>
  The move assignment, which stores into the vector the node has. The children that were there are
  overwritten, not destroyed. Assigned to itself, a node clears its own links.
\<close>

definition trieNode_move_assign :: "trieNode \<Rightarrow> trieNode \<Rightarrow> exn + trieNode \<times> trieNode" where
  "trieNode_move_assign self rhs =
     bindS (move_links [0..int (length (tn_links rhs)) - 1] (tn_links self) (tn_links rhs)) (\<lambda>(to, from).
       Inr (TrieNode (tn_value rhs) to, TrieNode (tn_value rhs) from))"

definition trieNode_move_self :: "trieNode \<Rightarrow> exn + trieNode" where
  "trieNode_move_self self =
     bindS (clear_links [0..int (length (tn_links self)) - 1] (tn_links self)) (\<lambda>ls.
       Inr (TrieNode (tn_value self) ls))"

definition get :: "trieNode \<Rightarrow> char" where
  "get n = tn_value n"

definition char_index :: "char \<Rightarrow> int" where
  "char_index c = (if of_char c < (128 :: int) then of_char c else of_char c - 256) - 97"

text \<open>\<open>res[position]\<close>: the terminating NUL at the end of the string.\<close>

definition char_at :: "string \<Rightarrow> nat \<Rightarrow> exn + char" where
  "char_at res position =
     (if position < length res then Inr (res ! position)
      else if position = length res then Inr NUL
      else Inl (Undefined ''string index out of range''))"

text \<open>\<open>insert\<close>: its result and the node it leaves.\<close>

function trie_insert :: "(nat \<Rightarrow> bool) \<Rightarrow> string \<Rightarrow> nat \<Rightarrow> trieNode \<Rightarrow> exn + (int \<times> trieNode)" where
  "trie_insert alloc res position (TrieNode v ls) =
     (if position > length res then Inl (Undefined ''string index out of range'')
      else
        bindS (char_at res position) (\<lambda>c.
          if c = NUL then Inr (0, TrieNode v ls)
          else
            (let i = char_index c in
             bindS (vec_get ls i) (\<lambda>l.
               case l of
                 None \<Rightarrow>
                   if alloc position then
                     bindS (trieNode_new c) (\<lambda>n.
                     bindS (trie_insert alloc res (position + 1) n) (\<lambda>(r, n').
                     bindS (vec_set ls i (Some n')) (\<lambda>ls'. Inr (r, TrieNode v ls'))))
                   else Inr (- 1, TrieNode v ls)
               | Some n \<Rightarrow>
                   bindS (trie_insert alloc res (position + 1) n) (\<lambda>(r, n').
                   bindS (vec_set ls i (Some n')) (\<lambda>ls'. Inr (r, TrieNode v ls')))))))"
  by pat_completeness auto
termination
  by (relation "measure (\<lambda>(alloc, res, position, n). Suc (length res) - position)") auto

declare trie_insert.simps [simp del]

section \<open>The trie\<close>

definition trie_new :: "exn + trieNode" where
  "trie_new = trieNode_new CHR ''#''"

definition insert_str :: "(nat \<Rightarrow> bool) \<Rightarrow> string \<Rightarrow> trieNode \<Rightarrow> exn + (int \<times> trieNode)" where
  "insert_str alloc str root = (if str = [] then Inr (0, root) else trie_insert alloc str 0 root)"

fun children :: "trieNode \<Rightarrow> trieNode list" where
  "children (TrieNode v ls) = map the (filter (\<lambda>l. l \<noteq> None) ls)"

lemma children_size: "c \<in> set (children n) \<Longrightarrow> size c < size n"
proof (cases n)
  case (TrieNode v ls)
  assume "c \<in> set (children n)"
  with TrieNode have "Some c \<in> set ls" by auto
  then have "size_option size (Some c) \<le> size_list (size_option size) ls" by (rule size_list_estimation') simp
  with TrieNode show ?thesis by simp
qed

text \<open>The loop of \<open>getCommonPrefix\<close>: it goes on while the number of children is not 1.\<close>

function prefix_loop :: "trieNode \<Rightarrow> string \<Rightarrow> exn + string" where
  "prefix_loop index res =
     (if length (children index) \<noteq> 1 then
        (case children index of
           [] \<Rightarrow> Inl (Undefined ''dereference of end()'')
         | c # _ \<Rightarrow> prefix_loop c (res @ [get c]))
      else Inr res)"
  by pat_completeness auto
termination
  by (relation "measure (\<lambda>(n, res). size n)") (auto intro: children_size)

declare prefix_loop.simps [simp del]

definition getCommonPrefix :: "trieNode \<Rightarrow> exn + string" where
  "getCommonPrefix root = prefix_loop root []"

fun insert_all :: "(nat \<Rightarrow> bool) \<Rightarrow> string list \<Rightarrow> trieNode \<Rightarrow> exn + trieNode" where
  "insert_all alloc [] root = Inr root"
| "insert_all alloc (s # ss) root = bindS (insert_str alloc s root) (\<lambda>(r, root'). insert_all alloc ss root')"

definition longestCommonPrefix :: "(nat \<Rightarrow> bool) \<Rightarrow> string list \<Rightarrow> exn + string" where
  "longestCommonPrefix alloc strs =
     bindS trie_new (\<lambda>root. bindS (insert_all alloc strs root) getCommonPrefix)"

definition lcp_main :: "(nat \<Rightarrow> bool) \<Rightarrow> exn + string" where
  "lcp_main alloc = bindS (longestCommonPrefix alloc [''flower'', ''flow'', ''flight'']) (\<lambda>res. Inr (res @ [LF]))"

section \<open>Moves\<close>

lemma move_links_run:
  "length from = k + length is \<Longrightarrow> is = [int k..int (length from) - 1] \<Longrightarrow> length from \<le> length to \<Longrightarrow>
   move_links is to from =
     Inr (take k to @ drop k from @ drop (length from) to, take k from @ replicate (length is) None)"
proof (induction "is" arbitrary: to "from" k)
  case (Cons i js)
  have k: "k < length from" using Cons(2) by simp
  have "[int k..int (length from) - 1] = int k # [int k + 1..int (length from) - 1]" using k by (intro upto_rec1) simp
  moreover have "int k + 1 = int (Suc k)" by simp
  ultimately have i: "i = int k" "js = [int (Suc k)..int (length from) - 1]" using Cons(3) by (metis list.inject)+
  have "move_links js (to[k := from ! k]) (from[k := None]) =
      Inr (take (Suc k) (to[k := from ! k]) @ drop (Suc k) (from[k := None]) @
             drop (length (from[k := None])) (to[k := from ! k]),
           take (Suc k) (from[k := None]) @ replicate (length js) None)"
  proof (rule Cons(1))
    show "length (from[k := None]) = Suc k + length js" using Cons(2) by simp
    show "js = [int (Suc k)..int (length (from[k := None])) - 1]" by (simp only: i(2) length_list_update)
  qed (use Cons(4) in simp)
  moreover have "take (Suc k) (to[k := from ! k]) = take k to @ [from ! k]"
    using k Cons(4) by (simp add: take_Suc_conv_app_nth)
  moreover have "take (Suc k) (from[k := None]) = take k from @ [None]"
    using k by (simp add: take_Suc_conv_app_nth)
  moreover have "drop k from = from ! k # drop (Suc k) from" using k by (simp add: Cons_nth_drop_Suc)
  ultimately show ?case using k i(1) Cons(4) by (simp add: vec_get_def vec_set_def)
qed simp

text \<open>
  Between nodes with enough links the assignment hands the children over and leaves the source
  without any; the links of the target that the source has not are kept.
\<close>

lemma move_assign_moves:
  assumes "length (tn_links rhs) \<le> length (tn_links self)"
  shows "trieNode_move_assign self rhs =
           Inr (TrieNode (get rhs) (tn_links rhs @ drop (length (tn_links rhs)) (tn_links self)),
                TrieNode (get rhs) (replicate (length (tn_links rhs)) None))"
proof -
  let ?is = "[0..int (length (tn_links rhs)) - 1]"
  have len: "length ?is = length (tn_links rhs)" by simp
  have "move_links ?is (tn_links self) (tn_links rhs) =
      Inr (take 0 (tn_links self) @ drop 0 (tn_links rhs) @ drop (length (tn_links rhs)) (tn_links self),
           take 0 (tn_links rhs) @ replicate (length ?is) None)"
    by (rule move_links_run) (use assms len in simp_all)
  then show ?thesis by (simp only: trieNode_move_assign_def get_def len bindS_simps take_0 drop_0 append_Nil prod.case)
qed

section \<open>Words below a node\<close>

text \<open>The node at the end of a path of letters, each found at its index.\<close>

fun node_at :: "string \<Rightarrow> trieNode \<Rightarrow> trieNode option" where
  "node_at [] n = Some n"
| "node_at (c # cs) n =
     (case at (tn_links n) (char_index c) of
        Inr (Some m) \<Rightarrow> node_at cs m
      | _ \<Rightarrow> None)"

lemma at_update_same: "at ls i = Inr (Some x) \<Longrightarrow> ls[nat i := Some x] = ls"
  by (metis at_def list_update_id old.sum.distinct(1) sum.inject(2))

text \<open>Inserting along a path that is there already changes nothing.\<close>

lemma insert_present:
  assumes "node_at (drop position res) n \<noteq> None" and "NUL \<notin> set res" and "position \<le> length res"
  shows "trie_insert alloc res position n = Inr (0, n)"
  using assms
proof (induction alloc res position n rule: trie_insert.induct)
  case (1 alloc res position v ls)
  show ?case
  proof (cases "position = length res")
    case True
    then show ?thesis by (subst trie_insert.simps) (simp add: char_at_def)
  next
    case False
    with 1(5) have lt: "position < length res" by simp
    then have drop: "drop position res = res ! position # drop (position + 1) res" by (simp add: Cons_nth_drop_Suc)
    with 1(3) obtain m where m: "at ls (char_index (res ! position)) = Inr (Some m)" "node_at (drop (position + 1) res) m \<noteq> None"
      by (auto split: sum.splits option.splits)
    have nul: "res ! position \<noteq> NUL" using 1(4) lt nth_mem by metis
    have "trie_insert alloc res (position + 1) m = Inr (0, m)"
      by (rule 1(2)) (use 1(4,5) lt nul m in \<open>simp_all add: char_at_def vec_get_def\<close>)
    moreover have "vec_set ls (char_index (res ! position)) (Some m) = Inr ls"
      using m(1) at_update_same [OF m(1)] by (simp add: vec_set_def)
    ultimately show ?thesis using lt nul m(1)
      by (subst trie_insert.simps) (simp add: char_at_def Let_def vec_get_def)
  qed
qed

section \<open>Properties\<close>

lemma new_undefined: "trieNode_new ch = Inl (Undefined ''index out of range'')"
proof -
  have "[0..25 :: int] = 0 # [1..25]" by (simp add: upto_rec1)
  then show ?thesis by (simp add: trieNode_new_def vec_set_def at_def)
qed

text \<open>
  The trie cannot be used, and its search is inverted. Every construction of a node stores into
  an empty vector, so the program has no defined behaviour on any input, as has the destruction of
  a node without links. And on a trie that was there, with all its words beginning with the same
  letter, the search stops before that letter, and below a node without children it follows a
  link that does not exist.
\<close>
lemma common_prefix_undefined:
  "longestCommonPrefix alloc strs = Inl (Undefined ''index out of range'') \<and>
   trieNode_delete (TrieNode ch []) = Inl (Undefined ''index out of range'') \<and>
   (\<forall>root c. children root = [c] \<longrightarrow> getCommonPrefix root = Inr []) \<and>
   (\<forall>root c d more. children root = c # d # more \<and> children c = [] \<longrightarrow>
      getCommonPrefix root = Inl (Undefined ''dereference of end()''))"
proof (intro conjI allI impI)
  show "longestCommonPrefix alloc strs = Inl (Undefined ''index out of range'')"
    by (simp add: longestCommonPrefix_def trie_new_def new_undefined)
  show "trieNode_delete (TrieNode ch []) = Inl (Undefined ''index out of range'')" by code_simp
next
  fix root c assume "children root = [c]"
  then show "getCommonPrefix root = Inr []" unfolding getCommonPrefix_def by (subst prefix_loop.simps) simp
next
  fix root c d more assume "children root = c # d # more \<and> children c = []"
  then show "getCommonPrefix root = Inl (Undefined ''dereference of end()'')"
    unfolding getCommonPrefix_def by (subst prefix_loop.simps, simp) (subst prefix_loop.simps, simp)
qed

lemma common_prefix_undefined_example:
  "getCommonPrefix (TrieNode CHR ''#'' [Some (TrieNode CHR ''a'' [None])]) = Inr []"
proof -
  have "children (TrieNode CHR ''#'' [Some (TrieNode CHR ''a'' [None])]) = [TrieNode CHR ''a'' [None]]" by simp
  with common_prefix_undefined show ?thesis by blast
qed

end
