(* ===== verification/MaxProduct.thy ===== *)
theory MaxProduct
  imports Prelude
begin

text \<open>
  \<open>TestCPP/algorithm.cc\<close>, \<open>maxproduct\<close>: the largest product of positive parts of a length, by a
  table filled from small lengths to large, in an array of its own whose cells have no value until
  they are written. Multiplications and the size of the array are checked against the range of \<open>int\<close>.
\<close>

section \<open>The program\<close>

text \<open>A cell of the array that was not written has no value; a store is checked against the bounds.\<close>

definition read_cell :: "int option list \<Rightarrow> int \<Rightarrow> exn + int" where
  "read_cell product i =
     bindS (at product i) (\<lambda>c.
       case c of None \<Rightarrow> Inl (Undefined ''indeterminate value'') | Some v \<Rightarrow> Inr v)"

definition store_cell :: "int option list \<Rightarrow> int \<Rightarrow> int \<Rightarrow> exn + int option list" where
  "store_cell product i v =
     (if 0 \<le> i \<and> i < int (length product) then Inr (product[nat i := Some v])
      else Inl (Undefined ''store outside the array''))"

text \<open>The inner loop over \<open>j = 1 .. i / 2\<close>; \<open>best\<close> is the variable \<open>max\<close>.\<close>

fun mp_inner :: "int option list \<Rightarrow> nat \<Rightarrow> nat list \<Rightarrow> int \<Rightarrow> exn + int" where
  "mp_inner product i [] best = Inr best"
| "mp_inner product i (j # js) best =
     bindS (read_cell product (int j)) (\<lambda>x.
     bindS (read_cell product (int i - int j)) (\<lambda>y.
     bindS (as_int (x * y)) (\<lambda>tmp.
       mp_inner product i js (if best < tmp then tmp else best))))"

text \<open>The outer loop over \<open>i\<close>.\<close>

fun mp_outer :: "int option list \<Rightarrow> nat list \<Rightarrow> exn + int option list" where
  "mp_outer product [] = Inr product"
| "mp_outer product (i # is) =
     bindS (mp_inner product i [1..<i div 2 + 1] 0) (\<lambda>best.
     bindS (store_cell product (int i) best) (\<lambda>product. mp_outer product is))"

text \<open>The array has \<open>length + 1\<close> cells, and its first four are written whatever its size is.\<close>

definition maxproduct :: "int \<Rightarrow> exn + int" where
  "maxproduct len =
     (if len = 0 then Inr 0
      else if len = 1 then Inr 1
      else if len = 2 then Inr 2
      else if len = 3 then Inr 3
      else
        bindS (as_int (len + 1)) (\<lambda>size.
          if size < 0 then Inl (Std_exception ''bad_array_new_length'')
          else
            bindS (store_cell (replicate (nat size) None) 0 0) (\<lambda>product.
            bindS (store_cell product 1 1) (\<lambda>product.
            bindS (store_cell product 2 2) (\<lambda>product.
            bindS (store_cell product 3 3) (\<lambda>product.
            bindS (mp_outer product [4..<nat len + 1]) (\<lambda>product.
              read_cell product len)))))))"

section \<open>What it computes\<close>

text \<open>\<open>m\<close> is the largest product of positive parts that sum to \<open>n\<close>.\<close>

definition best_split :: "nat \<Rightarrow> int \<Rightarrow> bool" where
  "best_split n m \<longleftrightarrow>
     (\<exists>xs. sum_list xs = n \<and> 0 \<notin> set xs \<and> int (prod_list xs) = m) \<and>
     (\<forall>xs. sum_list xs = n \<longrightarrow> 0 \<notin> set xs \<longrightarrow> int (prod_list xs) \<le> m)"

lemma best_splitD:
  assumes "best_split n m"
  shows "sum_list xs = n \<Longrightarrow> 0 \<notin> set xs \<Longrightarrow> int (prod_list xs) \<le> m"
    and "\<exists>xs. sum_list xs = n \<and> 0 \<notin> set xs \<and> int (prod_list xs) = m"
  using assms unfolding best_split_def by blast+

lemma best_split_ge: "best_split n m \<Longrightarrow> 0 < n \<Longrightarrow> int n \<le> m"
  using best_splitD(1) [of n m "[n]"] by simp

text \<open>The first three entries.\<close>

lemma prod_bound_small:
  fixes xs :: "nat list"
  assumes "0 \<notin> set xs" and "sum_list xs \<le> 3"
  shows "prod_list xs \<le> max 1 (sum_list xs)"
  using assms
proof (induction xs)
  case (Cons x xs)
  then have x: "0 < x" and IH: "prod_list xs \<le> max 1 (sum_list xs)" by auto
  consider "sum_list xs = 0" | "sum_list xs = 1" | "sum_list xs = 2" using Cons.prems(2) x by fastforce
  then show ?case
  proof cases
    case 1
    then have "xs = []" using Cons.prems(1) by (cases xs) auto
    then show ?thesis by simp
  next
    case 2
    with IH have "prod_list xs \<le> 1" by simp
    then have "x * prod_list xs \<le> x * 1" by (rule mult_le_mono2)
    then have "prod_list (x # xs) \<le> Suc x" unfolding prod_list.Cons by linarith
    moreover have "max 1 (sum_list (x # xs)) = Suc x" using 2 by simp
    ultimately show ?thesis by (simp only:)
  next
    case 3
    with IH have "prod_list xs \<le> 2" by simp
    moreover have "x = 1" using Cons.prems(2) x 3 by simp
    ultimately show ?thesis using 3 by simp
  qed
qed simp

lemma best_split_small:
  assumes "0 < n" and "n \<le> 3"
  shows "best_split n (int n)"
  unfolding best_split_def
proof (intro conjI allI impI)
  show "\<exists>xs. sum_list xs = n \<and> 0 \<notin> set xs \<and> int (prod_list xs) = int n"
    using assms by (intro exI [of _ "[n]"]) simp
  fix xs
  assume "sum_list xs = n" "0 \<notin> set xs"
  with prod_bound_small [of xs] assms show "int (prod_list xs) \<le> int n" by simp
qed

text \<open>The lengths whose largest product is an \<open>int\<close>: those up to 58.\<close>

definition max_fits :: "nat \<Rightarrow> bool" where
  "max_fits n \<longleftrightarrow> (\<forall>xs. sum_list xs = n \<longrightarrow> 0 \<notin> set xs \<longrightarrow> int (prod_list xs) \<le> INT_MAX)"

lemma cube_bound: "(x :: nat) ^ 3 \<le> 3 ^ x"
proof (induction x rule: less_induct)
  case (less x)
  consider "x = 0" | "x = 1" | "x = 2" | "x = 3" | k where "x = Suc k" "3 \<le> k"
    by (cases x; cases "x \<le> 3") (auto simp: le_Suc_eq numeral_3_eq_3 numeral_2_eq_2)
  then show ?case
  proof cases
    case (5 k)
    have "(k + 1) ^ 3 = k ^ 3 + 3 * k ^ 2 + 3 * k + 1" by (simp add: power3_eq_cube power2_eq_square algebra_simps)
    moreover have "3 * k ^ 2 \<le> k ^ 3" using 5(2) by (simp add: power3_eq_cube power2_eq_square)
    moreover have "3 * k + 1 \<le> k ^ 3"
    proof -
      have "3 * k + 1 \<le> 4 * k" using 5(2) by simp
      also have "\<dots> \<le> (3 * 3) * k" by simp
      also have "\<dots> \<le> (k * k) * k" using 5(2) by (intro mult_le_mono) auto
      finally show ?thesis by (simp add: power3_eq_cube)
    qed
    ultimately have "(k + 1) ^ 3 \<le> 3 * k ^ 3" by simp
    also have "\<dots> \<le> 3 * 3 ^ k" using less [of k] 5(1) by simp
    finally show ?thesis using 5(1) by simp
  qed simp_all
qed

lemma prod_cube_bound: "(prod_list xs :: nat) ^ 3 \<le> 3 ^ sum_list xs"
proof (induction xs)
  case (Cons x xs)
  have "prod_list (x # xs) ^ 3 = x ^ 3 * prod_list xs ^ 3" by (simp add: power_mult_distrib)
  also have "\<dots> \<le> 3 ^ x * 3 ^ sum_list xs" by (intro mult_le_mono cube_bound Cons.IH)
  finally show ?case by (simp add: power_add)
qed simp

lemma max_fits_iff: "max_fits n \<longleftrightarrow> n \<le> 58"
proof
  assume fits: "max_fits n"
  show "n \<le> 58"
  proof (rule ccontr)
    assume n: "\<not> n \<le> 58"
    let ?xs = "(n - 57) # replicate 19 3"
    have "sum_list ?xs = n" "0 \<notin> set ?xs" using n by (auto simp: sum_list_replicate)
    with fits have "int (prod_list ?xs) \<le> INT_MAX" unfolding max_fits_def by blast
    moreover have "prod_list ?xs = (n - 57) * 3 ^ 19" by (simp add: prod_list_replicate)
    moreover have "2 * 3 ^ 19 \<le> (n - 57) * (3 ^ 19 :: nat)" using n by (intro mult_le_mono1) simp
    ultimately show False by (simp add: INT_MAX_def)
  qed
next
  assume n: "n \<le> 58"
  show "max_fits n"
    unfolding max_fits_def
  proof (intro allI impI)
    fix xs :: "nat list"
    assume s: "sum_list xs = n"
    have "prod_list xs ^ 3 \<le> (3 :: nat) ^ n" using prod_cube_bound [of xs] s by simp
    also have "\<dots> \<le> 3 ^ 58" using n by (intro power_increasing) simp_all
    also have "\<dots> < (2 ^ 31) ^ 3" by simp
    finally have "prod_list xs < 2 ^ 31" by (rule power_less_imp_less_base) simp
    then show "int (prod_list xs) \<le> INT_MAX" by (simp add: INT_MAX_def)
  qed
qed

section \<open>The table\<close>

text \<open>The cells before \<open>i\<close> are filled.\<close>

definition mp_table :: "int option list \<Rightarrow> nat \<Rightarrow> bool" where
  "mp_table product i \<longleftrightarrow>
     4 \<le> i \<and> i \<le> length product \<and> (\<forall>k. 0 < k \<longrightarrow> k < i \<longrightarrow> (\<exists>m. product ! k = Some m \<and> best_split k m))"

abbreviation cell :: "int option list \<Rightarrow> nat \<Rightarrow> int" where
  "cell product k \<equiv> the (product ! k)"

lemma mp_tableD:
  assumes "mp_table product i" and "0 < k" and "k < i"
  shows "read_cell product (int k) = Inr (cell product k)" and "best_split k (cell product k)"
proof -
  from assms obtain m where "product ! k = Some m" "best_split k m" unfolding mp_table_def by blast
  moreover from assms have "k < length product" by (simp add: mp_table_def)
  ultimately show "read_cell product (int k) = Inr (cell product k)" "best_split k (cell product k)"
    by (simp_all add: read_cell_def)
qed

abbreviation overflow :: exn where
  "overflow \<equiv> Undefined ''signed overflow''"

lemma mp_inner_result:
  assumes "\<forall>j \<in> set js. j \<le> i \<and> read_cell product (int j) = Inr (v j) \<and> read_cell product (int (i - j)) = Inr (v (i - j))"
  shows "if \<forall>j \<in> set js. fits_int (v j * v (i - j))
         then \<exists>m. mp_inner product i js best = Inr m \<and> best \<le> m \<and> (\<forall>j \<in> set js. v j * v (i - j) \<le> m) \<and>
                (m = best \<or> (\<exists>j \<in> set js. m = v j * v (i - j)))
         else mp_inner product i js best = Inl overflow"
  using assms
proof (induction js arbitrary: best)
  case (Cons j js)
  let ?t = "v j * v (i - j)"
  have r: "read_cell product (int j) = Inr (v j)" "read_cell product (int i - int j) = Inr (v (i - j))"
    using Cons.prems by (auto simp: of_nat_diff)
  have rest: "\<forall>j \<in> set js. j \<le> i \<and> read_cell product (int j) = Inr (v j) \<and> read_cell product (int (i - j)) = Inr (v (i - j))"
    using Cons.prems by (metis list.set_intros(2))
  show ?case
  proof (cases "fits_int ?t")
    case False
    with r show ?thesis by (simp add: as_int_def)
  next
    case True
    then have run: "mp_inner product i (j # js) best = mp_inner product i js (if best < ?t then ?t else best)"
      using r by simp
    show ?thesis
    proof (cases "\<forall>j \<in> set js. fits_int (v j * v (i - j))")
      case all: True
      with Cons.IH [OF rest, of "if best < ?t then ?t else best"] obtain m
        where m: "mp_inner product i js (if best < ?t then ?t else best) = Inr m" "(if best < ?t then ?t else best) \<le> m"
          "\<forall>j \<in> set js. v j * v (i - j) \<le> m"
          "m = (if best < ?t then ?t else best) \<or> (\<exists>j \<in> set js. m = v j * v (i - j))" by auto
      then have "best \<le> m" "?t \<le> m" "m = best \<or> m = ?t \<or> (\<exists>j \<in> set js. m = v j * v (i - j))"
        by (auto split: if_splits)
      with m(1,3) True all run show ?thesis by auto
    next
      case False
      with Cons.IH [OF rest, of "if best < ?t then ?t else best"] run show ?thesis by auto
    qed
  qed
qed simp

text \<open>Two filled cells whose lengths make up \<open>i\<close> are a way to split \<open>i\<close>.\<close>

lemma cells_split:
  assumes "mp_table product i" and "0 < j" and "j < i"
  shows "\<exists>zs. sum_list zs = i \<and> 0 \<notin> set zs \<and> int (prod_list zs) = cell product j * cell product (i - j)"
proof -
  have jr: "0 < i - j" "i - j < i" using assms by auto
  obtain xs ys where "sum_list xs = j" "0 \<notin> set xs" "int (prod_list xs) = cell product j"
    and "sum_list ys = i - j" "0 \<notin> set ys" "int (prod_list ys) = cell product (i - j)"
    using best_splitD(2) [OF mp_tableD(2) [OF assms]] best_splitD(2) [OF mp_tableD(2) [OF assms(1) jr]] by blast
  with assms(3) show ?thesis by (intro exI [of _ "xs @ ys"]) simp
qed

text \<open>No way to cut the length gives more than the largest product of two cells.\<close>

lemma mp_bound:
  assumes t: "mp_table product i" and upper: "\<And>j. 0 < j \<Longrightarrow> j < i \<Longrightarrow> cell product j * cell product (i - j) \<le> m"
    and zs: "sum_list zs = i" "0 \<notin> set zs"
  shows "int (prod_list zs) \<le> m"
proof -
  have n: "4 \<le> i" using t by (simp add: mp_table_def)
  note sub = mp_tableD(2) [OF t]
  obtain z ws where z: "zs = z # ws" using n zs(1) by (cases zs) auto
  show ?thesis
  proof (cases "ws = []")
    case True
    have "2 \<le> cell product 2" "int i - 2 \<le> cell product (i - 2)"
      using best_split_ge [OF sub [of 2]] best_split_ge [OF sub [of "i - 2"]] n by auto
    then have "2 * (int i - 2) \<le> cell product 2 * cell product (i - 2)" using n by (intro mult_mono) auto
    also have "\<dots> \<le> m" using upper [of 2] n by simp
    finally show ?thesis using True z zs n by simp
  next
    case False
    with z zs have p: "0 < z" "sum_list ws = i - z" "0 \<notin> set ws" by auto
    moreover have "0 < sum_list ws" using False p(3) by (cases ws) auto
    ultimately have zr: "z < i" "0 < i - z" "i - z < i" by auto
    have "int z \<le> cell product z" using best_split_ge [OF sub [OF p(1) zr(1)] p(1)] .
    moreover have "int (prod_list ws) \<le> cell product (i - z)"
      using best_splitD(1) [OF sub [OF zr(2,3)] p(2,3)] .
    ultimately have "int z * int (prod_list ws) \<le> cell product z * cell product (i - z)"
      using p(1) by (intro mult_mono) auto
    with upper [OF p(1) zr(1)] z show ?thesis by simp
  qed
qed

text \<open>One more cell.\<close>

lemma mp_inner_best:
  assumes t: "mp_table product i"
  shows "if max_fits i then \<exists>m. mp_inner product i [1..<i div 2 + 1] 0 = Inr m \<and> best_split i m
         else mp_inner product i [1..<i div 2 + 1] 0 = Inl overflow"
proof -
  note upt_Suc [simp del]
  let ?js = "[1..<i div 2 + 1]" and ?v = "cell product"
  have n: "4 \<le> i" using t by (simp add: mp_table_def)
  then have js: "0 < j \<and> j < i \<and> 0 < i - j \<and> i - j < i" if "j \<in> set ?js" for j using that by auto
  have half: "\<exists>k \<in> set ?js. ?v k * ?v (i - k) = ?v j * ?v (i - j)" if "0 < j" "j < i" for j
  proof (cases "j \<le> i div 2")
    case False
    then have "i - j \<in> set ?js" "i - (i - j) = j" using that by auto
    then show ?thesis by (metis mult.commute)
  next
    case True
    with that have "j \<in> set ?js" by (simp add: less_Suc_eq_le)
    then show ?thesis by blast
  qed
  have reads: "\<forall>j \<in> set ?js. j \<le> i \<and> read_cell product (int j) = Inr (?v j) \<and> read_cell product (int (i - j)) = Inr (?v (i - j))"
    using js mp_tableD(1) [OF t] by (meson less_imp_le)
  note inner = mp_inner_result [OF reads, of 0]
  have pos: "0 \<le> ?v j * ?v (i - j)" if "0 < j" "j < i" for j
    using cells_split [OF t that] by (metis of_nat_0_le_iff)
  have fit: "fits_int (?v j * ?v (i - j)) \<longleftrightarrow> ?v j * ?v (i - j) \<le> INT_MAX" if "0 < j" "j < i" for j
    using pos [OF that] by (auto simp: fits_int_def INT_MAX_def)
  show ?thesis
  proof (cases "\<forall>j \<in> set ?js. fits_int (?v j * ?v (i - j))")
    case False
    then obtain j where j: "j \<in> set ?js" "\<not> fits_int (?v j * ?v (i - j))" by blast
    with js fit have "INT_MAX < ?v j * ?v (i - j)" by force
    with cells_split [OF t] js [OF j(1)] have "\<not> max_fits i" unfolding max_fits_def by (metis not_le)
    with inner [unfolded if_not_P [OF False]] show ?thesis by (simp only: if_False)
  next
    case True
    with inner obtain m where m: "mp_inner product i ?js 0 = Inr m" "\<forall>j \<in> set ?js. ?v j * ?v (i - j) \<le> m"
      "m = 0 \<or> (\<exists>j \<in> set ?js. m = ?v j * ?v (i - j))" by auto
    have upper: "?v j * ?v (i - j) \<le> m" if "0 < j" "j < i" for j using half [OF that] m(2) by metis
    have "0 < ?v 1 * ?v (i - 1)"
      using best_split_ge [OF mp_tableD(2) [OF t, of 1]] best_split_ge [OF mp_tableD(2) [OF t, of "i - 1"]] n by simp
    with upper [of 1] n have "0 < m" by simp
    with m(3) obtain j where j: "j \<in> set ?js" "m = ?v j * ?v (i - j)" by auto
    with cells_split [OF t] js have "\<exists>zs. sum_list zs = i \<and> 0 \<notin> set zs \<and> int (prod_list zs) = m" by blast
    with mp_bound [OF t upper] have best: "best_split i m" by (simp add: best_split_def)
    have "m \<le> INT_MAX" using True j js fit by auto
    with best have "max_fits i" unfolding max_fits_def best_split_def by force
    with m(1) best show ?thesis by auto
  qed
qed

lemma mp_outer_table:
  assumes "mp_table product i" and "length product = Suc n" and "i \<le> Suc n"
  shows "if \<forall>k \<in> {i..n}. max_fits k then \<exists>q. mp_outer product [i..<Suc n] = Inr q \<and> mp_table q (Suc n)
         else mp_outer product [i..<Suc n] = Inl overflow"
  using assms
proof (induction "Suc n - i" arbitrary: product i)
  case 0
  then show ?case by simp
next
  case (Suc k)
  note upt_Suc [simp del]
  from Suc have i: "i \<le> n" by simp
  then have up: "[i..<Suc n] = i # [Suc i..<Suc n]" by (simp add: upt_conv_Cons)
  have range: "{i..n} = insert i {Suc i..n}" using i by auto
  show ?case
  proof (cases "max_fits i")
    case False
    with mp_inner_best [OF Suc.prems(1)] up range show ?thesis by simp
  next
    case True
    with mp_inner_best [OF Suc.prems(1)] obtain m
      where m: "mp_inner product i [1..<i div 2 + 1] 0 = Inr m" "best_split i m" by auto
    let ?p = "product[i := Some m]"
    have "i < length product" using Suc.prems(2) i by simp
    then have "mp_table ?p (Suc i)" using Suc.prems(1) m(2)
      by (auto simp: mp_table_def less_Suc_eq)
    moreover have "mp_outer product [i..<Suc n] = mp_outer ?p [Suc i..<Suc n]"
      using m(1) up Suc.prems(2) i by (simp add: store_cell_def)
    ultimately show ?thesis using Suc.hyps(1) [of "Suc i" ?p] Suc.hyps(2) Suc.prems(2) i True range
      by simp
  qed
qed

section \<open>Properties\<close>

text \<open>
  C34: \<open>maxproduct\<close> is optimal. For every positive length up to 58 it returns a value, which is the
  product of some positive parts of the length, and no other parts have a larger product. From 59 on
  the largest product is no \<open>int\<close>, and the program runs into a signed overflow, which is undefined.
\<close>
theorem maxproduct_optimal:
  assumes "0 < n" and "int n \<le> INT_MAX"
  shows "if n \<le> 58 then \<exists>m. maxproduct (int n) = Inr m \<and> best_split n m
         else maxproduct (int n) = Inl (Undefined ''signed overflow'')"
proof (cases "n \<le> 3")
  case True
  with assms(1) consider "n = 1" | "n = 2" | "n = 3" by linarith
  then have "maxproduct (int n) = Inr (int n)" by cases (simp_all add: maxproduct_def)
  with True best_split_small [OF assms(1)] show ?thesis by simp
next
  case False
  note upt_Suc [simp del]
  show ?thesis
  proof (cases "int n = INT_MAX")
    case True
    then have "\<not> n \<le> 58" by (simp add: INT_MAX_def)
    moreover have "maxproduct (int n) = Inl overflow" unfolding True by (simp add: maxproduct_def INT_MAX_def as_int_def fits_int_def)
    ultimately show ?thesis by simp
  next
    case less: False
    define cells :: "int option list" where "cells = replicate (Suc n) None"
    have size: "length cells = Suc n" by (simp add: cells_def)
    let ?p = "cells[0 := Some 0, 1 := Some 1, 2 := Some 2, 3 := Some 3]"
    have t: "mp_table ?p 4"
      unfolding mp_table_def
    proof (intro conjI allI impI)
      fix k :: nat
      assume k: "0 < k" "k < 4"
      then consider "k = 1" | "k = 2" | "k = 3" by linarith
      then have "?p ! k = Some (int k)" using False by cases (simp_all add: nth_list_update size)
      moreover have "best_split k (int k)" using best_split_small k by simp
      ultimately show "\<exists>m. ?p ! k = Some m \<and> best_split k m" by blast
    qed (use False size in simp_all)
    have "as_int (int n + 1) = Inr (int n + 1)" using assms less by (simp add: as_int_def fits_int_def INT_MAX_def)
    then have run: "maxproduct (int n) = bindS (mp_outer ?p [4..<Suc n]) (\<lambda>q. read_cell q (int n))"
      using False size by (simp add: maxproduct_def store_cell_def nat_add_distrib cells_def [symmetric] del: replicate_Suc)
    have "4 \<le> Suc n" "length ?p = Suc n" using False size by simp_all
    note outer = mp_outer_table [OF t this(2,1)]
    show ?thesis
    proof (cases "n \<le> 58")
      case True
      with outer obtain q where q: "mp_outer ?p [4..<Suc n] = Inr q" "mp_table q (Suc n)" by (auto simp: max_fits_iff)
      with mp_tableD [OF q(2) assms(1)] run True show ?thesis by auto
    next
      case big: False
      then have "\<not> (\<forall>k \<in> {4..n}. max_fits k)" by (auto simp: max_fits_iff)
      with outer run big show ?thesis by simp
    qed
  qed
qed

theorem maxproduct_optimal_witness:
  "maxproduct 8 = Inr 18 \<and> best_split 8 18 \<and> maxproduct 59 = Inl (Undefined ''signed overflow'')"
proof -
  have "maxproduct 8 = Inr 18" by code_simp
  then show ?thesis
    using maxproduct_optimal [of 8] maxproduct_optimal [of 59] by (simp add: INT_MAX_def)
qed

end
