(* ===== verification/Searching.thy ===== *)
theory Searching
  imports Prelude
begin

text \<open>
  \<open>TestCPP/sear_ld.cc\<close>: binary search in a matrix whose rows are sorted and follow each other, and
  \<open>TestCPP/leetcode/meeting.cpp\<close>: the pairs of a vector with a given sum, found by two indices
  moving towards each other over the sorted vector. Indices are the source's; an access outside
  a vector and a sum beyond \<open>int\<close> are errors of the model.
\<close>

section \<open>sear_ld: the loops\<close>

text \<open>\<open>(start + end) / 2\<close> on \<open>int\<close>, rounding towards zero.\<close>

definition half :: "int \<Rightarrow> int" where
  "half s = (if s < 0 then - (- s div 2) else s div 2)"

lemma half_bounds: "a \<le> b \<Longrightarrow> a \<le> half (a + b) \<and> half (a + b) \<le> b"
  by (auto simp: half_def)

text \<open>The loop of \<open>find_mid\<close> on the row, with \<open>start\<close> and \<open>end\<close>.\<close>

function find_loop :: "int list \<Rightarrow> int \<Rightarrow> int \<Rightarrow> int \<Rightarrow> exn + bool" where
  "find_loop row target start fin =
     (if start \<le> fin then
        bindS (at row (half (start + fin))) (\<lambda>v.
          if v = target then Inr True
          else if target < v then find_loop row target start (half (start + fin) - 1)
          else find_loop row target (half (start + fin) + 1) fin)
      else Inr False)"
  by pat_completeness auto
termination
proof (relation "measure (\<lambda>(row, target, start, fin). nat (fin - start + 1))")
  fix row :: "int list" and target start fin v :: int
  assume "start \<le> fin"
  then have "start \<le> half (start + fin) \<and> half (start + fin) \<le> fin" by (rule half_bounds)
  then show "((row, target, start, half (start + fin) - 1), (row, target, start, fin))
      \<in> measure (\<lambda>(row, target, start, fin). nat (fin - start + 1))"
    and "((row, target, half (start + fin) + 1, fin), (row, target, start, fin))
      \<in> measure (\<lambda>(row, target, start, fin). nat (fin - start + 1))"
    by auto
qed auto

declare find_loop.simps [simp del]

definition find_mid :: "int list list \<Rightarrow> int \<Rightarrow> int \<Rightarrow> exn + bool" where
  "find_mid matrix row target =
     bindS (at matrix row) (\<lambda>r. find_loop r target 0 (int (length r) - 1))"

text \<open>The loop of \<open>lower_bound\<close>: \<open>start\<close> and \<open>end\<close> when it is left, by the break or by its
  condition.\<close>

function bound_loop :: "int list list \<Rightarrow> int \<Rightarrow> int \<Rightarrow> int \<Rightarrow> exn + int \<times> int" where
  "bound_loop matrix target start fin =
     (if start \<le> fin then
        bindS (at matrix (half (start + fin))) (\<lambda>r.
        bindS (at r 0) (\<lambda>v.
          if target = v then Inr (start, fin)
          else if target < v then bound_loop matrix target start (half (start + fin) - 1)
          else bound_loop matrix target (half (start + fin) + 1) fin))
      else Inr (start, fin))"
  by pat_completeness auto
termination
proof (relation "measure (\<lambda>(matrix, target, start, fin). nat (fin - start + 1))")
  fix matrix :: "int list list" and r :: "int list" and target start fin v :: int
  assume "start \<le> fin"
  then have "start \<le> half (start + fin) \<and> half (start + fin) \<le> fin" by (rule half_bounds)
  then show "((matrix, target, start, half (start + fin) - 1), (matrix, target, start, fin))
      \<in> measure (\<lambda>(matrix, target, start, fin). nat (fin - start + 1))"
    and "((matrix, target, half (start + fin) + 1, fin), (matrix, target, start, fin))
      \<in> measure (\<lambda>(matrix, target, start, fin). nat (fin - start + 1))"
    by auto
qed auto

declare bound_loop.simps [simp del]

text \<open>After the loop the index returned is \<open>end\<close>, not \<open>mid\<close>.\<close>

definition lower_bound :: "int list list \<Rightarrow> int \<Rightarrow> exn + int" where
  "lower_bound matrix target =
     bindS (bound_loop matrix target 0 (int (length matrix) - 1)) (\<lambda>(start, fin).
       if start > int (length matrix) - 1 \<or> fin < 0 then Inr (- 1) else Inr fin)"

definition searchMatrix :: "int list list \<Rightarrow> int \<Rightarrow> exn + bool" where
  "searchMatrix matrix target =
     (if matrix = [] \<or> hd matrix = [] then Inr False
      else
        bindS (at (hd matrix) 0) (\<lambda>low.
          if target < low then Inr False
          else
            bindS (at matrix (int (length matrix) - 1)) (\<lambda>r.
            bindS (at r (int (length (hd matrix)) - 1)) (\<lambda>high.
              if target > high then Inr False
              else
                bindS (lower_bound matrix target) (\<lambda>upper.
                  if upper < 0 then Inr False else find_mid matrix upper target)))))"

section \<open>sear_ld: correctness\<close>

text \<open>Both searches halve a range of indices over which the values do not fall.\<close>

lemma bisect:
  fixes v :: "nat \<Rightarrow> int"
  assumes "\<forall>j < n. \<forall>i \<le> j. v i \<le> v j" and "m < n"
  shows "target < v m \<Longrightarrow> \<forall>k < n. int m - 1 < int k \<longrightarrow> target < v k"
    and "v m < target \<Longrightarrow> \<forall>k < n. int k < int m + 1 \<longrightarrow> v k < target"
proof -
  show "\<forall>k < n. int m - 1 < int k \<longrightarrow> target < v k" if "target < v m"
  proof (intro allI impI)
    fix k assume "k < n" "int m - 1 < int k"
    moreover from this have "v m \<le> v k" using assms(1) by simp
    ultimately show "target < v k" using that by simp
  qed
  show "\<forall>k < n. int k < int m + 1 \<longrightarrow> v k < target" if "v m < target"
  proof (intro allI impI)
    fix k assume "k < n" "int k < int m + 1"
    moreover from this have "v k \<le> v m" using assms by simp
    ultimately show "v k < target" using that by simp
  qed
qed

text \<open>The binary search on a row decides membership.\<close>

lemma find_loop_correct:
  assumes "sorted row" and "0 \<le> start" and "fin < int (length row)"
    and "\<forall>k < length row. fin < int k \<longrightarrow> target < row ! k"
    and "\<forall>k < length row. int k < start \<longrightarrow> row ! k < target"
  shows "find_loop row target start fin = Inr (target \<in> set row)"
  using assms
proof (induction row target start fin rule: find_loop.induct)
  case (1 row target start fin)
  note prems = 1(3-7)
  show ?case
  proof (cases "start \<le> fin")
    case False
    have "target \<noteq> row ! k" if k: "k < length row" for k
    proof (cases "int k < start")
      case True
      with prems(5) k show ?thesis by fastforce
    next
      case c: False
      with False prems(4) k show ?thesis by fastforce
    qed
    then have "target \<notin> set row" by (metis in_set_conv_nth)
    with False show ?thesis by (subst find_loop.simps) simp
  next
    case True
    define m where "m = nat (half (start + fin))"
    have b: "start \<le> half (start + fin)" "half (start + fin) \<le> fin" using half_bounds [OF True] by auto
    have m: "half (start + fin) = int m" "m < length row" using b prems(2,3) by (auto simp: m_def)
    have row: "at row (half (start + fin)) = Inr (row ! m)" using m by simp
    have "\<forall>j < length row. \<forall>i \<le> j. row ! i \<le> row ! j" using sorted_nth_mono [OF prems(1)] by blast
    note halves = bisect [OF this m(2), of target]
    consider "row ! m = target" | "target < row ! m" | "row ! m < target" by fastforce
    then show ?thesis
    proof cases
      case 1
      with row True m(2) show ?thesis by (subst find_loop.simps) auto
    next
      case 2
      have "find_loop row target start fin = find_loop row target start (half (start + fin) - 1)"
        using row True 2 by (subst find_loop.simps) simp
      with "1.IH"(1) [OF True, of "row ! m"] prems b halves(1) [OF 2] m 2 show ?thesis by simp
    next
      case 3
      have "find_loop row target start fin = find_loop row target (half (start + fin) + 1) fin"
        using row True 3 by (subst find_loop.simps) simp
      with "1.IH"(2) [OF True, of "row ! m"] prems b halves(2) [OF 3] m 3 show ?thesis by simp
    qed
  qed
qed

lemma find_mid_correct:
  assumes "k < length matrix" and "sorted (matrix ! k)"
  shows "find_mid matrix (int k) target = Inr (target \<in> set (matrix ! k))"
  using assms find_loop_correct [OF assms(2), of 0 "int (length (matrix ! k)) - 1" target]
  by (simp add: find_mid_def)

text \<open>The search for the row, with the first column increasing.\<close>

definition first_column :: "int list list \<Rightarrow> bool" where
  "first_column matrix \<longleftrightarrow>
     (\<forall>r \<in> set matrix. r \<noteq> []) \<and>
     (\<forall>i j. i < j \<longrightarrow> j < length matrix \<longrightarrow> matrix ! i ! 0 < matrix ! j ! 0)"

lemma first_column_mono:
  assumes "first_column matrix" and "i \<le> j" and "j < length matrix"
  shows "matrix ! i ! 0 \<le> matrix ! j ! 0"
  using assms unfolding first_column_def by (cases "i = j") (auto simp: less_imp_le)

lemma bound_loop_result:
  assumes "first_column matrix" and "0 \<le> start" and "fin < int (length matrix)" and "start \<le> fin + 1"
    and "\<forall>k < length matrix. fin < int k \<longrightarrow> target < matrix ! k ! 0"
    and "\<forall>k < length matrix. int k < start \<longrightarrow> matrix ! k ! 0 < target"
  shows "\<exists>s f. bound_loop matrix target start fin = Inr (s, f) \<and> f < int (length matrix) \<and>
           ((\<forall>k < length matrix. matrix ! k ! 0 \<noteq> target) \<longrightarrow>
              s = f + 1 \<and> (\<forall>k < length matrix. int k \<le> f \<longleftrightarrow> matrix ! k ! 0 < target))"
  using assms
proof (induction matrix target start fin rule: bound_loop.induct)
  case (1 matrix target start fin)
  note prems = 1(3-8)
  show ?case
  proof (cases "start \<le> fin")
    case False
    with prems(4) have sf: "start = fin + 1" by simp
    with prems(5,6) have "\<forall>k < length matrix. int k \<le> fin \<longleftrightarrow> matrix ! k ! 0 < target"
      by (metis linorder_not_le order.asym zless_add1_eq order_le_less)
    with False sf prems(3) show ?thesis by (subst bound_loop.simps) simp
  next
    case True
    define m where "m = nat (half (start + fin))"
    have b: "start \<le> half (start + fin)" "half (start + fin) \<le> fin" using half_bounds [OF True] by auto
    have m: "half (start + fin) = int m" "m < length matrix" using b prems(2,3) by (auto simp: m_def)
    have row: "at matrix (half (start + fin)) = Inr (matrix ! m)" using m by simp
    have "matrix ! m \<noteq> []" using prems(1) m(2) unfolding first_column_def by simp
    then have cell: "at (matrix ! m) 0 = Inr (matrix ! m ! 0)" using at_nat [of 0 "matrix ! m"] by simp
    have "\<forall>j < length matrix. \<forall>i \<le> j. matrix ! i ! 0 \<le> matrix ! j ! 0"
      using first_column_mono [OF prems(1)] by blast
    note halves = bisect [of "length matrix" "\<lambda>k. matrix ! k ! 0", OF this m(2), of target]
    consider "matrix ! m ! 0 = target" | "target < matrix ! m ! 0" | "matrix ! m ! 0 < target" by fastforce
    then show ?thesis
    proof cases
      case 1
      with row cell True m(2) prems(3) show ?thesis by (subst bound_loop.simps) auto
    next
      case 2
      have "bound_loop matrix target start fin = bound_loop matrix target start (half (start + fin) - 1)"
        using row cell True 2 by (subst bound_loop.simps) simp
      with "1.IH"(1) [OF True, of "matrix ! m ! 0"] prems b halves(1) [OF 2] m 2 show ?thesis by simp
    next
      case 3
      have "bound_loop matrix target start fin = bound_loop matrix target (half (start + fin) + 1) fin"
        using row cell True 3 by (subst bound_loop.simps) simp
      with "1.IH"(2) [OF True, of "matrix ! m ! 0"] prems b halves(2) [OF 3] m 3 show ?thesis by simp
    qed
  qed
qed

text \<open>The matrices the search is meant for: rows of one length, sorted, each below the next.\<close>

definition ordered_matrix :: "nat \<Rightarrow> int list list \<Rightarrow> bool" where
  "ordered_matrix w matrix \<longleftrightarrow>
     matrix \<noteq> [] \<and> 0 < w \<and> (\<forall>r \<in> set matrix. length r = w \<and> sorted r) \<and>
     (\<forall>i j. i < j \<longrightarrow> j < length matrix \<longrightarrow> matrix ! i ! (w - 1) < matrix ! j ! 0)"

lemma ordered_row:
  assumes "ordered_matrix w matrix" and "k < length matrix"
  shows "length (matrix ! k) = w" and "sorted (matrix ! k)" and "0 < w"
  using assms by (simp_all add: ordered_matrix_def)

lemma ordered_bounds:
  assumes o: "ordered_matrix w matrix" and k: "k < length matrix" and x: "x \<in> set (matrix ! k)"
  shows "matrix ! k ! 0 \<le> x" and "x \<le> matrix ! k ! (w - 1)"
proof -
  note row = ordered_row [OF o k]
  from x obtain i where i: "i < w" "x = matrix ! k ! i" using row(1) by (metis in_set_conv_nth)
  with sorted_nth_mono [OF row(2), of 0 i] sorted_nth_mono [OF row(2), of i "w - 1"] row
  show "matrix ! k ! 0 \<le> x" and "x \<le> matrix ! k ! (w - 1)" by simp_all
qed

lemma ordered_first_column:
  assumes o: "ordered_matrix w matrix"
  shows "first_column matrix"
  unfolding first_column_def
proof (intro conjI allI impI ballI)
  fix r assume "r \<in> set matrix" with o show "r \<noteq> []" by (auto simp: ordered_matrix_def)
next
  fix i j :: nat
  assume ij: "i < j" "j < length matrix"
  then have "i < length matrix" by simp
  with ordered_row [OF o this] have "matrix ! i ! 0 \<in> set (matrix ! i)" by simp
  from ordered_bounds(2) [OF o \<open>i < length matrix\<close> this] o ij
  show "matrix ! i ! 0 < matrix ! j ! 0" unfolding ordered_matrix_def by force
qed

text \<open>What \<open>lower_bound\<close> returns.\<close>

lemma lower_bound_result:
  assumes "first_column matrix"
  shows "\<exists>s f. bound_loop matrix target 0 (int (length matrix) - 1) = Inr (s, f) \<and>
           lower_bound matrix target =
             Inr (if s > int (length matrix) - 1 \<or> f < 0 then - 1 else f) \<and> f < int (length matrix) \<and>
           ((\<forall>k < length matrix. matrix ! k ! 0 \<noteq> target) \<longrightarrow>
              s = f + 1 \<and> (\<forall>k < length matrix. int k \<le> f \<longleftrightarrow> matrix ! k ! 0 < target))"
proof -
  obtain s f where b: "bound_loop matrix target 0 (int (length matrix) - 1) = Inr (s, f)"
    "f < int (length matrix)"
    "(\<forall>k < length matrix. matrix ! k ! 0 \<noteq> target) \<longrightarrow>
       s = f + 1 \<and> (\<forall>k < length matrix. int k \<le> f \<longleftrightarrow> matrix ! k ! 0 < target)"
    using bound_loop_result [OF assms, of 0 "int (length matrix) - 1" target] by auto
  have "lower_bound matrix target = Inr (if s > int (length matrix) - 1 \<or> f < 0 then - 1 else f)"
    using b(1) by (simp add: lower_bound_def)
  with b show ?thesis by blast
qed

text \<open>The two tests before the search pass for every value between the corners.\<close>

lemma searchMatrix_between:
  assumes o: "ordered_matrix w matrix"
    and "matrix ! 0 ! 0 \<le> target" and "target \<le> matrix ! (length matrix - 1) ! (w - 1)"
  shows "searchMatrix matrix target =
           bindS (lower_bound matrix target) (\<lambda>upper. if upper < 0 then Inr False else find_mid matrix upper target)"
proof -
  have ne: "matrix \<noteq> []" using o by (simp add: ordered_matrix_def)
  then have l: "0 < length matrix" "length matrix - 1 < length matrix" by auto
  have hd: "hd matrix = matrix ! 0" using ne by (rule hd_conv_nth)
  note r0 = ordered_row [OF o l(1)] and rl = ordered_row [OF o l(2)]
  have "at (matrix ! 0) 0 = Inr (matrix ! 0 ! 0)" using at_nat [of 0 "matrix ! 0"] r0 by simp
  moreover have "at matrix (int (length matrix) - 1) = Inr (matrix ! (length matrix - 1))"
    using at_nat [OF l(2)] l(1) by (simp add: of_nat_diff)
  moreover have "at (matrix ! (length matrix - 1)) (int w - 1) = Inr (matrix ! (length matrix - 1) ! (w - 1))"
    using at_nat [of "w - 1" "matrix ! (length matrix - 1)"] rl by (simp add: of_nat_diff)
  moreover have "matrix ! 0 \<noteq> []" using r0 by auto
  ultimately show ?thesis using assms(2,3) ne hd r0(1) by (simp add: searchMatrix_def)
qed

lemma searchMatrix_outside:
  assumes o: "ordered_matrix w matrix"
    and "target < matrix ! 0 ! 0 \<or> matrix ! (length matrix - 1) ! (w - 1) < target"
  shows "searchMatrix matrix target = Inr False"
proof -
  have ne: "matrix \<noteq> []" using o by (simp add: ordered_matrix_def)
  then have l: "0 < length matrix" "length matrix - 1 < length matrix" by auto
  have hd: "hd matrix = matrix ! 0" using ne by (rule hd_conv_nth)
  note r0 = ordered_row [OF o l(1)] and rl = ordered_row [OF o l(2)]
  have "at (matrix ! 0) 0 = Inr (matrix ! 0 ! 0)" using at_nat [of 0 "matrix ! 0"] r0 by simp
  moreover have "at matrix (int (length matrix) - 1) = Inr (matrix ! (length matrix - 1))"
    using at_nat [OF l(2)] l(1) by (simp add: of_nat_diff)
  moreover have "at (matrix ! (length matrix - 1)) (int w - 1) = Inr (matrix ! (length matrix - 1) ! (w - 1))"
    using at_nat [of "w - 1" "matrix ! (length matrix - 1)"] rl by (simp add: of_nat_diff)
  moreover have "matrix ! 0 \<noteq> []" using r0 by auto
  ultimately show ?thesis using assms(2) ne hd r0(1) by (auto simp: searchMatrix_def)
qed

text \<open>No value lies outside the corners.\<close>

lemma ordered_corners:
  assumes o: "ordered_matrix w matrix" and r: "r \<in> set matrix" and x: "x \<in> set r"
  shows "matrix ! 0 ! 0 \<le> x \<and> x \<le> matrix ! (length matrix - 1) ! (w - 1)"
proof -
  from r obtain k where k: "k < length matrix" "r = matrix ! k" by (metis in_set_conv_nth)
  with x have xk: "x \<in> set (matrix ! k)" by simp
  note b = ordered_bounds [OF o k(1) xk]
  have "matrix ! 0 ! 0 \<le> matrix ! k ! 0" using first_column_mono [OF ordered_first_column [OF o], of 0 k] k by simp
  moreover have "matrix ! k ! (w - 1) \<le> matrix ! (length matrix - 1) ! (w - 1)"
  proof (cases "k = length matrix - 1")
    case False
    then have kl: "k < length matrix - 1" and l: "length matrix - 1 < length matrix" using k by simp_all
    have "matrix ! (length matrix - 1) ! (w - 1) \<in> set (matrix ! (length matrix - 1))"
      using ordered_row [OF o l] by simp
    from ordered_bounds(1) [OF o l this] o kl l show ?thesis unfolding ordered_matrix_def by force
  qed simp
  ultimately show ?thesis using b by linarith
qed

text \<open>A value outside the first column can only be in the last row that starts below it.\<close>

lemma row_of_target:
  assumes o: "ordered_matrix w matrix" and ne: "\<forall>k < length matrix. matrix ! k ! 0 \<noteq> target"
    and cut: "\<forall>k < length matrix. int k \<le> f \<longleftrightarrow> matrix ! k ! 0 < target"
    and f: "0 \<le> f" "f < int (length matrix)"
    and k: "k < length matrix" "target \<in> set (matrix ! k)"
  shows "int k = f"
proof -
  have "matrix ! k ! 0 \<noteq> target" using ne k(1) by blast
  with ordered_bounds(1) [OF o k] have "matrix ! k ! 0 < target" by simp
  then have "int k \<le> f" using cut k(1) by simp
  moreover have "\<not> int k < f"
  proof
    assume "int k < f"
    then have nf: "k < nat f" "nat f < length matrix" using f by simp_all
    with o have "matrix ! k ! (w - 1) < matrix ! nat f ! 0" unfolding ordered_matrix_def by blast
    moreover have "matrix ! nat f ! 0 < target" using cut nf(2) f by (metis nat_0_le order_refl)
    ultimately show False using ordered_bounds(2) [OF o k] by simp
  qed
  ultimately show ?thesis by simp
qed

lemma butlast_member:
  "target \<in> \<Union>(set ` set (butlast matrix)) \<longleftrightarrow> (\<exists>k < length matrix - 1. target \<in> set (matrix ! k))"
proof -
  have "target \<in> \<Union>(set ` set (butlast matrix)) \<longleftrightarrow>
      (\<exists>k < length (butlast matrix). target \<in> set (butlast matrix ! k))"
    unfolding set_conv_nth [of "butlast matrix"] by blast
  then show ?thesis by (simp add: nth_butlast cong: conj_cong)
qed

lemma search_off_first_column:
  assumes o: "ordered_matrix w matrix" and ne: "\<forall>k < length matrix. matrix ! k ! 0 \<noteq> target"
    and within: "matrix ! 0 ! 0 \<le> target" "target \<le> matrix ! (length matrix - 1) ! (w - 1)"
  shows "searchMatrix matrix target = Inr (target \<in> \<Union>(set ` set (butlast matrix)))"
proof -
  obtain s f where lb: "lower_bound matrix target = Inr (if s > int (length matrix) - 1 \<or> f < 0 then - 1 else f)"
    and f: "f < int (length matrix)" and sf: "s = f + 1"
    and cut: "\<forall>k < length matrix. int k \<le> f \<longleftrightarrow> matrix ! k ! 0 < target"
    using lower_bound_result [OF ordered_first_column [OF o], of target] ne by blast
  have l: "0 < length matrix" using o by (simp add: ordered_matrix_def)
  have "matrix ! 0 ! 0 \<noteq> target" using ne l by blast
  then have f0: "0 \<le> f" using cut l within(1) by fastforce
  note only = row_of_target [OF o ne cut f0 f]
  note rows = butlast_member [of target matrix]
  show ?thesis
  proof (cases "f = int (length matrix) - 1")
    case True
    then have "searchMatrix matrix target = Inr False"
      using searchMatrix_between [OF o within] lb sf by simp
    moreover have "target \<notin> set (matrix ! k)" if "k < length matrix - 1" for k
    proof
      assume x: "target \<in> set (matrix ! k)"
      have "k < length matrix" using that by linarith
      from only [OF this x] True that show False by linarith
    qed
    ultimately show ?thesis using rows by auto
  next
    case False
    then have fl: "nat f < length matrix - 1" using f f0 by simp
    then have "find_mid matrix f target = Inr (target \<in> set (matrix ! nat f))"
      using find_mid_correct [of "nat f" matrix target] ordered_row [OF o, of "nat f"] f0 by simp
    then have "searchMatrix matrix target = Inr (target \<in> set (matrix ! nat f))"
      using searchMatrix_between [OF o within] lb sf f f0 False by simp
    moreover have "target \<in> set (matrix ! nat f) \<longleftrightarrow> (\<exists>k < length matrix - 1. target \<in> set (matrix ! k))"
    proof
      assume "target \<in> set (matrix ! nat f)"
      with fl show "\<exists>k < length matrix - 1. target \<in> set (matrix ! k)" by blast
    next
      assume "\<exists>k < length matrix - 1. target \<in> set (matrix ! k)"
      then obtain k where k: "k < length matrix - 1" "target \<in> set (matrix ! k)" by blast
      then have "k < length matrix" by linarith
      from only [OF this k(2)] have "k = nat f" by simp
      with k show "target \<in> set (matrix ! nat f)" by simp
    qed
    ultimately show ?thesis using rows by simp
  qed
qed

lemma search_sound:
  assumes o: "ordered_matrix w matrix"
    and within: "matrix ! 0 ! 0 \<le> target" "target \<le> matrix ! (length matrix - 1) ! (w - 1)"
  shows "\<exists>found. searchMatrix matrix target = Inr found \<and> (found \<longrightarrow> target \<in> \<Union>(set ` set matrix))"
proof -
  obtain s f where lb: "lower_bound matrix target = Inr (if s > int (length matrix) - 1 \<or> f < 0 then - 1 else f)"
    and f: "f < int (length matrix)"
    using lower_bound_result [OF ordered_first_column [OF o], of target] by blast
  show ?thesis
  proof (cases "s > int (length matrix) - 1 \<or> f < 0")
    case True
    with searchMatrix_between [OF o within] lb have "searchMatrix matrix target = Inr False" by simp
    then show ?thesis by blast
  next
    case False
    then have l: "nat f < length matrix" using f by (simp add: nat_less_iff)
    then have "find_mid matrix f target = Inr (target \<in> set (matrix ! nat f))"
      using find_mid_correct [of "nat f" matrix target] ordered_row [OF o l] False by simp
    with False searchMatrix_between [OF o within] lb nth_mem [OF l] show ?thesis by auto
  qed
qed

section \<open>Properties of the matrix search\<close>

text \<open>
  C36: The matrix search never reports a value that is not there, and never fails; but of the
  values that do not stand in the first column it finds exactly those outside the last row,
  because the search for the row gives up when it has passed the last one.
\<close>
theorem matrix_search_misses_last_row:
  assumes o: "ordered_matrix w matrix"
  shows "(\<exists>found. searchMatrix matrix target = Inr found \<and> (found \<longrightarrow> target \<in> \<Union>(set ` set matrix))) \<and>
         ((\<forall>k < length matrix. matrix ! k ! 0 \<noteq> target) \<longrightarrow>
            searchMatrix matrix target = Inr (target \<in> \<Union>(set ` set (butlast matrix))))"
proof (cases "matrix ! 0 ! 0 \<le> target \<and> target \<le> matrix ! (length matrix - 1) ! (w - 1)")
  case False
  with ordered_corners [OF o] have "\<forall>r \<in> set matrix. target \<notin> set r" by blast
  then have "\<forall>r \<in> set (butlast matrix). target \<notin> set r" by (auto dest: in_set_butlastD)
  moreover have "searchMatrix matrix target = Inr False" using searchMatrix_outside [OF o, of target] False by auto
  ultimately show ?thesis by (intro conjI impI exI [of _ False]) simp_all
next
  case True
  with search_sound [OF o] search_off_first_column [OF o] show ?thesis by blast
qed

definition demo_matrix :: "int list list" where
  "demo_matrix = [[1, 2, 5, 7], [10, 11, 16, 20], [23, 30, 34, 50]]"

lemma demo_matrix_ordered: "ordered_matrix 4 demo_matrix"
  unfolding ordered_matrix_def
proof (intro conjI allI impI)
  fix i j :: nat
  assume "i < j" "j < length demo_matrix"
  then have "i = 0 \<and> j = 1 \<or> i = 0 \<and> j = 2 \<or> i = 1 \<and> j = 2" by (auto simp: demo_matrix_def)
  then show "demo_matrix ! i ! (4 - 1) < demo_matrix ! j ! 0" by (auto simp: demo_matrix_def)
qed (auto simp: demo_matrix_def)

theorem matrix_search_misses_last_row_witness:
  "searchMatrix demo_matrix 34 = Inr False \<and> searchMatrix demo_matrix 11 = Inr True"
proof -
  have "\<forall>k < length demo_matrix. demo_matrix ! k ! 0 \<noteq> t" if "t \<noteq> 1" "t \<noteq> 10" "t \<noteq> 23" for t
    using that by (auto simp: demo_matrix_def less_Suc_eq)
  with matrix_search_misses_last_row [OF demo_matrix_ordered, of 34]
    matrix_search_misses_last_row [OF demo_matrix_ordered, of 11]
  have "searchMatrix demo_matrix 34 = Inr (34 \<in> \<Union>(set ` set (butlast demo_matrix)))"
    "searchMatrix demo_matrix 11 = Inr (11 \<in> \<Union>(set ` set (butlast demo_matrix)))" by simp_all
  then show ?thesis by (simp add: demo_matrix_def)
qed

end
