(* ===== verification/PairSum.thy ===== *)
theory PairSum
  imports Prelude "HOL-Library.Multiset"
begin

text \<open>
  \<open>TestCPP/leetcode/meeting.cpp\<close>: the pairs of a vector with a given sum, found by two indices that
  move towards each other over the sorted vector. The lines printed are the result; an access
  outside the vector and a sum that does not fit \<open>int\<close> are errors of the model.
\<close>

section \<open>The program\<close>

text \<open>The loop, with \<open>left\<close> and \<open>right\<close>; \<open>right\<close> is at least 1 where it is decremented.\<close>

function pair_loop :: "int list \<Rightarrow> int \<Rightarrow> nat \<Rightarrow> nat \<Rightarrow> exn + (int \<times> int) list" where
  "pair_loop a target left right =
     (if left < right then
        bindS (at a (int left)) (\<lambda>x.
        bindS (at a (int right)) (\<lambda>y.
        bindS (as_int (x + y)) (\<lambda>s.
          if s = target then
            bindS (pair_loop a target (left + 1) (right - 1)) (\<lambda>out. Inr ((x, y) # out))
          else if s < target then pair_loop a target (left + 1) right
          else pair_loop a target left (right - 1))))
      else Inr [])"
  by pat_completeness auto
termination
  by (relation "measure (\<lambda>(a, target, left, right). right - left)") auto

declare pair_loop.simps [simp del]

definition getSumB :: "int list \<Rightarrow> int \<Rightarrow> exn + (int \<times> int) list" where
  "getSumB a target =
     pair_loop (sort a) target 0 (if a = [] then 2 ^ 64 - 1 else length a - 1)"

fun sum_targets :: "int list \<Rightarrow> int list \<Rightarrow> exn + (int \<times> int) list" where
  "sum_targets a [] = Inr []"
| "sum_targets a (target # ts) =
     bindS (getSumB a target) (\<lambda>out. bindS (sum_targets a ts) (\<lambda>outs. Inr (out @ outs)))"

text \<open>\<open>func\<close>.\<close>

definition sum_func :: "int list \<Rightarrow> int list \<Rightarrow> exn + (int \<times> int) list" where
  "sum_func a b = (if a = [] \<or> b = [] then Inr [] else sum_targets a b)"

section \<open>Correctness\<close>

text \<open>
  How often a pair is printed: each occurrence of an element in the vector is used once, in a pair
  with an occurrence of the other one.
\<close>

definition pair_count :: "int \<Rightarrow> int multiset \<Rightarrow> int \<times> int \<Rightarrow> nat" where
  "pair_count target M = (\<lambda>(x, y).
     if x + y \<noteq> target then 0
     else if x < y then min (count M x) (count M y)
     else if x = y then count M x div 2
     else 0)"

lemma pair_count_single: "pair_count target {#z#} p = 0"
  by (cases p) (simp add: pair_count_def)

lemma pair_count_empty: "pair_count target {#} p = 0"
  by (cases p) (simp add: pair_count_def)

text \<open>The three moves of the loop, on what lies between the two indices.\<close>

lemma pair_count_match:
  assumes "x \<le> y" and "x + y = target"
  shows "pair_count target (add_mset x (add_mset y M)) p = pair_count target M p + (if p = (x, y) then 1 else 0)"
  using assms by (cases p) (auto simp: pair_count_def)

lemma pair_count_less:
  assumes "\<forall>z \<in># M. x \<le> z \<and> x + z < target" and "x + x < target"
  shows "pair_count target (add_mset x M) p = pair_count target M p"
proof -
  have "count M z = 0" if "x + z = target \<or> z + x = target" for z
    using assms(1) that by (metis add.commute less_irrefl not_in_iff)
  with assms show ?thesis by (cases p) (auto simp: pair_count_def)
qed

lemma pair_count_greater:
  assumes "\<forall>z \<in># M. z \<le> y \<and> target < z + y" and "target < y + y"
  shows "pair_count target (add_mset y M) p = pair_count target M p"
proof -
  have "count M z = 0" if "y + z = target \<or> z + y = target" for z
    using assms(1) that by (metis add.commute less_irrefl not_in_iff)
  with assms show ?thesis by (cases p) (auto simp: pair_count_def)
qed

definition between :: "int list \<Rightarrow> nat \<Rightarrow> nat \<Rightarrow> int list" where
  "between a l r = take (Suc r - l) (drop l a)"

lemma between_left: "l \<le> r \<Longrightarrow> r < length a \<Longrightarrow> between a l r = a ! l # between a (Suc l) r"
  by (simp add: between_def Suc_diff_le Cons_nth_drop_Suc [symmetric])

lemma between_right: "l \<le> r \<Longrightarrow> r < length a \<Longrightarrow> 0 < r \<Longrightarrow> between a l r = between a l (r - 1) @ [a ! r]"
  by (simp add: between_def Suc_diff_le take_Suc_conv_app_nth)

lemma between_set:
  assumes "sorted a" and "r < length a" and "z \<in> set (between a l r)"
  shows "l \<le> r \<and> a ! l \<le> z \<and> z \<le> a ! r"
proof -
  from assms(3) obtain k where k: "k < length (between a l r)" "z = between a l r ! k" by (metis in_set_conv_nth)
  then have "l + k \<le> r" "z = a ! (l + k)" by (auto simp: between_def)
  with assms(1,2) show ?thesis using sorted_nth_mono [of a l "l + k"] sorted_nth_mono [of a "l + k" r] by simp
qed

definition sums_fit :: "int list \<Rightarrow> bool" where
  "sums_fit a \<longleftrightarrow> (\<forall>x \<in> set a. \<forall>y \<in> set a. fits_int (x + y))"

lemma pair_loop_correct:
  assumes "sorted a" and "sums_fit a" and "r < length a"
  shows "\<exists>out. pair_loop a target l r = Inr out \<and> (\<forall>p. count (mset out) p = pair_count target (mset (between a l r)) p) \<and>
           sorted (map fst out) \<and> (\<forall>p \<in> set out. a ! l \<le> fst p)"
  using assms
proof (induction a target l r rule: pair_loop.induct)
  case (1 a target l r)
  note prems = 1(4-6)
  show ?case
  proof (cases "l < r")
    case False
    then consider "between a l r = []" | z where "between a l r = [z]"
      using prems(3) between_left [of l r a] by (cases "l = r") (auto simp: between_def)
    then have "pair_count target (mset (between a l r)) p = 0" for p
      by cases (simp_all add: pair_count_empty pair_count_single)
    with False show ?thesis by (subst pair_loop.simps) simp
  next
    case True
    have at: "at a (int l) = Inr (a ! l)" "at a (int r) = Inr (a ! r)" using True prems(3) by simp_all
    have mem: "a ! l \<in> set a" "a ! r \<in> set a" using True prems(3) by simp_all
    with prems(2) have fits: "as_int (a ! l + a ! r) = Inr (a ! l + a ! r)" by (simp add: sums_fit_def)
    have le: "a ! l \<le> a ! r" "a ! l \<le> a ! (l + 1)" using sorted_nth_mono [OF prems(1)] True prems(3) by simp_all
    have right: "between a l r = between a l (r - 1) @ [a ! r]" using between_right [of l r a] True prems(3) by simp
    have left: "between a l r = a ! l # between a (l + 1) r" using between_left [of l r a] True prems(3) by simp
    have both: "between a l r = a ! l # between a (l + 1) (r - 1) @ [a ! r]"
      using left between_right [of "l + 1" r a] True prems(3) by simp
    consider (match) "a ! l + a ! r = target" | (less) "a ! l + a ! r < target" | (greater) "target < a ! l + a ! r"
      by linarith
    then show ?thesis
    proof cases
      case match
      have "r - 1 < length a" using prems(3) by linarith
      then obtain out where out: "pair_loop a target (l + 1) (r - 1) = Inr out"
        "\<forall>p. count (mset out) p = pair_count target (mset (between a (l + 1) (r - 1))) p"
        "sorted (map fst out)" "\<forall>p \<in> set out. a ! (l + 1) \<le> fst p"
        using "1.IH"(1) [OF True match prems(1,2)] by blast
      have "pair_loop a target l r = Inr ((a ! l, a ! r) # out)"
        using at fits True match out(1) by (subst pair_loop.simps) simp
      moreover have "count (mset ((a ! l, a ! r) # out)) p = pair_count target (mset (between a l r)) p" for p
        using pair_count_match [OF le(1) match, of "mset (between a (l + 1) (r - 1))" p] out(2) [rule_format, of p]
        by (simp add: both)
      moreover have "\<forall>p \<in> set out. a ! l \<le> fst p" using out(4) le(2) by force
      moreover from this out(3) have "sorted (map fst ((a ! l, a ! r) # out))" by simp
      moreover have "\<forall>p \<in> set ((a ! l, a ! r) # out). a ! l \<le> fst p" using \<open>\<forall>p \<in> set out. a ! l \<le> fst p\<close> by simp
      ultimately show ?thesis by blast
    next
      case less
      then have run: "pair_loop a target l r = pair_loop a target (l + 1) r"
        using at fits True by (subst pair_loop.simps) simp
      obtain out where out: "pair_loop a target (l + 1) r = Inr out"
        "\<forall>p. count (mset out) p = pair_count target (mset (between a (l + 1) r)) p"
        "sorted (map fst out)" "\<forall>p \<in> set out. a ! (l + 1) \<le> fst p"
        using "1.IH"(2) [OF True _ less] less prems by blast
      have "\<forall>z \<in># mset (between a (l + 1) r). a ! l \<le> z \<and> a ! l + z < target"
      proof
        fix z
        assume "z \<in># mset (between a (l + 1) r)"
        with between_set [OF prems(1,3), of z "l + 1"] le(2) less show "a ! l \<le> z \<and> a ! l + z < target" by simp
      qed
      then have "pair_count target (mset (between a l r)) p = pair_count target (mset (between a (l + 1) r)) p" for p
        using pair_count_less [of "mset (between a (l + 1) r)" "a ! l" target p] le(1) less left by simp
      moreover have "\<forall>p \<in> set out. a ! l \<le> fst p" using out(4) le(2) by force
      ultimately show ?thesis using run out(1-3) by auto
    next
      case greater
      then have run: "pair_loop a target l r = pair_loop a target l (r - 1)"
        using at fits True by (subst pair_loop.simps) simp
      have r: "r - 1 < length a" using prems(3) by simp
      obtain out where out: "pair_loop a target l (r - 1) = Inr out"
        "\<forall>p. count (mset out) p = pair_count target (mset (between a l (r - 1))) p"
        "sorted (map fst out)" "\<forall>p \<in> set out. a ! l \<le> fst p"
        using "1.IH"(3) [OF True, of "a ! l + a ! r"] greater prems r by auto
      have "a ! (r - 1) \<le> a ! r" using sorted_nth_mono [OF prems(1)] prems(3) by simp
      then have "\<forall>z \<in># mset (between a l (r - 1)). z \<le> a ! r \<and> target < z + a ! r"
        using between_set [OF prems(1) r, of _ l] greater by force
      then have "pair_count target (mset (between a l r)) p = pair_count target (mset (between a l (r - 1))) p" for p
        using pair_count_greater [of "mset (between a l (r - 1))" "a ! r" target p] le(1) greater right by simp
      with run out show ?thesis by auto
    qed
  qed
qed

section \<open>Properties\<close>

text \<open>
  C35: The two-pointer search is exact. On a vector that is not empty and in which no two elements have
  a sum outside \<open>int\<close>, the pairs printed for a target are those of two elements that sum to it, the
  smaller one first and in increasing order of it, and each is printed as often as it can be formed
  with every element used once: the smaller of the numbers of occurrences of its two elements, and half
  the number of occurrences, rounded down, for an element with itself.
\<close>
theorem pair_sum_exact:
  assumes "a \<noteq> []" and "\<forall>x \<in> set a. \<forall>y \<in> set a. fits_int (x + y)"
  shows "\<exists>out. getSumB a target = Inr out \<and> sorted (map fst out) \<and>
           (\<forall>x y. count (mset out) (x, y) =
              (if x + y \<noteq> target then 0
               else if x < y then min (count (mset a) x) (count (mset a) y)
               else if x = y then count (mset a) x div 2
               else 0))"
proof -
  let ?s = "sort a"
  have len: "length a - 1 < length ?s" using assms(1) by (cases a) auto
  have "sums_fit ?s" using assms(2) by (simp add: sums_fit_def)
  from pair_loop_correct [OF sorted_sort this len, of target 0] obtain out where
    out: "pair_loop ?s target 0 (length a - 1) = Inr out" "sorted (map fst out)"
      "\<forall>p. count (mset out) p = pair_count target (mset (between ?s 0 (length a - 1))) p" by auto
  have "mset (between ?s 0 (length a - 1)) = mset a" using assms(1) by (simp add: between_def)
  with out assms(1) show ?thesis by (simp add: getSumB_def pair_count_def)
qed

theorem pair_sum_exact_witness:
  "\<exists>out. getSumB [1, 5, 3, 2, 7, 1, 6, 4, 3, 2] 7 = Inr out \<and> count (mset out) (1, 6) = 1 \<and>
     count (mset out) (2, 5) = 1 \<and> count (mset out) (3, 4) = 1 \<and> count (mset out) (6, 1) = 0"
proof -
  let ?a = "[1, 5, 3, 2, 7, 1, 6, 4, 3, 2] :: int list"
  have "\<forall>x \<in> set ?a. \<forall>y \<in> set ?a. fits_int (x + y)" by (simp add: fits_int_def)
  from pair_sum_exact [OF _ this, of 7] obtain out where "getSumB ?a 7 = Inr out"
    and "\<forall>x y. count (mset out) (x, y) =
              (if x + y \<noteq> 7 then 0
               else if x < y then min (count (mset ?a) x) (count (mset ?a) y)
               else if x = y then count (mset ?a) x div 2
               else 0)" by blast
  note run = this(1) and n = this(2) [rule_format]
  from run n [of 1 6] n [of 2 5] n [of 3 4] n [of 6 1] show ?thesis by simp
qed

end
