(* ===== verification/TimeTest.thy ===== *)
theory TimeTest
  imports Prelude
begin

text \<open>
  \<open>TestCPP/TimeTest.cc\<close>: uses of the clocks of the standard library. A time point of the system
  clock is its number of nanoseconds since the epoch, a 64-bit integer; casts between durations
  truncate towards zero. The readings of the clocks and the printing by \<open>ctime\<close> are parameters.
\<close>

section \<open>Durations\<close>

definition trunc_div :: "int \<Rightarrow> int \<Rightarrow> int" where
  "trunc_div a b = (if a < 0 then - ((- a) div b) else a div b)"

definition fits64 :: "int \<Rightarrow> bool" where
  "fits64 v \<longleftrightarrow> - (2 ^ 63) \<le> v \<and> v < 2 ^ 63"

definition as_int64 :: "int \<Rightarrow> exn + int" where
  "as_int64 v = (if fits64 v then Inr v else Inl (Undefined ''signed overflow''))"

definition ns_per_s :: int where "ns_per_s = 1000000000"
definition s_per_day :: int where "s_per_day = 60 * 60 * 24"

definition to_time_t :: "int \<Rightarrow> int" where
  "to_time_t tp = trunc_div tp ns_per_s"

section \<open>The program\<close>

text \<open>The text printed between the two readings of the steady clock, and the time between them.\<close>

definition CaclAlgorithm :: "(int \<Rightarrow> string) \<Rightarrow> int \<Rightarrow> int \<Rightarrow> string" where
  "CaclAlgorithm show_seconds t1 t2 =
     ''printing out 1000 stars...'' @ [LF] @ replicate 1000 CHR ''*'' @ [LF] @
     ''It took me '' @ show_seconds (t2 - t1) @ '' seconds.'' @ [LF]"

text \<open>\<open>time_point_cast<days_type>\<close>, a count of type \<open>int\<close>.\<close>

definition days_since_epoch :: "int \<Rightarrow> exn + int" where
  "days_since_epoch now = as_int (trunc_div now (s_per_day * ns_per_s))"

text \<open>What \<open>deterDur\<close> prints. It then runs off its end without returning the \<open>int\<close> it promises.\<close>

definition deterDur :: "int \<Rightarrow> exn + string" where
  "deterDur now =
     bindS (days_since_epoch now) (\<lambda>d. Inr (dec_int d @ '' days since epoch'' @ [LF]))"

definition CaclNextDay :: "(int \<Rightarrow> string) \<Rightarrow> int \<Rightarrow> exn + string" where
  "CaclNextDay ctime today =
     bindS (as_int64 (today + s_per_day * ns_per_s)) (\<lambda>tomorrow.
       Inr (''today is: '' @ ctime (to_time_t today) @
            ''tomorrow will be: '' @ ctime (to_time_t tomorrow)))"

definition getTimeStamp :: "int \<Rightarrow> exn + int" where
  "getTimeStamp now =
     (let tp = trunc_div now 1000000
      in bindS (as_int64 (tp * 1000000)) (\<lambda>ns. Inr (to_time_t ns)))"

text \<open>
  \<open>main\<close>, on the readings it takes: what it has printed before its behaviour becomes undefined by
  the missing \<open>return\<close> of \<open>deterDur\<close>, whose call comes before that of \<open>CaclNextDay\<close>.
\<close>

definition time_main :: "(int \<Rightarrow> string) \<Rightarrow> int \<Rightarrow> int \<Rightarrow> int \<Rightarrow> (exn + string) \<times> exn" where
  "time_main ctime now1 now2 now3 =
     (bindS (getTimeStamp now2) (\<lambda>tp.
      bindS (deterDur now3) (\<lambda>days.
        Inr (''time_point tp is: '' @ ctime (to_time_t now1) @
             ''time_point tp is: '' @ ctime tp @ days))),
      Undefined ''end of a function without return'')"

section \<open>Properties\<close>

lemma trunc_div_trunc:
  assumes "0 < b" and "0 < c"
  shows "trunc_div (trunc_div a b) c = trunc_div a (b * c)"
proof (cases "a < 0")
  case True
  then have nonneg: "0 \<le> (- a) div b" using assms(1) by (simp add: pos_imp_zdiv_nonneg_iff)
  show ?thesis
  proof (cases "(- a) div b = 0")
    case zero: True
    have "(- a) div (b * c) = (- a) div b div c" using assms by (simp add: zdiv_zmult2_eq)
    with zero True show ?thesis by (simp add: trunc_div_def)
  next
    case False
    with nonneg have "- ((- a) div b) < 0" by simp
    with True assms show ?thesis by (simp add: trunc_div_def zdiv_zmult2_eq)
  qed
next
  case False
  then have "0 \<le> a div b" using assms(1) by (simp add: pos_imp_zdiv_nonneg_iff)
  with False assms show ?thesis by (simp add: trunc_div_def zdiv_zmult2_eq)
qed

lemma trunc_div_mult: "0 < b \<Longrightarrow> trunc_div (a * b) b = a"
  using nonzero_mult_div_cancel_right [of b "- a"] by (simp add: trunc_div_def mult_less_0_iff)

lemma trunc_div_times_bound:
  assumes "0 < b" and "fits64 a"
  shows "fits64 (trunc_div a b * b)"
proof (cases "a < 0")
  case True
  have pos: "0 \<le> (- a) mod b" "0 \<le> (- a) div b * b"
    using assms(1) True by (simp_all add: pos_imp_zdiv_nonneg_iff)
  then have "(- a) div b * b \<le> - a" using div_mult_mod_eq [of "- a" b] by linarith
  with pos True assms(2) show ?thesis by (simp add: fits64_def trunc_div_def)
next
  case False
  have pos: "0 \<le> a mod b" "0 \<le> a div b * b"
    using assms(1) False by (simp_all add: pos_imp_zdiv_nonneg_iff)
  then have "a div b * b \<le> a" using div_mult_mod_eq [of a b] by linarith
  with pos False assms(2) show ?thesis by (simp add: fits64_def trunc_div_def)
qed

text \<open>
  The time stamps agree. The detour of \<open>getTimeStamp\<close> over milliseconds gives the seconds
  \<open>to_time_t\<close> gives, the count of days always fits its \<open>int\<close>, and tomorrow, where it can be
  represented, is one day of seconds after today.
\<close>
lemma time_stamps_agree:
  assumes "fits64 now"
  shows "getTimeStamp now = Inr (to_time_t now) \<and>
         (\<exists>d. days_since_epoch now = Inr d) \<and>
         (0 \<le> now \<and> fits64 (now + s_per_day * ns_per_s) \<longrightarrow>
            CaclNextDay ctime now =
              Inr (''today is: '' @ ctime (to_time_t now) @ ''tomorrow will be: '' @ ctime (to_time_t now + s_per_day)))"
proof (intro conjI impI)
  have "as_int64 (trunc_div now 1000000 * 1000000) = Inr (trunc_div now 1000000 * 1000000)"
    using trunc_div_times_bound [OF _ assms, of 1000000] by (simp add: as_int64_def)
  moreover have "to_time_t (trunc_div now 1000000 * 1000000) = trunc_div (trunc_div now 1000000) 1000"
    using trunc_div_trunc [of 1000000 1000 "trunc_div now 1000000 * 1000000"] trunc_div_mult [of 1000000 "trunc_div now 1000000"]
    by (simp add: to_time_t_def ns_per_s_def)
  moreover have "trunc_div (trunc_div now 1000000) 1000 = to_time_t now"
    using trunc_div_trunc [of 1000000 1000 now] by (simp add: to_time_t_def ns_per_s_def)
  ultimately show "getTimeStamp now = Inr (to_time_t now)" by (simp add: getTimeStamp_def Let_def)
  have "fits_int (trunc_div now (s_per_day * ns_per_s))"
    using assms unfolding fits64_def fits_int_def trunc_div_def s_per_day_def ns_per_s_def by (auto simp: div_le_mono)
  then show "\<exists>d. days_since_epoch now = Inr d" by (simp add: days_since_epoch_def)
next
  assume n: "0 \<le> now \<and> fits64 (now + s_per_day * ns_per_s)"
  then have "to_time_t (now + s_per_day * ns_per_s) = to_time_t now + s_per_day"
    by (simp add: to_time_t_def trunc_div_def ns_per_s_def s_per_day_def)
  with n show "CaclNextDay ctime now =
      Inr (''today is: '' @ ctime (to_time_t now) @ ''tomorrow will be: '' @ ctime (to_time_t now + s_per_day))"
    by (simp add: CaclNextDay_def as_int64_def)
qed

lemma time_stamps_agree_example: "getTimeStamp 1606176000123456789 = Inr 1606176000"
proof -
  have "fits64 1606176000123456789" by (simp add: fits64_def)
  moreover have "to_time_t 1606176000123456789 = 1606176000" by (simp add: to_time_t_def trunc_div_def ns_per_s_def)
  ultimately show ?thesis using time_stamps_agree [of 1606176000123456789] by simp
qed

end
