(* ===== verification/SmallPrograms.thy ===== *)
theory SmallPrograms
  imports Prelude
begin

text \<open>
  The small programs of \<open>TestCPP\<close> around one feature of the language each: the lazily created
  singleton (\<open>singleton.cpp\<close>) with the threads that ask for it, the class of \<open>testvar.cc\<close> that
  prints what happens to its objects, the detection of a member by overload resolution
  (\<open>sfinae.cc\<close>), and the initialisation order, the swap and the array length of \<open>test.cc\<close>,
  \<open>testvec.cc\<close> and \<open>new.cpp\<close>; the templates of \<open>test_vartmp.cc\<close> and \<open>declval_test.cc\<close>; and the threads of \<open>ceph_test/pthread_sync.cc\<close> that meet at an
  atomic counter.
\<close>

section \<open>The singleton\<close>

text \<open>
  Any number of callers of \<open>getInstance\<close>, each between the test of the pointer and the assignment of
  a new object or not; objects are numbered as they are allocated, \<open>sg_got\<close> is what a caller was
  given.
\<close>

datatype caller_pc = Calls | Creates | Got nat

record singleton =
  sg_instance :: "nat option"
  sg_allocated :: nat
  sg_pc :: "nat \<Rightarrow> caller_pc"

definition singleton_init :: singleton where
  "singleton_init = \<lparr>sg_instance = None, sg_allocated = 0, sg_pc = (\<lambda>_. Calls)\<rparr>"

text \<open>One step of the caller: the test, or the rest of the call.\<close>

definition getInstance :: "nat \<Rightarrow> singleton \<Rightarrow> singleton option" where
  "getInstance i s =
     (case sg_pc s i of
        Calls \<Rightarrow>
          Some (case sg_instance s of
                  None \<Rightarrow> s\<lparr>sg_pc := (sg_pc s)(i := Creates)\<rparr>
                | Some p \<Rightarrow> s\<lparr>sg_pc := (sg_pc s)(i := Got p)\<rparr>)
      | Creates \<Rightarrow>
          Some (s\<lparr>sg_instance := Some (sg_allocated s), sg_allocated := Suc (sg_allocated s),
                  sg_pc := (sg_pc s)(i := Got (sg_allocated s))\<rparr>)
      | Got p \<Rightarrow> None)"

inductive sg_step :: "singleton \<Rightarrow> singleton \<Rightarrow> bool" where
  Sg_step: "getInstance i s = Some s' \<Longrightarrow> sg_step s s'"

fun sg_run :: "nat list \<Rightarrow> singleton \<Rightarrow> singleton option" where
  "sg_run [] s = Some s"
| "sg_run (i # is) s = (case getInstance i s of None \<Rightarrow> None | Some s' \<Rightarrow> sg_run is s')"

definition got :: "singleton \<Rightarrow> nat \<Rightarrow> nat option" where
  "got s i = (case sg_pc s i of Got p \<Rightarrow> Some p | _ \<Rightarrow> None)"

text \<open>
  One call after the other, as in \<open>main\<close>, creates one object and hands it to everyone; two callers
  that test the pointer before either has assigned it get two.
\<close>

definition sg_sequential :: "singleton \<Rightarrow> bool" where
  "sg_sequential s \<longleftrightarrow>
     (\<forall>i. sg_pc s i \<noteq> Creates) \<and> sg_allocated s \<le> 1 \<and>
     (sg_instance s = (if sg_allocated s = 0 then None else Some 0)) \<and>
     (\<forall>i p. sg_pc s i = Got p \<longrightarrow> p = 0 \<and> sg_allocated s = 1)"

lemma sequential_call:
  assumes "sg_sequential s" and "sg_pc s i = Calls"
  shows "\<exists>w s'. set w = {i} \<and> sg_run w s = Some s' \<and> got s' i = Some 0 \<and> sg_sequential s'"
proof (cases "sg_allocated s = 0")
  case True
  with assms have "sg_run [i, i] s = Some (s\<lparr>sg_instance := Some 0, sg_allocated := 1, sg_pc := (sg_pc s)(i := Got 0)\<rparr>)"
    by (simp add: getInstance_def sg_sequential_def)
  moreover from True assms have "sg_sequential (s\<lparr>sg_instance := Some 0, sg_allocated := 1, sg_pc := (sg_pc s)(i := Got 0)\<rparr>)"
    by (auto simp: sg_sequential_def)
  ultimately show ?thesis
    by (intro exI [of _ "[i, i]"] exI conjI) (auto simp: got_def)
next
  case False
  with assms have "sg_run [i] s = Some (s\<lparr>sg_pc := (sg_pc s)(i := Got 0)\<rparr>)"
    by (simp add: getInstance_def sg_sequential_def)
  moreover from False assms have "sg_sequential (s\<lparr>sg_pc := (sg_pc s)(i := Got 0)\<rparr>)"
    by (auto simp: sg_sequential_def)
  ultimately show ?thesis
    by (intro exI [of _ "[i]"] exI conjI) (auto simp: got_def)
qed

lemma racing_calls:
  "\<exists>s. sg_run [0, 1, 0, 1] singleton_init = Some s \<and> got s 0 = Some 0 \<and> got s 1 = Some 1"
  by (simp add: getInstance_def singleton_init_def got_def)

text \<open>No two callers ever create the same object, and an object that was handed out exists.\<close>

lemma singleton_objects:
  "sg_step\<^sup>*\<^sup>* singleton_init s \<Longrightarrow> \<forall>i p. got s i = Some p \<longrightarrow> p < sg_allocated s"
proof -
  assume "sg_step\<^sup>*\<^sup>* singleton_init s"
  then have "(\<forall>i p. got s i = Some p \<longrightarrow> p < sg_allocated s) \<and> (\<forall>p. sg_instance s = Some p \<longrightarrow> p < sg_allocated s)"
  proof (induction rule: rtranclp_induct)
    case base
    then show ?case by (simp add: singleton_init_def got_def)
  next
    case (step s t)
    from step(2) obtain i where "getInstance i s = Some t" by cases
    with step(3) show ?case
      by (fastforce simp: getInstance_def got_def split: caller_pc.splits option.splits if_splits)
  qed
  then show ?thesis by blast
qed

section \<open>An object that reports its life\<close>

record wget =
  wg_exm :: int
  wg_price :: nat

definition wget_var :: int where
  "wget_var = 2"

definition wget_new :: "wget \<times> string" where
  "wget_new = (\<lparr>wg_exm = 0, wg_price = 0\<rparr>, ''Constructor'' @ [LF])"

definition wget_copy :: "wget \<Rightarrow> wget \<times> string" where
  "wget_copy rhs = (\<lparr>wg_exm = wg_exm rhs, wg_price = wg_price rhs\<rparr>, ''Copy Constructor'' @ [LF])"

definition wget_move :: "wget \<Rightarrow> wget \<times> string" where
  "wget_move rhs = (\<lparr>wg_exm = wg_exm rhs, wg_price = wg_price rhs\<rparr>, ''Move Constructor'' @ [LF])"

definition wget_delete :: string where
  "wget_delete = ''Destructor'' @ [LF]"

text \<open>\<open>operator<<\<close>; a price that is a whole number prints without a point.\<close>

definition wget_print :: "wget \<Rightarrow> string" where
  "wget_print wg =
     ''Exm: '' @ dec_int (wg_exm wg) @ [LF] @ ''Const Var: '' @ dec (wg_price wg) @ [LF] @
     ''Static Var: '' @ dec_int wget_var"

text \<open>\<open>wget a = wget(b)\<close> constructs \<open>a\<close> in place when the copy is elided, and otherwise moves.\<close>

definition wget_main :: "bool \<Rightarrow> string" where
  "wget_main elided =
     (let (tmp, t1) = wget_new;
          (a, t2) = (if elided then (tmp, []) else (fst (wget_move tmp), snd (wget_move tmp) @ wget_delete))
      in t1 @ t2 @ wget_print a @ [LF] @ wget_delete)"

lemma wget_main_text:
  "wget_main True =
     ''Constructor'' @ [LF] @ ''Exm: 0'' @ [LF] @ ''Const Var: 0'' @ [LF] @ ''Static Var: 2'' @ [LF] @
     ''Destructor'' @ [LF]"
  "wget_main False =
     ''Constructor'' @ [LF] @ ''Move Constructor'' @ [LF] @ ''Destructor'' @ [LF] @ ''Exm: 0'' @ [LF] @
     ''Const Var: 0'' @ [LF] @ ''Static Var: 2'' @ [LF] @ ''Destructor'' @ [LF]"
  by code_simp+

section \<open>Detecting a member\<close>

text \<open>
  A class with its bases and the names of its members. \<open>&C::no_destroy\<close> names a member function as
  well as a data member, of the class or of a base.
\<close>

datatype member = Member_function string | Data_member string

datatype cls = Cls (cls_bases: "cls list") (cls_members: "member list")

fun member_name :: "member \<Rightarrow> string" where
  "member_name (Member_function n) = n"
| "member_name (Data_member n) = n"

fun has_member :: "string \<Rightarrow> cls \<Rightarrow> bool" where
  "has_member n (Cls bases ms) \<longleftrightarrow> n \<in> set (map member_name ms) \<or> (\<exists>b \<in> set bases. has_member n b)"

text \<open>The overload that is chosen returns a \<open>char\<close> when the member can be named, else an \<open>int32_t\<close>.\<close>

definition has_no_destroy :: "cls \<Rightarrow> bool" where
  "has_no_destroy c \<longleftrightarrow> (if has_member ''no_destroy'' c then 1 else (4 :: nat)) = 1"

definition cls_A :: cls where "cls_A = Cls [] []"
definition cls_B :: cls where "cls_B = Cls [] [Member_function ''no_destroy'']"
definition cls_C :: cls where "cls_C = Cls [] [Data_member ''no_destroy'']"
definition cls_D :: cls where "cls_D = Cls [cls_B] []"

definition testNoDestroy :: string where
  "testNoDestroy =
     concat (map (\<lambda>c. dec (if has_no_destroy c then 1 else 0) @ [LF]) [cls_A, cls_B, cls_C, cls_D])"

text \<open>A data member is detected as well, although the comment speaks of a function.\<close>

lemma no_destroy_text: "testNoDestroy = ''0'' @ [LF] @ ''1'' @ [LF] @ ''1'' @ [LF] @ ''1'' @ [LF]"
  by code_simp

section \<open>Initialisation, swap and array length\<close>

text \<open>Members are initialised in the order of their declaration: first \<open>i\<close>, then \<open>j\<close> from it.\<close>

record members_A =
  a_i :: int
  a_j :: int
  a_cnt :: int

definition A_new :: "int \<Rightarrow> members_A" where
  "A_new val = (let i = val; j = i in \<lparr>a_i = i, a_j = j, a_cnt = 10\<rparr>)"

text \<open>\<open>vec1\<close> and \<open>tmp\<close> after the swap, and what the loop prints.\<close>

definition testvec_main :: string where
  "testvec_main =
     (let vec1 = [1, 2 :: int]; tmp = []; (vec1, tmp) = (tmp, vec1); vec1 = vec1 @ [3]
      in concat (map (\<lambda>x. dec_int x @ [LF]) vec1))"

lemma testvec_text: "testvec_main = ''3'' @ [LF]"
  by code_simp

definition getLen :: "'a list \<Rightarrow> nat" where
  "getLen a = length a"

text \<open>\<open>test\<close> of \<open>new.cpp\<close>: \<open>new int[length]\<close> is freed again; a negative length throws.\<close>

definition new_test :: "int \<Rightarrow> nat \<Rightarrow> exn + nat" where
  "new_test len allocated =
     (if len < 0 then Inl (Std_exception ''bad_array_new_length'')
      else let allocated1 = allocated + 1 in Inr (allocated1 - 1))"

definition new_main :: "nat \<Rightarrow> exn + nat" where
  "new_main allocated = new_test (int (getLen [1, 5, 3, 83, 5, 73, 4, 55, 3, 2 :: int])) allocated"

lemma new_main_frees: "new_main n = Inr n"
  by (simp add: new_main_def new_test_def getLen_def)

section \<open>Templates over the arguments of a call\<close>

text \<open>
  \<open>test_vartmp.cc\<close>: the sum of the arguments from the right; the first may be of any integer type,
  which is promoted, and the last is an \<open>int\<close>. There is no overload for no arguments.
\<close>

fun end_fun :: "int list \<Rightarrow> exn + int" where
  "end_fun [] = Inl (Undefined ''no matching function'')"
| "end_fun [a] = Inr a"
| "end_fun (arg # args) = bindS (end_fun args) (\<lambda>r. as_int (arg + r))"

definition vartmp_main :: "exn + string" where
  "vartmp_main =
     (let a = int (of_char CHR ''a''); b = 2; c = 3
      in bindS (end_fun [a, b, c]) (\<lambda>res. Inr (''Res: '' @ dec_int res @ [LF])))"

lemma vartmp_text: "vartmp_main = Inr (''Res: 102'' @ [LF])"
  by code_simp

lemma end_fun_sum:
  assumes "args \<noteq> []" and "\<forall>k < length args. fits_int (sum_list (drop k args))"
  shows "end_fun args = Inr (sum_list args)"
  using assms
proof (induction args rule: end_fun.induct)
  case (3 a b bs)
  have "\<forall>k < length (b # bs). fits_int (sum_list (drop k (b # bs)))"
    using 3(3) by (metis Suc_less_eq drop_Suc_Cons length_Cons)
  with 3(1) have "end_fun (b # bs) = Inr (sum_list (b # bs))" by simp
  moreover have "fits_int (sum_list (a # b # bs))" using 3(3) by (metis drop0 length_greater_0_conv list.distinct(1))
  ultimately show ?case by simp
qed simp_all

text \<open>
  \<open>declval_test.cc\<close>: a function and the two templates that call it, each with what it prints. The
  two differ in how they spell their return type only.
\<close>

definition declval_test :: "int \<Rightarrow> int \<Rightarrow> exn + int \<times> string" where
  "declval_test a b = bindS (as_int (a + b)) (\<lambda>c. Inr (c, ''Run Test'' @ dec_int c @ [LF]))"

definition test_decltype2 :: "('a \<Rightarrow> 'b \<Rightarrow> exn + 'c \<times> string) \<Rightarrow> 'a \<Rightarrow> 'b \<Rightarrow> exn + 'c \<times> string" where
  "test_decltype2 f x y =
     bindS (f x y) (\<lambda>(res, out). Inr (res, ''Run Test_Decltype2'' @ [LF] @ out))"

definition test_decltype1 :: "('a \<Rightarrow> 'b \<Rightarrow> exn + 'c \<times> string) \<Rightarrow> 'a \<Rightarrow> 'b \<Rightarrow> exn + 'c \<times> string" where
  "test_decltype1 f x y =
     bindS (f x y) (\<lambda>(res, out). Inr (res, ''Run Test_Decltype1'' @ [LF] @ out))"

definition declval_main :: "exn + string" where
  "declval_main =
     bindS (test_decltype1 declval_test 1 2) (\<lambda>(res0, out0).
     bindS (test_decltype2 declval_test 1 3) (\<lambda>(res1, out1).
       Inr (out0 @ out1 @ ''Main Res0: '' @ dec_int res0 @ [LF] @ ''Main Res1: '' @ dec_int res1 @ [LF])))"

lemma declval_text:
  "declval_main = Inr (''Run Test_Decltype1'' @ [LF] @ ''Run Test3'' @ [LF] @ ''Run Test_Decltype2'' @ [LF] @
     ''Run Test4'' @ [LF] @ ''Main Res0: 3'' @ [LF] @ ''Main Res1: 4'' @ [LF])"
  by code_simp

section \<open>Threads at an atomic counter\<close>

text \<open>
  The counter, which of the incrementing threads are created and which have finished, and whether
  the spinning thread has ended. Whether \<open>pthread_create\<close> succeeds is a parameter; its result is
  not looked at.
\<close>

record sync_state =
  sy_test :: int
  sy_created :: "nat set"
  sy_finished :: "nat set"
  sy_spinner_ended :: bool

definition sync_start :: "(nat \<Rightarrow> bool) \<Rightarrow> sync_state" where
  "sync_start created =
     \<lparr>sy_test = 0, sy_created = Set.filter created {1, 2, 3}, sy_finished = {}, sy_spinner_ended = False\<rparr>"

definition thread1 :: "nat \<Rightarrow> sync_state \<Rightarrow> sync_state option" where
  "thread1 i s =
     (if i \<in> sy_created s - sy_finished s
      then Some (s\<lparr>sy_test := sy_test s + 1, sy_finished := insert i (sy_finished s)\<rparr>) else None)"

text \<open>One round of the loop of \<open>thread2\<close>, and its end.\<close>

definition thread2 :: "sync_state \<Rightarrow> sync_state option" where
  "thread2 s =
     (if sy_spinner_ended s then None
      else if sy_test s < 3 then Some s else Some (s\<lparr>sy_spinner_ended := True\<rparr>))"

inductive sync_step :: "sync_state \<Rightarrow> sync_state \<Rightarrow> bool" where
  Sync_thread1: "thread1 i s = Some s' \<Longrightarrow> sync_step s s'"
| Sync_thread2: "thread2 s = Some s' \<Longrightarrow> sync_step s s'"

definition sync_wf :: "(nat \<Rightarrow> bool) \<Rightarrow> sync_state \<Rightarrow> bool" where
  "sync_wf created s \<longleftrightarrow>
     sy_created s = {i \<in> {1, 2, 3}. created i} \<and> sy_finished s \<subseteq> sy_created s \<and>
     sy_test s = int (card (sy_finished s)) \<and> (sy_spinner_ended s \<longrightarrow> 3 \<le> sy_test s)"

lemma sync_reachable_wf:
  assumes "sync_step\<^sup>*\<^sup>* (sync_start created) s"
  shows "sync_wf created s"
  using assms
proof (induction rule: rtranclp_induct)
  case base
  then show ?case by (auto simp: sync_start_def sync_wf_def)
next
  case (step s s')
  have fin: "finite (sy_finished s)" using step(3) unfolding sync_wf_def by (auto intro: finite_subset)
  from step(2) show ?case
  proof cases
    case (Sync_thread1 i)
    with step(3) fin show ?thesis by (auto simp: sync_wf_def thread1_def split: if_splits)
  next
    case Sync_thread2
    with step(3) show ?thesis by (auto simp: sync_wf_def thread2_def split: if_splits)
  qed
qed

text \<open>
  The spinning thread ends only after all three increments, and it can end then; if one of the
  threads could not be created, it spins for ever.
\<close>
lemma spinner_waits_for_all:
  assumes "sync_step\<^sup>*\<^sup>* (sync_start created) s"
  shows "(sy_spinner_ended s \<longrightarrow> sy_finished s = {1, 2, 3}) \<and>
         (sy_finished s = {1, 2, 3} \<and> \<not> sy_spinner_ended s \<longrightarrow>
            thread2 s = Some (s\<lparr>sy_spinner_ended := True\<rparr>)) \<and>
         ((\<exists>i \<in> {1, 2, 3}. \<not> created i) \<longrightarrow> \<not> sy_spinner_ended s)"
proof -
  have wf: "sync_wf created s" by (rule sync_reachable_wf [OF assms])
  have all: "sy_finished s = {1, 2, 3}" if "sy_spinner_ended s"
  proof (rule card_seteq)
    show "sy_finished s \<subseteq> {1, 2, 3}" using wf by (auto simp: sync_wf_def)
    show "card {1, 2, 3 :: nat} \<le> card (sy_finished s)" using wf that by (simp add: sync_wf_def)
  qed simp
  moreover have "thread2 s = Some (s\<lparr>sy_spinner_ended := True\<rparr>)"
    if "sy_finished s = {1, 2, 3}" "\<not> sy_spinner_ended s"
    using wf that by (simp add: sync_wf_def thread2_def)
  moreover have "\<not> sy_spinner_ended s" if "\<exists>i \<in> {1, 2, 3}. \<not> created i"
    using wf that all by (auto simp: sync_wf_def)
  ultimately show ?thesis by blast
qed

section \<open>Types with const\<close>

text \<open>
  \<open>ceph_test/test_const.cc\<close>: the types it names, and the two traits of the standard library as they
  are documented. A \<open>const\<close> on a reference has no effect.
\<close>

datatype ctype = Int_type | Const ctype | Pointer ctype | Reference ctype

fun add_const :: "ctype \<Rightarrow> ctype" where
  "add_const (Const t) = Const t"
| "add_const (Reference t) = Reference t"
| "add_const t = Const t"

fun is_const :: "ctype \<Rightarrow> bool" where
  "is_const (Const t) \<longleftrightarrow> True"
| "is_const t \<longleftrightarrow> False"

definition const_line :: "string \<Rightarrow> ctype \<Rightarrow> string" where
  "const_line name t = name @ '': '' @ (if is_const t then ''true'' else ''false'')"

definition const_main :: "string list" where
  "const_main =
     [''checking constness:'',
      const_line ''A'' (add_const Int_type),
      const_line ''B'' (add_const (Const Int_type)),
      const_line ''C'' (add_const (Pointer (Const Int_type))),
      const_line ''D'' (add_const (Const (Pointer Int_type))),
      const_line ''E'' (add_const (Reference (Const Int_type)))]"

lemma add_const_is_const: "is_const (add_const t) \<longleftrightarrow> (\<nexists>u. t = Reference u)"
  by (cases t) auto

lemma add_const_idem: "add_const (add_const t) = add_const t"
  by (cases t) auto

lemma const_main_prints:
  "const_main = [''checking constness:'', ''A: true'', ''B: true'', ''C: true'', ''D: true'', ''E: false'']"
  by (simp add: const_main_def const_line_def)

end
