(* ===== verification/EchoServers.thy ===== *)
theory EchoServers
  imports Prelude
begin

text \<open>
  The two echo servers. \<open>boost_cpp/test_async.cc\<close> chains the completion handlers of a read and a
  write; \<open>boost_cpp/test_spawn.cc\<close> is a coroutine with the same loop and a second one that closes
  the socket when a timer expires. The steps are what can happen next: bytes arriving, the
  completion of the pending operation, and the time; the socket is a parameter only through these.
\<close>

section \<open>A session with completion handlers\<close>

text \<open>
  The pending operation: a read, a write of the bytes in \<open>data_\<close>, or none, when the handler let the
  last reference go and the session is gone. \<open>es_sent\<close> records what the peer has sent.
\<close>

datatype echo_op = Reading | Writing bytes | Ended

record echo_session =
  es_op :: echo_op
  es_in :: bytes
  es_out :: bytes
  es_sent :: bytes

text \<open>\<open>start\<close>, and the two operations it begins.\<close>

definition do_read :: "echo_session \<Rightarrow> echo_session" where
  "do_read s = s\<lparr>es_op := Reading\<rparr>"

definition do_write :: "bytes \<Rightarrow> echo_session \<Rightarrow> echo_session" where
  "do_write data s = s\<lparr>es_op := Writing data\<rparr>"

definition echo_start :: echo_session where
  "echo_start = do_read \<lparr>es_op = Ended, es_in = [], es_out = [], es_sent = []\<rparr>"

definition max_length :: nat where
  "max_length = 1024"

text \<open>The handlers: of a read of \<open>n\<close> bytes, of a write, and of either with an error.\<close>

definition read_done :: "nat \<Rightarrow> nat \<Rightarrow> echo_session \<Rightarrow> echo_session option" where
  "read_done room n s =
     (if es_op s = Reading \<and> 0 < n \<and> n \<le> length (es_in s) \<and> n \<le> room
      then Some (do_write (take n (es_in s)) (s\<lparr>es_in := drop n (es_in s)\<rparr>)) else None)"

definition write_done :: "echo_session \<Rightarrow> echo_session option" where
  "write_done s =
     (case es_op s of Writing data \<Rightarrow> Some (do_read (s\<lparr>es_out := es_out s @ data\<rparr>)) | _ \<Rightarrow> None)"

definition echo_failed :: "nat \<Rightarrow> echo_session \<Rightarrow> echo_session option" where
  "echo_failed k s =
     (case es_op s of
        Reading \<Rightarrow> Some (s\<lparr>es_op := Ended\<rparr>)
      | Writing data \<Rightarrow> Some (s\<lparr>es_op := Ended, es_out := es_out s @ take k data\<rparr>)
      | Ended \<Rightarrow> None)"

definition echo_arrive :: "bytes \<Rightarrow> echo_session \<Rightarrow> echo_session" where
  "echo_arrive bs s = s\<lparr>es_in := es_in s @ bs, es_sent := es_sent s @ bs\<rparr>"

inductive echo_step :: "nat \<Rightarrow> echo_session \<Rightarrow> echo_session \<Rightarrow> bool" for room :: nat where
  Echo_arrive: "echo_step room s (echo_arrive bs s)"
| Echo_read: "read_done room n s = Some s' \<Longrightarrow> echo_step room s s'"
| Echo_write: "write_done s = Some s' \<Longrightarrow> echo_step room s s'"
| Echo_fail: "echo_failed k s = Some s' \<Longrightarrow> echo_step room s s'"

text \<open>The server: a session per accepted connection, and always one accept outstanding.\<close>

definition echo_accept :: "bool \<Rightarrow> echo_session list \<Rightarrow> echo_session list" where
  "echo_accept ok ss = (if ok then ss @ [echo_start] else ss)"

inductive echo_server_step :: "echo_session list \<Rightarrow> echo_session list \<Rightarrow> bool" where
  Accepted: "echo_server_step ss (echo_accept ok ss)"
| Session: "i < length ss \<Longrightarrow> echo_step max_length (ss ! i) s' \<Longrightarrow> echo_server_step ss (ss[i := s'])"

text \<open>\<open>main\<close>: the usage message needs exactly one argument; the port is \<open>atoi\<close> cut to a \<open>short\<close>.\<close>

definition echo_port :: "int \<Rightarrow> int" where
  "echo_port v = (v + 32768) mod 65536 - 32768"

section \<open>What is echoed\<close>

definition in_flight :: "echo_session \<Rightarrow> bytes" where
  "in_flight s = (case es_op s of Writing data \<Rightarrow> data | _ \<Rightarrow> [])"

text \<open>
  What was sent is what was echoed, what is being written and what was not read yet; a session that
  has ended has echoed a beginning of it.
\<close>

definition echo_wf :: "nat \<Rightarrow> echo_session \<Rightarrow> bool" where
  "echo_wf room s \<longleftrightarrow>
     length (in_flight s) \<le> room \<and>
     (if es_op s = Ended then \<exists>rest. es_sent s = es_out s @ rest
      else es_sent s = es_out s @ in_flight s @ es_in s)"

lemma echo_wf_start: "echo_wf room echo_start"
  by (simp add: echo_wf_def echo_start_def do_read_def in_flight_def)

lemma echo_wf_step:
  assumes "echo_wf room s" and "echo_step room s s'"
  shows "echo_wf room s'"
  using assms(2)
proof cases
  case (Echo_arrive bs)
  with assms(1) show ?thesis by (auto simp: echo_wf_def echo_arrive_def in_flight_def)
next
  case (Echo_read n)
  with assms(1) show ?thesis
    by (auto simp: echo_wf_def read_done_def do_write_def in_flight_def split: if_splits)
next
  case Echo_write
  with assms(1) show ?thesis
    by (auto simp: echo_wf_def write_done_def do_read_def in_flight_def split: echo_op.splits)
next
  case (Echo_fail k)
  show ?thesis
  proof (cases "es_op s")
    case (Writing data)
    with assms(1) have "es_sent s = es_out s @ data @ es_in s" by (simp add: echo_wf_def in_flight_def)
    then have "es_sent s = (es_out s @ take k data) @ drop k data @ es_in s" by simp
    with Writing Echo_fail show ?thesis by (auto simp: echo_wf_def echo_failed_def in_flight_def)
  qed (use Echo_fail assms(1) in \<open>auto simp: echo_wf_def echo_failed_def in_flight_def\<close>)
qed

lemma echo_server_wf:
  assumes "echo_server_step\<^sup>*\<^sup>* [] ss"
  shows "\<forall>s \<in> set ss. echo_wf max_length s"
  using assms
proof (induction rule: rtranclp_induct)
  case (step ss ss')
  from step(2) show ?case
  proof cases
    case (Accepted ok)
    with step(3) show ?thesis by (auto simp: echo_accept_def echo_wf_start)
  next
    case (Session i s')
    with step(3) have "echo_wf max_length s'" by (blast intro: echo_wf_step nth_mem)
    with step(3) Session(1) show ?thesis by (auto dest: set_update_subset_insert [THEN subsetD])
  qed
qed simp

text \<open>
  Every session of the server, in every reachable state, has sent its peer a beginning of what the
  peer sent, and holds at most the array's 1024 bytes in between; a session that waits for its peer
  and has nothing to read has echoed everything.
\<close>
lemma echo_returns_input:
  assumes "echo_server_step\<^sup>*\<^sup>* [] ss" and "s \<in> set ss"
  shows "(\<exists>rest. es_sent s = es_out s @ rest) \<and> length (in_flight s) \<le> max_length \<and>
         (es_op s = Reading \<and> es_in s = [] \<longrightarrow> es_out s = es_sent s)"
proof -
  from echo_server_wf [OF assms(1)] assms(2) have "echo_wf max_length s" by blast
  then show ?thesis by (cases "es_op s = Ended") (auto simp: echo_wf_def in_flight_def)
qed

section \<open>The coroutines with a timer\<close>

text \<open>
  The first coroutine before it sets the timer, while it reads and while it writes; the second
  before its test of the socket, in its wait, and after it. Times are in seconds; \<open>sp_started\<close> is
  when the timer was last set.
\<close>

datatype sp_echo = Sp_loop | Sp_read | Sp_write bytes | Sp_ended

datatype sp_watch = Sp_test | Sp_wait | Sp_awake | Sp_done

record spawn_session =
  sp_echo :: sp_echo
  sp_watch :: sp_watch
  sp_open :: bool
  sp_now :: nat
  sp_expiry :: nat
  sp_started :: nat

definition go :: "nat \<Rightarrow> spawn_session" where
  "go t = \<lparr>sp_echo = Sp_loop, sp_watch = Sp_test, sp_open = True, sp_now = t, sp_expiry = 0, sp_started = t\<rparr>"

text \<open>Setting or cancelling the timer wakes a pending wait.\<close>

definition wake_watch :: "sp_watch \<Rightarrow> sp_watch" where
  "wake_watch p = (if p = Sp_wait then Sp_awake else p)"

text \<open>
  One step of the first coroutine; the argument is the result of the operation it waits for, \<open>None\<close>
  for an error, which is an exception here. A closed socket gives no other result.
\<close>

definition sp_echo_step :: "bytes option \<Rightarrow> spawn_session \<Rightarrow> spawn_session option" where
  "sp_echo_step r s =
     (let caught = s\<lparr>sp_echo := Sp_ended, sp_open := False, sp_watch := wake_watch (sp_watch s)\<rparr> in
      case sp_echo s of
        Sp_loop \<Rightarrow>
          Some (s\<lparr>sp_echo := Sp_read, sp_expiry := sp_now s + 10, sp_started := sp_now s,
                  sp_watch := wake_watch (sp_watch s)\<rparr>)
      | Sp_read \<Rightarrow>
          (case r of
             None \<Rightarrow> Some caught
           | Some bs \<Rightarrow>
               if sp_open s \<and> bs \<noteq> [] \<and> length bs \<le> 128 then Some (s\<lparr>sp_echo := Sp_write bs\<rparr>) else None)
      | Sp_write bs \<Rightarrow>
          (case r of
             None \<Rightarrow> Some caught
           | Some _ \<Rightarrow> if sp_open s then Some (s\<lparr>sp_echo := Sp_loop\<rparr>) else None)
      | Sp_ended \<Rightarrow> None)"

text \<open>The second coroutine starts after the first has begun to read.\<close>

definition sp_watch_step :: "spawn_session \<Rightarrow> spawn_session option" where
  "sp_watch_step s =
     (if sp_expiry s = 0 then None
      else case sp_watch s of
        Sp_test \<Rightarrow> Some (s\<lparr>sp_watch := if sp_open s then Sp_wait else Sp_done\<rparr>)
      | Sp_wait \<Rightarrow> if sp_expiry s \<le> sp_now s then Some (s\<lparr>sp_watch := Sp_awake\<rparr>) else None
      | Sp_awake \<Rightarrow>
          Some (s\<lparr>sp_watch := Sp_test, sp_open := sp_open s \<and> \<not> sp_expiry s \<le> sp_now s\<rparr>)
      | Sp_done \<Rightarrow> None)"

inductive sp_step :: "spawn_session \<Rightarrow> spawn_session \<Rightarrow> bool" where
  Sp_echo: "sp_echo_step r s = Some s' \<Longrightarrow> sp_step s s'"
| Sp_watch: "sp_watch_step s = Some s' \<Longrightarrow> sp_step s s'"
| Sp_time: "sp_step s (s\<lparr>sp_now := Suc (sp_now s)\<rparr>)"

definition sp_wf :: "spawn_session \<Rightarrow> bool" where
  "sp_wf s \<longleftrightarrow> (sp_expiry s = 0 \<or> sp_expiry s = sp_started s + 10) \<and> sp_started s \<le> sp_now s"

lemma sp_wf_step: "sp_wf s \<Longrightarrow> sp_step s s' \<Longrightarrow> sp_wf s'"
  by (erule sp_step.cases)
    (auto simp: sp_wf_def sp_echo_step_def sp_watch_step_def Let_def
      split: sp_echo.splits sp_watch.splits option.splits if_splits)

lemma sp_reachable_wf: "sp_step\<^sup>*\<^sup>* (go t) s \<Longrightarrow> sp_wf s"
proof (induction rule: rtranclp_induct)
  case base
  then show ?case by (simp add: sp_wf_def go_def)
next
  case (step s s')
  then show ?case using sp_wf_step by blast
qed

text \<open>
  The watcher closes the socket only when ten seconds have passed since the last read was started,
  and then it does, however long the write after that read is still going on: a slow write is cut
  off like an idle peer.
\<close>
lemma watcher_closes_after_ten_seconds:
  assumes "sp_step\<^sup>*\<^sup>* (go t) s" and "sp_watch_step s = Some s'" and "sp_open s"
  shows "(\<not> sp_open s' \<longrightarrow> sp_started s + 10 \<le> sp_now s) \<and>
         (sp_watch s = Sp_awake \<and> sp_started s + 10 \<le> sp_now s \<longrightarrow> \<not> sp_open s')"
  using sp_reachable_wf [OF assms(1)] assms(2,3)
  by (auto simp: sp_wf_def sp_watch_step_def split: sp_watch.splits if_splits)

lemma slow_write_is_cut_off:
  assumes "sp_echo s = Sp_write bs" and "sp_watch s = Sp_awake" and "sp_expiry s \<le> sp_now s"
    and "0 < sp_expiry s" and "sp_open s"
  shows "\<exists>s' s''. sp_watch_step s = Some s' \<and> sp_echo_step None s' = Some s'' \<and>
           sp_echo_step (Some []) s' = None \<and> sp_echo s'' = Sp_ended"
  using assms by (simp add: sp_watch_step_def sp_echo_step_def)

section \<open>The programs\<close>

text \<open>
  How the two functions \<open>main\<close> end: with the usage message, with the exception they catch, or not at
  all, serving a port. \<open>atoi\<close> and the binding of the acceptor are parameters; binding throws when it
  fails, in the constructor of the first server and in the coroutine of the second.
\<close>

datatype echo_end = Usage_shown string int | Caught exn int | Serves int

definition async_main :: "(string \<Rightarrow> int) \<Rightarrow> (int \<Rightarrow> exn + unit) \<Rightarrow> string list \<Rightarrow> echo_end" where
  "async_main atoi bind_acceptor argv =
     (if length argv \<noteq> 2 then Usage_shown ''Usage: async_tcp_echo_server <port>'' 1
      else
        (let port = echo_port (atoi (argv ! 1)) mod 65536 in
         case bind_acceptor port of Inl e \<Rightarrow> Caught e 0 | Inr _ \<Rightarrow> Serves port))"

definition spawn_main :: "(string \<Rightarrow> int) \<Rightarrow> (int \<Rightarrow> exn + unit) \<Rightarrow> string list \<Rightarrow> echo_end" where
  "spawn_main atoi bind_acceptor argv =
     (if length argv \<noteq> 2 then Usage_shown ''Usage: echo_server <port>'' 1
      else
        (let port = atoi (argv ! 1) mod 65536 in
         case bind_acceptor port of Inl e \<Rightarrow> Caught e 0 | Inr _ \<Rightarrow> Serves port))"

text \<open>The loop of the second acceptor, on the results of its accepts and the times they come.\<close>

fun spawn_accept :: "(bool \<times> nat) list \<Rightarrow> spawn_session list" where
  "spawn_accept [] = []"
| "spawn_accept ((ok, t) # as) = (if ok then go t # spawn_accept as else spawn_accept as)"

text \<open>
  Both programs take any number as the port, cut to 16 bits (the detour of the first through a
  \<open>short\<close> changes nothing), and end with success when they cannot listen on it.
\<close>

lemma echo_ports:
  "echo_port v mod 65536 = v mod 65536"
proof -
  have "((v + 32768) mod 65536 - 32768) mod 65536 = (v + 32768 - 32768) mod 65536" by (rule mod_diff_left_eq)
  then show ?thesis by (simp add: echo_port_def)
qed

lemma echo_mains:
  assumes "length argv = 2"
  shows "async_main atoi b argv = spawn_main atoi b argv"
    and "0 \<le> atoi (argv ! 1) \<Longrightarrow> atoi (argv ! 1) < 65536 \<Longrightarrow> b (atoi (argv ! 1)) = Inr () \<Longrightarrow>
      async_main atoi b argv = Serves (atoi (argv ! 1))"
    and "(\<And>port. b port = Inl e) \<Longrightarrow> async_main atoi b argv = Caught e 0"
  using assms by (simp_all add: async_main_def spawn_main_def echo_ports Let_def)

lemma spawn_accept_sessions: "length (spawn_accept as) = length (filter fst as)"
  by (induction as rule: spawn_accept.induct) simp_all

end
