(* ===== verification/RegexMatch.thy ===== *)
theory RegexMatch
  imports Prelude
begin

text \<open>
  \<open>TestCPP/test_vec.cpp\<close>, \<open>isMatch\<close>: a dynamic program that matches a string against a pattern with
  \<open>.\<close> and \<open>*\<close>. The two strings are literals in the code and parameters here. The table is an
  array on the stack that is never cleared: what its memory held before the call is a parameter,
  and an access is in bounds for all indices the loops use. The struct at the top of the file is not
  used by it.
\<close>

section \<open>The program\<close>

text \<open>\<open>dp\<close>, as rows of cells; and the lines written to the output: two indices and the cell.\<close>

type_synonym table = "nat \<Rightarrow> nat \<Rightarrow> bool"
type_synonym trace = "(nat \<times> nat \<times> bool) list"

definition assign_cell :: "nat \<Rightarrow> nat \<Rightarrow> bool \<Rightarrow> table \<Rightarrow> table" where
  "assign_cell i j b dp = dp(i := (dp i)(j := b))"

definition clear_column :: "nat \<Rightarrow> table \<Rightarrow> table" where
  "clear_column len1 dp = foldl (\<lambda>dp i. assign_cell i 0 False dp) dp [0..<len1 + 1]"

definition first_row :: "string \<Rightarrow> table \<Rightarrow> table" where
  "first_row p dp =
     foldl (\<lambda>dp j. if p ! j = CHR ''*'' then assign_cell 0 (j + 1) (dp 0 (j - 1)) dp else dp)
       dp [1..<length p]"

definition fill_cell :: "string \<Rightarrow> string \<Rightarrow> nat \<Rightarrow> table \<times> trace \<Rightarrow> nat \<Rightarrow> table \<times> trace" where
  "fill_cell s p i st j =
     (let dp = fst st; out = snd st in
      if p ! j \<noteq> CHR ''*'' then
        if s ! i = p ! j \<or> p ! j = CHR ''.'' then
          (assign_cell (i + 1) (j + 1) (dp i j) dp, out @ [(i + 1, j + 1, dp i j)])
        else (assign_cell (i + 1) (j + 1) False dp, out)
      else
        (assign_cell (i + 1) (j + 1)
           (j > 0 \<and>
            (dp (i + 1) (j - 1) \<or>
             (dp i (j - 1) \<and> (s ! i = p ! (j - 1) \<or> p ! (j - 1) = CHR ''.'')) \<or>
             (dp i (j + 1) \<and> (s ! i = p ! (j - 1) \<or> p ! (j - 1) = CHR ''.'')))) dp, out))"

definition fill_row :: "string \<Rightarrow> string \<Rightarrow> table \<times> trace \<Rightarrow> nat \<Rightarrow> table \<times> trace" where
  "fill_row s p st i = foldl (fill_cell s p i) st [0..<length p]"

definition is_match :: "string \<Rightarrow> string \<Rightarrow> table \<Rightarrow> bool \<times> trace" where
  "is_match s p dp0 =
     (let out0 = [(1, 1, dp0 1 1)];
          dp1 = assign_cell 0 0 True (clear_column (length s) dp0);
          dp2 = first_row p dp1;
          st = foldl (fill_row s p) (dp2, out0) [0..<length s]
      in (fst st (length s) (length p), snd st))"

definition isMatch :: "table \<Rightarrow> bool \<times> trace" where
  "isMatch dp0 = is_match ''aaa'' ''aaaa'' dp0"

section \<open>What a pattern means\<close>

text \<open>A pattern is a sequence of characters, each to be taken once or any number of times.\<close>

datatype item = One char | Many char

primrec item_char :: "item \<Rightarrow> char" where
  "item_char (One c) = c"
| "item_char (Many c) = c"

fun render :: "item list \<Rightarrow> string" where
  "render [] = []"
| "render (One c # its) = c # render its"
| "render (Many c # its) = c # CHR ''*'' # render its"

definition fits_char :: "char \<Rightarrow> char \<Rightarrow> bool" where
  "fits_char c x \<longleftrightarrow> x = c \<or> c = CHR ''.''"

fun matches :: "item list \<Rightarrow> string \<Rightarrow> bool" where
  "matches [] s = (s = [])"
| "matches (One c # its) [] = False"
| "matches (One c # its) (x # xs) = (fits_char c x \<and> matches its xs)"
| "matches (Many c # its) [] = matches its []"
| "matches (Many c # its) (x # xs) = (matches its (x # xs) \<or> fits_char c x \<and> matches (Many c # its) xs)"

lemma render_append [simp]: "render (its @ js) = render its @ render js"
  by (induction its rule: render.induct) simp_all

text \<open>How a string with a first or a last character splits.\<close>

lemma split_Cons:
  "(\<exists>u v. x # xs = u @ v \<and> P u v) \<longleftrightarrow> P [] (x # xs) \<or> (\<exists>u v. xs = u @ v \<and> P (x # u) v)"
  by (auto simp: Cons_eq_append_conv)

lemma split_snoc:
  "(\<exists>u v. xs @ [x] = u @ v \<and> P u v) \<longleftrightarrow> P (xs @ [x]) [] \<or> (\<exists>u v. xs = u @ v \<and> P u (v @ [x]))"
  (is "?l \<longleftrightarrow> ?r")
proof
  assume ?l
  then obtain u v where uv: "xs @ [x] = u @ v" "P u v" by blast
  show ?r
  proof (cases v rule: rev_cases)
    case Nil
    with uv show ?thesis by simp
  next
    case (snoc v' y)
    with uv have "xs = u @ v'" "P u (v' @ [x])" by simp_all
    then show ?thesis by blast
  qed
next
  assume ?r
  then show ?l
  proof
    assume "P (xs @ [x]) []"
    then show ?l by (intro exI [of _ "xs @ [x]"] exI [of _ "[]"]) simp
  next
    assume "\<exists>u v. xs = u @ v \<and> P u (v @ [x])"
    then obtain u v where "xs = u @ v" "P u (v @ [x])" by blast
    then show ?l by (intro exI [of _ u] exI [of _ "v @ [x]"]) simp
  qed
qed

lemma matches_append:
  "matches (its @ js) s \<longleftrightarrow> (\<exists>u v. s = u @ v \<and> (matches its u \<and> matches js v))"
proof (induction its s rule: matches.induct)
  case (3 c its x xs)
  then show ?case by (subst split_Cons) auto
next
  case (5 c its x xs)
  have "matches ((Many c # its) @ js) (x # xs) \<longleftrightarrow>
      (\<exists>u v. x # xs = u @ v \<and> (matches its u \<and> matches js v)) \<or>
      fits_char c x \<and> (\<exists>u v. xs = u @ v \<and> (matches (Many c # its) u \<and> matches js v))"
    using 5 by simp
  also have "\<dots> \<longleftrightarrow> (\<exists>u v. x # xs = u @ v \<and> (matches (Many c # its) u \<and> matches js v))"
    unfolding split_Cons by auto
  finally show ?case .
qed auto

lemma matches_One_last:
  "matches (its @ [One c]) [] = False"
  "matches (its @ [One c]) (xs @ [x]) \<longleftrightarrow> fits_char c x \<and> matches its xs"
proof -
  have one: "matches [One c] v \<longleftrightarrow> (\<exists>y. v = [y] \<and> fits_char c y)" for v
    by (cases v) auto
  show "matches (its @ [One c]) [] = False" by (simp add: matches_append one)
  show "matches (its @ [One c]) (xs @ [x]) \<longleftrightarrow> fits_char c x \<and> matches its xs"
    unfolding matches_append split_snoc by (auto simp: one)
qed

lemma matches_Many: "matches [Many c] v \<longleftrightarrow> (\<forall>y \<in> set v. fits_char c y)"
  by (induction v) auto

lemma matches_Many_last:
  "matches (its @ [Many c]) [] = matches its []"
  "matches (its @ [Many c]) (xs @ [x]) \<longleftrightarrow>
     matches its (xs @ [x]) \<or> fits_char c x \<and> matches (its @ [Many c]) xs"
proof -
  show "matches (its @ [Many c]) [] = matches its []" by (simp add: matches_append)
  show "matches (its @ [Many c]) (xs @ [x]) \<longleftrightarrow>
     matches its (xs @ [x]) \<or> fits_char c x \<and> matches (its @ [Many c]) xs"
    unfolding matches_append split_snoc by (auto simp: matches_Many)
qed

lemma matches_Many_more: "matches its s \<Longrightarrow> matches (its @ [Many c]) s"
  unfolding matches_append by (intro exI [of _ s] exI [of _ "[]"]) simp

section \<open>The table\<close>

text \<open>What the loops leave in a cell, from the strings and the memory \<open>m\<close> before the call.\<close>

fun entry :: "string \<Rightarrow> string \<Rightarrow> table \<Rightarrow> nat \<Rightarrow> nat \<Rightarrow> bool" where
  "entry s p m 0 0 = True"
| "entry s p m (Suc i) 0 = False"
| "entry s p m 0 (Suc j) =
     (if p ! j = CHR ''*'' \<and> 0 < j then entry s p m 0 (j - 1) else m 0 (Suc j))"
| "entry s p m (Suc i) (Suc j) =
     (if p ! j \<noteq> CHR ''*'' then fits_char (p ! j) (s ! i) \<and> entry s p m i j
      else 0 < j \<and>
        (entry s p m (Suc i) (j - 1) \<or>
         fits_char (p ! (j - 1)) (s ! i) \<and> (entry s p m i (j - 1) \<or> entry s p m i (Suc j))))"

lemma clear_column_cell:
  "foldl (\<lambda>dp i. assign_cell i 0 False dp) dp [0..<n] a b = (if b = 0 \<and> a < n then False else dp a b)"
  by (induction n) (auto simp: assign_cell_def)

lemma first_row_cell:
  fixes R :: "nat \<Rightarrow> table" and p :: string and dp :: table
  defines "R n \<equiv> foldl (\<lambda>dp j. if p ! j = CHR ''*'' then assign_cell 0 (j + 1) (dp 0 (j - 1)) dp else dp)
                     dp [1..<n]"
  assumes dp: "\<And>b. dp 0 b = (b = 0 \<or> m 0 b)"
  shows "(\<forall>b. R n 0 b = (if b \<le> 1 \<or> b \<le> n then entry s p m 0 b else m 0 b)) \<and> (\<forall>a>0. R n a = dp a)"
proof (induction n)
  case 0
  have "R 0 = dp" by (simp add: R_def)
  moreover have "dp 0 b = (if b \<le> 1 \<or> b \<le> 0 then entry s p m 0 b else m 0 b)" for b
    using dp by (cases b) simp_all
  ultimately show ?case by simp
next
  case (Suc n)
  show ?case
  proof (cases n)
    case 0
    with Suc show ?thesis by (simp add: R_def)
  next
    case (Suc k)
    have step: "R (Suc n) = (if p ! n = CHR ''*'' then assign_cell 0 (n + 1) (R n 0 (n - 1)) (R n) else R n)"
      using Suc by (simp add: R_def)
    have "R (Suc n) 0 b = (if b \<le> 1 \<or> b \<le> Suc n then entry s p m 0 b else m 0 b)" for b
    proof (cases "b = Suc n")
      case True
      with Suc.IH Suc show ?thesis unfolding step by (simp add: assign_cell_def)
    next
      case False
      then have "b \<le> Suc n \<longleftrightarrow> b \<le> n" by auto
      with False Suc.IH show ?thesis unfolding step by (simp add: assign_cell_def)
    qed
    moreover have "R (Suc n) a = dp a" if "0 < a" for a
      using that Suc.IH unfolding step by (simp add: assign_cell_def)
    ultimately show ?thesis by blast
  qed
qed

text \<open>The rows up to \<open>i\<close> are filled, the next one up to column \<open>n\<close>.\<close>

definition filled :: "string \<Rightarrow> string \<Rightarrow> table \<Rightarrow> nat \<Rightarrow> nat \<Rightarrow> table \<Rightarrow> bool" where
  "filled s p m i n dp \<longleftrightarrow>
     (\<forall>a \<le> i. \<forall>b \<le> length p. dp a b = entry s p m a b) \<and>
     (i < length s \<longrightarrow> (\<forall>b \<le> n. dp (Suc i) b = entry s p m (Suc i) b)) \<and>
     (\<forall>a \<le> length s. dp a 0 = (a = 0))"

lemma fill_cell_filled:
  assumes "filled s p m i j (fst st)" and "j < length p" and "i < length s"
  shows "filled s p m i (Suc j) (fst (fill_cell s p i st j))"
proof -
  let ?dp = "fst st" and ?dp' = "fst (fill_cell s p i st j)"
  have cell: "?dp' a b = (if a = Suc i \<and> b = Suc j then entry s p m (Suc i) (Suc j) else ?dp a b)" for a b
    using assms by (auto simp: fill_cell_def filled_def assign_cell_def fits_char_def Let_def)
  with assms show ?thesis unfolding filled_def by (auto simp: le_Suc_eq)
qed

lemma fill_row_filled:
  assumes "filled s p m i 0 (fst st)" and "i < length s"
  shows "filled s p m (Suc i) 0 (fst (fill_row s p st i))"
proof -
  have "filled s p m i n (fst (foldl (fill_cell s p i) st [0..<n]))" if "n \<le> length p" for n
    using that assms by (induction n) (simp_all add: fill_cell_filled)
  from this [of "length p"] assms(2) show ?thesis
    by (auto simp: fill_row_def filled_def le_Suc_eq)
qed

lemma is_match_entry: "fst (is_match s p m) = entry s p m (length s) (length p)"
proof -
  let ?dp1 = "assign_cell 0 0 True (clear_column (length s) m)"
  let ?st = "(first_row p ?dp1, [(1, 1, m 1 1)])"
  have col: "clear_column (length s) m a b = (if b = 0 \<and> a < length s + 1 then False else m a b)" for a b
    unfolding clear_column_def by (rule clear_column_cell)
  have "?dp1 0 b = (b = 0 \<or> m 0 b)" for b by (simp add: assign_cell_def col)
  from first_row_cell [where m = m and dp = ?dp1 and n = "length p" and p = p and s = s, OF this]
  have row: "\<And>b. b \<le> length p \<Longrightarrow> first_row p ?dp1 0 b = entry s p m 0 b"
    and rest: "\<And>a. 0 < a \<Longrightarrow> first_row p ?dp1 a = ?dp1 a" by (simp_all add: first_row_def)
  have "filled s p m 0 0 (fst ?st)"
  proof -
    have "first_row p ?dp1 a 0 = (a = 0)" if "a \<le> length s" for a
      using that row [of 0] rest [of a] by (cases a) (simp_all add: assign_cell_def col)
    moreover have "first_row p ?dp1 (Suc 0) 0 = entry s p m (Suc 0) 0" if "0 < length s"
      using that calculation [of 1] by (cases s) simp_all
    ultimately show ?thesis using row by (auto simp: filled_def)
  qed
  then have "filled s p m n 0 (fst (foldl (fill_row s p) ?st [0..<n]))" if "n \<le> length s" for n
    using that by (induction n) (simp_all add: fill_row_filled)
  from this [of "length s"] show ?thesis by (simp add: is_match_def Let_def filled_def)
qed

section \<open>Correctness\<close>

lemma take_snoc: "Suc k \<le> length s \<Longrightarrow> take (Suc k) s = take k s @ [s ! k]"
  by (simp add: take_Suc_conv_app_nth)

text \<open>One more item: the column after it from the column \<open>n\<close> before it.\<close>

lemma entry_One:
  assumes col: "\<And>k. k \<le> length s \<Longrightarrow> entry s p m k n \<longleftrightarrow> matches its (take k s)"
    and p: "p ! n = c" "c \<noteq> CHR ''*''" and clear: "\<not> m 0 (Suc n)" and i: "i \<le> length s"
  shows "entry s p m i (Suc n) \<longleftrightarrow> matches (its @ [One c]) (take i s)"
proof (cases i)
  case 0
  with p clear show ?thesis by (simp add: matches_One_last)
next
  case (Suc k)
  with i take_snoc [of k s] col [of k] p show ?thesis by (simp add: matches_One_last)
qed

lemma entry_Many:
  assumes col: "\<And>k. k \<le> length s \<Longrightarrow> entry s p m k n \<longleftrightarrow> matches its (take k s)"
    and p: "p ! n = c" "p ! Suc n = CHR ''*''"
  shows "i \<le> length s \<Longrightarrow> entry s p m i (Suc (Suc n)) \<longleftrightarrow> matches (its @ [Many c]) (take i s)"
proof (induction i)
  case 0
  with p col [of 0] show ?case by (simp add: matches_Many_last)
next
  case (Suc k)
  with take_snoc [of k s] col [of k] col [of "Suc k"] p matches_Many_more [of its "take k s" c] show ?case
    by (auto simp: matches_Many_last)
qed

lemma entry_matches:
  assumes "\<forall>it \<in> set its. item_char it \<noteq> CHR ''*''"
    and "p = render its @ rest" and "\<forall>j < length (render its). \<not> m 0 (Suc j)" and "i \<le> length s"
  shows "entry s p m i (length (render its)) \<longleftrightarrow> matches its (take i s)"
  using assms
proof (induction its arbitrary: rest i rule: rev_induct)
  case Nil
  then show ?case by (cases i; cases s) simp_all
next
  case (snoc it its)
  have col: "entry s p m k (length (render its)) \<longleftrightarrow> matches its (take k s)" if "k \<le> length s" for k
    using snoc.IH [of "render [it] @ rest" k] snoc.prems that by simp
  show ?case
  proof (cases it)
    case (One c)
    with snoc.prems entry_One [OF col, of c i] show ?thesis by simp
  next
    case (Many c)
    with snoc.prems entry_Many [OF col, of c i] show ?thesis by (simp add: nth_append)
  qed
qed

text \<open>
  C37: The matcher decides its patterns when the first row of its table happens to be clear. For every
  sequence of items, each a character or \<open>.\<close> with or without a star, \<open>isMatch\<close> on the written
  pattern answers exactly whether the whole string matches the sequence; nothing else of what the
  memory of the table held before matters.
\<close>
theorem is_match_correct:
  assumes "\<forall>it \<in> set its. item_char it \<noteq> CHR ''*''"
    and "\<forall>j < length (render its). \<not> m 0 (Suc j)"
  shows "fst (is_match s (render its) m) \<longleftrightarrow> matches its s"
  using entry_matches [where p = "render its" and rest = "[]" and i = "length s" and m = m and s = s, OF assms(1) _ assms(2)]
  by (simp add: is_match_entry)

theorem is_match_correct_witness:
  "fst (is_match ''aab'' ''c*a*b'' (\<lambda>i j. i > 0)) \<and> \<not> fst (is_match ''ab'' ''.*c'' (\<lambda>i j. i > 0))"
proof -
  have "render [Many CHR ''c'', Many CHR ''a'', One CHR ''b''] = ''c*a*b''"
    "render [Many CHR ''.'', One CHR ''c''] = ''.*c''" by simp_all
  then show ?thesis
    using is_match_correct [of "[Many CHR ''c'', Many CHR ''a'', One CHR ''b'']" "\<lambda>i j. i > 0" "''aab''"]
      is_match_correct [of "[Many CHR ''.'', One CHR ''c'']" "\<lambda>i j. i > 0" "''ab''"]
    by (simp add: fits_char_def)
qed

text \<open>
  As it is called, \<open>isMatch\<close> answers with what the memory of the array held: the cell it returns is
  copied along the diagonal from one that is never written. The pattern does not match.
\<close>
lemma isMatch_returns_memory:
  "fst (isMatch m) = m 0 1" and "\<not> matches (map One ''aaaa'') ''aaa''"
proof -
  show "fst (isMatch m) = m 0 1"
    unfolding isMatch_def is_match_entry by (simp add: numeral_nat fits_char_def)
qed (simp add: fits_char_def)

end
