(* ===== verification/FaultPrograms.thy ===== *)
theory FaultPrograms
  imports Prelude
begin

text \<open>
  Programs that provoke a fault or end in the operating system: \<open>boost_cpp/test_mp.cc\<close> (and its copy in
  \<open>TestCPP\<close>), a guard page with a handler for the fault; \<open>boost_cpp/test_mprotect.cc\<close>, a store into a
  string literal; \<open>boost_cpp/test_stack.cc\<close>, a recursion without end; and \<open>boost_cpp/test_boost.cc\<close>.
  Memory is a map from addresses, protected by the page; a store that faults raises \<open>SIGSEGV\<close> and,
  when a handler returns, is executed again.
\<close>

section \<open>A process with protected pages\<close>

text \<open>A handler is installed with or without \<open>SA_RESETHAND\<close>; \<open>None\<close> is the default action.\<close>

record proc_state =
  pr_writable :: "nat \<Rightarrow> bool"
  pr_mem :: "nat \<Rightarrow> char"
  pr_handler :: "int \<Rightarrow> bool option"
  pr_out :: "string list"
  pr_file :: bytes
  pr_killed :: bool

definition SIGSEGV :: int where
  "SIGSEGV = 11"

text \<open>
  What the programs are given: the size of a page, the number of the page \<open>valloc\<close> answers with,
  whether the file of the report can be opened, and what the library writes as the backtrace.
\<close>

record host =
  h_pagesize :: nat
  h_page :: nat
  h_opens :: bool
  h_backtrace :: bytes

section \<open>test_mp.cc\<close>

definition register_segv :: "int \<Rightarrow> proc_state \<Rightarrow> proc_state" where
  "register_segv signum s = s\<lparr>pr_handler := (pr_handler s)(signum \<mapsto> True)\<rparr>"

text \<open>\<open>mprotect\<close> of the pages a range touches; it refuses an address that starts no page.\<close>

definition mprotect :: "host \<Rightarrow> nat \<Rightarrow> nat \<Rightarrow> bool \<Rightarrow> proc_state \<Rightarrow> proc_state" where
  "mprotect H addr len writable s =
     (if addr mod h_pagesize H \<noteq> 0 then s
      else s\<lparr>pr_writable := (\<lambda>p.
        if addr \<le> p * h_pagesize H \<and> p * h_pagesize H < addr + len then writable else pr_writable s p)\<rparr>)"

definition core_func :: "host \<Rightarrow> proc_state \<Rightarrow> nat \<times> proc_state" where
  "core_func H s =
     (let stack = h_page H * h_pagesize H in (stack, mprotect H stack (h_pagesize H) False s))"

definition destroy_stack :: "host \<Rightarrow> nat \<Rightarrow> proc_state \<Rightarrow> proc_state" where
  "destroy_stack H stack s = mprotect H stack (h_pagesize H) True s"

definition print_line :: "string \<Rightarrow> proc_state \<Rightarrow> proc_state" where
  "print_line t s = s\<lparr>pr_out := pr_out s @ [t]\<rparr>"

text \<open>The handler: the address of the fault and a backtrace are appended to a file.\<close>

definition fault_report :: "host \<Rightarrow> nat \<Rightarrow> bytes" where
  "fault_report H addr = take 255 (''Addr: 0x'' @ hex addr @ [CHR 0x0A]) @ h_backtrace H"

definition sigsegv_handler :: "host \<Rightarrow> nat \<Rightarrow> proc_state \<Rightarrow> proc_state" where
  "sigsegv_handler H addr s =
     (let s1 = print_line '' Segment Fault'' s
      in if h_opens H then s1\<lparr>pr_file := pr_file s1 @ fault_report H addr\<rparr> else s1)"

text \<open>One attempt to store: whether it was done, with the signal delivered when it was not.\<close>

definition try_store :: "host \<Rightarrow> nat \<Rightarrow> char \<Rightarrow> proc_state \<Rightarrow> bool \<times> proc_state" where
  "try_store H addr c s =
     (if pr_writable s (addr div h_pagesize H) then (True, s\<lparr>pr_mem := (pr_mem s)(addr := c)\<rparr>)
      else
        (case pr_handler s SIGSEGV of
           None \<Rightarrow> (False, s\<lparr>pr_killed := True\<rparr>)
         | Some reset \<Rightarrow>
             (False, sigsegv_handler H addr
               (if reset then s\<lparr>pr_handler := (pr_handler s)(SIGSEGV := None)\<rparr> else s))))"

text \<open>The instruction, executed again after every return of the handler.\<close>

partial_function (option) store :: "host \<Rightarrow> nat \<Rightarrow> char \<Rightarrow> proc_state \<Rightarrow> proc_state option" where
  "store H addr c s =
     (case try_store H addr c s of
        (stored, s1) \<Rightarrow> if stored \<or> pr_killed s1 then Some s1 else store H addr c s1)"

definition mp_main :: "host \<Rightarrow> proc_state \<Rightarrow> proc_state option" where
  "mp_main H s =
     (case core_func H (register_segv SIGSEGV s) of
        (stack, s1) \<Rightarrow>
          (case store H (stack + 10) CHR ''a'' (print_line ''Write'' s1) of
             None \<Rightarrow> None
           | Some s2 \<Rightarrow>
               if pr_killed s2 then Some s2
               else Some (destroy_stack H stack (print_line ''Write Done'' s2))))"

section \<open>test_mprotect.cc\<close>

text \<open>\<open>str\<close> is the address of the literal; no handler is installed.\<close>

definition literal_main :: "host \<Rightarrow> nat \<Rightarrow> proc_state \<Rightarrow> proc_state option" where
  "literal_main H str s = store H (str + 1) CHR ''n'' s"

section \<open>test_stack.cc\<close>

text \<open>
  \<open>main\<close> calls itself: every call takes a frame with the array of 2048 bytes and what the compiler
  adds to it, and prints one line, until the stack is used up and the process is killed. The result
  is the addresses printed, the top of the stack being at \<open>sp\<close>.
\<close>

function stack_main :: "nat \<Rightarrow> nat \<Rightarrow> nat \<Rightarrow> nat list" where
  "stack_main extra room sp =
     (let frame = 2048 + extra in
      if room < frame then [] else (sp - frame) # stack_main extra (room - frame) (sp - frame))"
  by pat_completeness auto
termination
  by (relation "measure (\<lambda>(extra, room, sp). room)") auto

declare stack_main.simps [simp del]

section \<open>test_boost.cc\<close>

text \<open>\<open>file_size\<close> is a parameter; it throws when it fails. The result is the text and the exit status.\<close>

definition file_size_main :: "(string \<Rightarrow> exn + nat) \<Rightarrow> string list \<Rightarrow> exn + string \<times> int" where
  "file_size_main file_size argv =
     (if length argv < 2 then Inr (''Usage: tut1 path'' @ [CHR 0x0A], 1)
      else
        (case file_size (argv ! 1) of
           Inl e \<Rightarrow> Inl e
         | Inr n \<Rightarrow> Inr (argv ! 1 @ '' '' @ dec n @ [CHR 0x0A], 0)))"

section \<open>What the programs do\<close>

lemma store_plain:
  assumes "pr_writable s (addr div h_pagesize H)"
  shows "store H addr c s = Some (s\<lparr>pr_mem := (pr_mem s)(addr := c)\<rparr>)"
  using assms by (subst store.simps) (simp add: try_store_def)

lemma store_killed:
  assumes "\<not> pr_writable s (addr div h_pagesize H)" and "pr_handler s SIGSEGV = None"
  shows "store H addr c s = Some (s\<lparr>pr_killed := True\<rparr>)"
  using assms by (subst store.simps) (simp add: try_store_def)

text \<open>A handler that resets itself runs once; then the same store kills the process.\<close>

lemma store_reset_handler:
  assumes "\<not> pr_writable s (addr div h_pagesize H)" and "pr_handler s SIGSEGV = Some True" and "\<not> pr_killed s"
  shows "store H addr c s =
    Some ((sigsegv_handler H addr (s\<lparr>pr_handler := (pr_handler s)(SIGSEGV := None)\<rparr>))\<lparr>pr_killed := True\<rparr>)"
proof -
  let ?s1 = "sigsegv_handler H addr (s\<lparr>pr_handler := (pr_handler s)(SIGSEGV := None)\<rparr>)"
  have "\<not> pr_writable ?s1 (addr div h_pagesize H)" "pr_handler ?s1 SIGSEGV = None" "\<not> pr_killed ?s1"
    using assms by (simp_all add: sigsegv_handler_def print_line_def Let_def)
  from store_killed [OF this(1,2), of c] this(3) assms(1,2) show ?thesis
    by (subst store.simps) (simp add: try_store_def)
qed

text \<open>
  Without \<open>SA_RESETHAND\<close> the program would never end: nothing in the handler makes the page writable,
  so it would be called for the same store for ever.
\<close>

lemma store_lasting_handler:
  assumes "\<not> pr_writable s (addr div h_pagesize H)" and "pr_handler s SIGSEGV = Some False" and "\<not> pr_killed s"
  shows "store H addr c s = None"
proof -
  let ?P = "\<lambda>H addr (c :: char) t (t' :: proc_state).
    pr_writable t (addr div h_pagesize H) \<or> pr_handler t SIGSEGV \<noteq> Some False \<or> pr_killed t"
  have step: "?P H addr c t t'"
    if IH: "\<And>H addr c t t'. rec H addr c t = Some t' \<Longrightarrow> ?P H addr c t t'"
      and run: "(case try_store H addr c t of
        (stored, s1) \<Rightarrow> if stored \<or> pr_killed s1 then Some s1 else rec H addr c s1) = Some t'"
    for rec :: "host \<Rightarrow> nat \<Rightarrow> char \<Rightarrow> proc_state \<Rightarrow> proc_state option" and H addr c t t'
  proof (rule ccontr)
    let ?t1 = "sigsegv_handler H addr t"
    have same: "pr_writable ?t1 = pr_writable t" "pr_handler ?t1 = pr_handler t" "pr_killed ?t1 = pr_killed t"
      by (simp_all add: sigsegv_handler_def print_line_def Let_def)
    assume n: "\<not> ?P H addr c t t'"
    then have "try_store H addr c t = (False, ?t1)" by (auto simp: try_store_def)
    with run n same have "rec H addr c ?t1 = Some t'" by simp
    from IH [OF this] n same show False by simp
  qed
  have "?P H addr c s t'" if "store H addr c s = Some t'" for t'
    by (rule store.raw_induct [of ?P, OF step that])
  with assms show ?thesis by (cases "store H addr c s") auto
qed

text \<open>
  The guard page works once. Whatever the page and the memory hold, the program returns from no
  store into its guard page: it prints that it writes, its handler reports the address of the
  byte it stores to, exactly once, and then it is killed; nothing is stored, the last line is never
  printed and the page is never released.
\<close>
lemma guard_page_kills:
  assumes "10 < h_pagesize H" and "\<not> pr_killed s"
  defines "stack \<equiv> h_page H * h_pagesize H"
  shows "\<exists>s'. mp_main H s = Some s' \<and> pr_killed s' \<and> pr_mem s' = pr_mem s \<and>
           pr_out s' = pr_out s @ [''Write'', '' Segment Fault''] \<and>
           pr_file s' = pr_file s @ (if h_opens H then fault_report H (stack + 10) else []) \<and>
           \<not> pr_writable s' (h_page H)"
proof -
  define s1 where "s1 = print_line ''Write'' (snd (core_func H (register_segv SIGSEGV s)))"
  have page: "(stack + 10) div h_pagesize H = h_page H" using assms(1) by (simp add: stack_def)
  have s1: "\<not> pr_writable s1 (h_page H)" "pr_handler s1 SIGSEGV = Some True" "\<not> pr_killed s1"
    "pr_mem s1 = pr_mem s" "pr_out s1 = pr_out s @ [''Write'']" "pr_file s1 = pr_file s"
    using assms(1,2)
    by (simp_all add: s1_def core_func_def register_segv_def mprotect_def print_line_def Let_def)
  with store_reset_handler [of s1 "stack + 10" H "CHR ''a''"] page
  have st: "store H (stack + 10) CHR ''a'' s1 = Some ((sigsegv_handler H (stack + 10)
      (s1\<lparr>pr_handler := (pr_handler s1)(SIGSEGV := None)\<rparr>))\<lparr>pr_killed := True\<rparr>)" by simp
  have "fst (core_func H (register_segv SIGSEGV s)) = stack" by (simp add: core_func_def stack_def Let_def)
  with st have "mp_main H s = Some ((sigsegv_handler H (stack + 10)
      (s1\<lparr>pr_handler := (pr_handler s1)(SIGSEGV := None)\<rparr>))\<lparr>pr_killed := True\<rparr>)"
    by (simp add: mp_main_def case_prod_beta s1_def [symmetric])
  with s1 show ?thesis by (simp add: sigsegv_handler_def print_line_def Let_def)
qed

text \<open>Changing a literal kills the process at once.\<close>

lemma literal_store_kills:
  assumes "\<not> pr_writable s ((str + 1) div h_pagesize H)" and "pr_handler s SIGSEGV = None"
  shows "literal_main H str s = Some (s\<lparr>pr_killed := True\<rparr>)"
  unfolding literal_main_def by (rule store_killed [OF assms])

text \<open>
  The recursion always uses up its stack: as many lines as whole frames fit, each for an array that
  lies a frame below the last one.
\<close>
lemma stack_main_lines: "length (stack_main extra room sp) = room div (2048 + extra)"
proof (induction extra room sp rule: stack_main.induct)
  case (1 extra room sp)
  show ?case
  proof (cases "room < 2048 + extra")
    case False
    then have "room div (2048 + extra) = Suc ((room - (2048 + extra)) div (2048 + extra))"
      by (subst le_div_geq) simp_all
    with False 1 show ?thesis by (subst stack_main.simps) (simp add: Let_def)
  qed (subst stack_main.simps, simp)
qed

lemma stack_main_frames:
  assumes "i < length (stack_main extra room sp)"
  shows "stack_main extra room sp ! i = sp - Suc i * (2048 + extra)"
  using assms
proof (induction extra room sp arbitrary: i rule: stack_main.induct)
  case (1 extra room sp)
  show ?case
  proof (cases "room < 2048 + extra")
    case True
    with 1(2) show ?thesis by (subst (asm) stack_main.simps) simp
  next
    case False
    then have run: "stack_main extra room sp =
      (sp - (2048 + extra)) # stack_main extra (room - (2048 + extra)) (sp - (2048 + extra))"
      by (subst stack_main.simps) (simp add: Let_def)
    show ?thesis
    proof (cases i)
      case (Suc j)
      with 1(2) run have "j < length (stack_main extra (room - (2048 + extra)) (sp - (2048 + extra)))" by simp
      from 1(1) [OF refl False this] Suc run show ?thesis by (simp add: algebra_simps)
    qed (use run in simp)
  qed
qed

lemma file_size_main_cases:
  "file_size_main fs [prog] = Inr (''Usage: tut1 path'' @ [CHR 0x0A], 1)"
  "fs path = Inr n \<Longrightarrow> file_size_main fs (prog # path # rest) = Inr (path @ '' '' @ dec n @ [CHR 0x0A], 0)"
  "fs path = Inl e \<Longrightarrow> file_size_main fs (prog # path # rest) = Inl e"
  by (simp_all add: file_size_main_def)

end
