(* ===== verification/Drivers.thy ===== *)
theory Drivers
  imports Buffers LruMap MaxProduct Searching PairSum TaskQueue UPThreads
begin

text \<open>
  The programs that come with the components, run in their models: the tests of
  \<open>ceph_test/test_iter.cc\<close>, \<open>ceph_test/test_lru.cc\<close>, the functions \<open>main\<close> of three exercises
  (\<open>algorithm.cc\<close>, \<open>sear_ld.cc\<close>, \<open>leetcode/meeting.cpp\<close>), and those of \<open>ceph_test/test_cp.cc\<close> and
  \<open>upthread/test_upthread.cc\<close>, which run beside a thread. A test gives the results of its \<open>EXPECT\<close>
  lines; at its end the container is destroyed.
\<close>

section \<open>The tests of the intrusive list\<close>

definition it_expect :: "('a, nat) heap_action \<Rightarrow> 'a \<Rightarrow> ('a, bool) heap_action" where
  "it_expect it v = bindE it (\<lambda>p. bindE (it_deref p) (\<lambda>x. ret (x = v)))"

text \<open>Each of the three exists for \<open>int\<close> and for \<open>std::string\<close>, with other values.\<close>

definition test_push :: "'a \<Rightarrow> 'a \<Rightarrow> ('a, nat \<times> bool list) heap_action" where
  "test_push x y =
     bindE buffers_new (\<lambda>t1.
     bindE (push_back t1 x) (\<lambda>_.
     bindE (it_expect (buffers_back t1) x) (\<lambda>a.
     bindE (push_front t1 y) (\<lambda>_.
     bindE (it_expect (buffers_begin t1) y) (\<lambda>b. ret (t1, [a, b]))))))"

definition test_pop :: "'a \<Rightarrow> ('a, nat \<times> bool list) heap_action" where
  "test_pop x =
     bindE buffers_new (\<lambda>t1.
     bindE (push_back t1 x) (\<lambda>_.
     bindE (pop_back t1) (\<lambda>_.
     bindE (buffers_empty t1) (\<lambda>a. ret (t1, [a])))))"

definition test_iterator :: "'a \<Rightarrow> 'a \<Rightarrow> ('a, nat \<times> bool list) heap_action" where
  "test_iterator x y =
     bindE buffers_new (\<lambda>t1.
     bindE (push_front t1 x) (\<lambda>_.
     bindE (bindE (buffers_begin t1) (\<lambda>p. buffers_insert p y)) (\<lambda>_.
     bindE (it_expect (buffers_begin t1) y) (\<lambda>a.
     bindE (bindE (buffers_begin t1) buffers_erase) (\<lambda>_.
     bindE (it_expect (buffers_begin t1) x) (\<lambda>b. ret (t1, [a, b])))))))"

text \<open>\<open>std::find_if\<close> over the iterators of a container, \<open>None\<close> when it does not return.\<close>

partial_function (option) find_if ::
    "('a \<Rightarrow> bool) \<Rightarrow> nat \<Rightarrow> nat \<Rightarrow> 'a heap \<Rightarrow> ((exn + nat) \<times> 'a heap) option" where
  "find_if P p e h =
     (if \<not> it_ne p e then Some (Inr p, h)
      else
        (case it_deref p h of
           (Inl x, h1) \<Rightarrow> Some (Inl x, h1)
         | (Inr v, h1) \<Rightarrow>
             if P v then Some (Inr p, h1)
             else
               (case it_incr p h1 of
                  (Inl x, h2) \<Rightarrow> Some (Inl x, h2)
                | (Inr q, h2) \<Rightarrow> find_if P q e h2)))"

declare find_if.simps [code] destroy_loop.simps [code]

definition returning :: "('s \<Rightarrow> ((exn + 'a) \<times> 's) option) \<Rightarrow> ('s, 'a) action" where
  "returning f s = (case f s of None \<Rightarrow> (Inl Diverges, s) | Some rs \<Rightarrow> rs)"

definition test_find_if :: "(int, nat \<times> bool list) heap_action" where
  "test_find_if =
     bindE buffers_new (\<lambda>t1.
     bindE (push_back t1 12) (\<lambda>_.
     bindE (push_back t1 10) (\<lambda>_.
     bindE (push_back t1 5) (\<lambda>_.
     bindE (push_back t1 20) (\<lambda>_.
     bindE (it_expect
        (bindE (buffers_begin t1) (\<lambda>p. bindE (buffers_end t1) (\<lambda>e.
           returning (find_if (\<lambda>e. e mod 5 = 0) p e)))) 10) (\<lambda>a. ret (t1, [a])))))))"

text \<open>A run of a test with the destructor; \<open>None\<close> when anything throws or is not defined.\<close>

definition run_test :: "('a, nat \<times> bool list) heap_action \<Rightarrow> bool list option" where
  "run_test m =
     (case m empty_heap of
        (Inl e, h) \<Rightarrow> None
      | (Inr (t1, checks), h) \<Rightarrow>
          (case buffers_destroy t1 h of Some (Inr u, h') \<Rightarrow> Some checks | _ \<Rightarrow> None))"

definition run_all_tests :: "bool list option list" where
  "run_all_tests =
     [run_test (test_push (1 :: int) 2), run_test (test_pop (2 :: int)), run_test (test_iterator (1 :: int) 2),
      run_test (test_push ''abc'' ''dc''), run_test (test_pop ''dc''), run_test (test_iterator ''as'' ''dc''),
      run_test test_find_if]"

text \<open>Every test passes in the model, and the destructor at its end runs.\<close>

lemma all_tests_pass:
  "run_all_tests = [Some [True, True], Some [True], Some [True, True],
     Some [True, True], Some [True], Some [True, True], Some [True]]"
  by code_simp

text \<open>\<open>find_if\<close> in general: on a well-formed container it gives the first node whose element is wanted.\<close>

lemma find_if_suffix:
  assumes rg: "ring h r (xs @ ys)"
  shows "find_if P (hd (ys @ [r])) r h =
           Some (Inr (case find (\<lambda>p. P (the (the (el h p)))) ys of None \<Rightarrow> r | Some p \<Rightarrow> p), h)"
  using rg
proof (induction ys arbitrary: xs)
  case Nil
  show ?case by (subst find_if.simps) (simp add: it_ne_def it_eq_def)
next
  case (Cons y ys)
  have ne: "y \<noteq> r" using ringD(1) [OF Cons.prems] by auto
  obtain v where v: "el h y = Some (Some v)" using ringD(4) [OF Cons.prems, of y] by auto
  have "nx h y = Some (hd (ys @ [r]))"
    using ring_cut(3) [of h r "xs @ [y]" ys] Cons.prems by simp
  then have "find_if P y r h = (if P v then Some (Inr y, h) else find_if P (hd (ys @ [r])) r h)"
    using ne deref_node [OF v] by (subst find_if.simps) (simp add: it_ne_def it_eq_def it_incr_def)
  with Cons.IH [of "xs @ [y]"] Cons.prems v show ?case by simp
qed

lemma find_if_first:
  assumes "ring h r ps"
  shows "\<exists>b. buffers_begin r h = (Inr b, h) \<and>
           find_if P b r h = Some (Inr (case find (\<lambda>p. P (the (the (el h p)))) ps of None \<Rightarrow> r | Some p \<Rightarrow> p), h)"
  using find_if_suffix [of h r "[]" ps P] root_next [OF assms] assms by (simp add: buffers_begin_def)

section \<open>The program of the LRU map\<close>

definition lru_dump_lines :: "((int, char) lru_map, string list) action" where
  "lru_dump_lines s = (Inr (lru_dump dec_int (\<lambda>c. [c]) s), s)"

text \<open>The lines it prints. The character found is stored through a pointer and not printed.\<close>

definition test_lru_main :: "exn + string list" where
  "test_lru_main =
     fst (bindE (lru_add 2 CHR ''b'') (\<lambda>_.
          bindE (lru_add 1 CHR ''a'') (\<lambda>_.
          bindE (lru_add 5 CHR ''e'') (\<lambda>_.
          bindE (lru_add 3 CHR ''c'') (\<lambda>_.
          bindE lru_dump_lines (\<lambda>before.
          bindE (lru_find 5) (\<lambda>v.
          bindE lru_dump_lines (\<lambda>after. ret (before @ after))))))))
        (lru_map_new 3))"

lemma test_lru_prints:
  "test_lru_main = Inr
     [''LRU_CACHE KEY SEQ'', ''Key: 3'', ''Key: 5'', ''Key: 1'',
      ''MAP MEM'', ''key: 1,Value: a'', ''key: 3,Value: c'', ''key: 5,Value: e'',
      ''LRU_CACHE KEY SEQ'', ''Key: 5'', ''Key: 3'', ''Key: 1'',
      ''MAP MEM'', ''key: 1,Value: a'', ''key: 3,Value: c'', ''key: 5,Value: e'']"
  by code_simp

section \<open>The exercises\<close>

text \<open>What the three programs print: the products, whether 3 was found, and the pairs with their sums.\<close>

fun print_products :: "int list \<Rightarrow> exn + string list" where
  "print_products [] = Inr []"
| "print_products (i # is) =
     bindS (maxproduct i) (\<lambda>m. bindS (print_products is) (\<lambda>ls. Inr (dec_int m # ls)))"

definition algorithm_main :: "exn + string list" where
  "algorithm_main = print_products (map int [4..<20])"

definition search_main :: "exn + string" where
  "search_main =
     bindS (searchMatrix [[1, 2, 5, 7], [10, 11, 16, 20], [23, 30, 34, 50]] 3) (\<lambda>res.
       Inr (''Res: '' @ (if res then ''1'' else ''0'')))"

definition meeting_main :: "exn + (int \<times> int) list" where
  "meeting_main = sum_func [1, 5, 3, 2, 7, 1, 6, 4, 3, 2] [7, 5]"

lemma algorithm_main_prints:
  "algorithm_main = Inr [''4'', ''6'', ''9'', ''12'', ''18'', ''27'', ''36'', ''54'', ''81'', ''108'',
     ''162'', ''243'', ''324'', ''486'', ''729'', ''972'']"
  by code_simp

lemma search_main_prints: "search_main = Inr ''Res: 0''"
  by code_simp

lemma meeting_main_prints: "meeting_main = Inr [(1, 6), (2, 5), (3, 4), (1, 4), (2, 3), (2, 3)]"
  by code_simp

section \<open>The program of the task queue\<close>

text \<open>
  What \<open>main\<close> has still to do, beside the worker that \<open>create\<close> started: a call of \<open>add_task\<close> is its check
  and then the rest, and \<open>join\<close> waits for the end of the worker. \<open>make_shared\<close> clears the flag.
\<close>

datatype cp_call = Cp_add string | Cp_push string | Cp_stop | Cp_join

type_synonym cp_state = "cp_call list \<times> string task_manager"

definition cp_calls :: "string list \<Rightarrow> cp_call list" where
  "cp_calls ts = map Cp_add ts @ [Cp_stop, Cp_join]"

definition cp_start :: "string list \<Rightarrow> cp_state" where
  "cp_start ts = (cp_calls ts, task_manager_new False)"

definition cp_main :: cp_state where
  "cp_main = cp_start [''TaskA'', ''TaskB'', ''TaskC'']"

text \<open>A step of \<open>main\<close>, \<open>None\<close> where it waits or is over.\<close>

fun cp_next :: "cp_state \<Rightarrow> cp_state option" where
  "cp_next ([], s) = None"
| "cp_next (Cp_add t # cs, s) =
     Some (case tq_add_check t s of Inl r \<Rightarrow> (cs, s) | Inr s' \<Rightarrow> (Cp_push t # cs, s'))"
| "cp_next (Cp_push t # cs, s) = Some (cs, tq_add_push t s)"
| "cp_next (Cp_stop # cs, s) = Some (cs, tq_stop s)"
| "cp_next (Cp_join # cs, s) = (if tq_worker s = W_done then Some (cs, s) else None)"

inductive cp_step :: "cp_state \<Rightarrow> cp_state \<Rightarrow> bool" where
  Cp_main: "cp_next st = Some st' \<Longrightarrow> cp_step st st'"
| Cp_worker: "tq_entry s = Some (Inr s') \<Longrightarrow> cp_step (cs, s) (cs, s')"
| Cp_spurious: "tq_worker s = W_waiting \<Longrightarrow> cp_step (cs, s) (cs, s\<lparr>tq_worker := W_woken\<rparr>)"

text \<open>The lines of the tasks, which \<open>test::run\<close> prints.\<close>

definition cp_output :: "cp_state \<Rightarrow> string list" where
  "cp_output st = map (\<lambda>name. ''Task Run: '' @ name) (tq_ran (snd st))"

definition cp_phase :: "string list \<Rightarrow> cp_state \<Rightarrow> bool" where
  "cp_phase ts = (\<lambda>(cs, s).
     (\<exists>ns. cs = cp_calls ns \<and> \<not> tq_stopped s \<and> tq_accepted s @ ns = ts) \<or>
     (\<exists>n ns. cs = Cp_push n # cp_calls ns \<and> \<not> tq_stopped s \<and> n \<in> set (tq_checked s) \<and> tq_accepted s @ n # ns = ts) \<or>
     (tq_stopped s \<and> tq_accepted s = ts \<and> (cs = [Cp_join] \<or> cs = [] \<and> tq_worker s = W_done)))"

definition cp_inv :: "string list \<Rightarrow> cp_state \<Rightarrow> bool" where
  "cp_inv ts st \<longleftrightarrow> tq_wf (snd st) \<and> cp_phase ts st \<and> (tq_worker (snd st) = W_done \<longrightarrow> tq_task (snd st) = [])"

lemma entry_frame:
  assumes "tq_entry s = Some (Inr s')"
  shows "tq_stopped s' = tq_stopped s" "tq_accepted s' = tq_accepted s" "tq_checked s' = tq_checked s"
    "tq_worker s \<noteq> W_done" "tq_worker s' = W_done \<Longrightarrow> tq_task s' = []"
  using assms by (cases "tq_worker s"; auto simp: tq_entry_def tq_wait_def split: if_splits list.splits)+

lemma cp_inv_step:
  assumes "cp_step st st'" and "cp_inv ts st"
  shows "cp_inv ts st'"
  using assms(1)
proof (cases rule: cp_step.cases)
  case (Cp_worker s s' cs)
  with assms(2) entry_frame [OF Cp_worker(3)] tq_wf_step [OF Tq_worker [OF Cp_worker(3)]] show ?thesis
    by (auto simp: cp_inv_def cp_phase_def)
next
  case (Cp_spurious s cs)
  with assms(2) tq_wf_step [OF Tq_spurious] show ?thesis by (auto simp: cp_inv_def cp_phase_def)
next
  case Cp_main
  obtain cs s where st: "st = (cs, s)" by fastforce
  have wf: "tq_wf s" and emptied: "tq_worker s = W_done \<Longrightarrow> tq_task s = []" using assms(2) st by (auto simp: cp_inv_def)
  from assms(2) st consider
    (adding) ns where "cs = cp_calls ns" "\<not> tq_stopped s" "tq_accepted s @ ns = ts"
  | (pushing) n ns where "cs = Cp_push n # cp_calls ns" "\<not> tq_stopped s" "n \<in> set (tq_checked s)" "tq_accepted s @ n # ns = ts"
  | (stopped) "tq_stopped s" "tq_accepted s = ts" "cs = [Cp_join] \<or> cs = [] \<and> tq_worker s = W_done"
    by (auto simp: cp_inv_def cp_phase_def)
  then show ?thesis
  proof cases
    case adding
    have running: "tq_worker s \<noteq> W_done" using wf adding(2) by (auto simp: tq_wf_def)
    show ?thesis
    proof (cases ns)
      case Nil
      then have "st' = ([Cp_join], tq_stop s)" using Cp_main st adding(1) by (auto simp: cp_calls_def)
      with Nil adding running tq_wf_step [OF Tq_stop wf] show ?thesis
        by (auto simp: cp_inv_def cp_phase_def tq_stop_def tq_notify_def)
    next
      case (Cons n ns')
      then have "st' = (Cp_push n # cp_calls ns', s\<lparr>tq_checked := tq_checked s @ [n]\<rparr>)"
        using Cp_main st adding(1,2) by (auto simp: cp_calls_def tq_add_check_def)
      with Cons adding(2,3) running wf show ?thesis by (auto simp: cp_inv_def cp_phase_def tq_wf_def)
    qed
  next
    case pushing
    have running: "tq_worker s \<noteq> W_done" using wf pushing(2) by (auto simp: tq_wf_def)
    have "st' = (cp_calls ns, tq_add_push n s)" using Cp_main st pushing(1) by auto
    with pushing running tq_wf_step [OF Tq_push [OF pushing(3)] wf] show ?thesis
      by (auto simp: cp_inv_def cp_phase_def tq_add_push_def tq_notify_def)
  next
    case stopped
    then have "st' = ([], s)" "tq_worker s = W_done" using Cp_main st by (auto split: if_splits)
    with stopped(1,2) wf emptied show ?thesis by (auto simp: cp_inv_def cp_phase_def)
  qed
qed

text \<open>
  When the program comes to its end, whatever the schedule, every task has run, in order; so what
  the lock that is never taken again can do is only to end it before that.
\<close>

lemma cp_main_complete:
  assumes "cp_step\<^sup>*\<^sup>* (cp_start ts) ([], s)"
  shows "tq_ran s = ts \<and> tq_worker s = W_done"
proof -
  have "cp_inv ts st" if "cp_step\<^sup>*\<^sup>* (cp_start ts) st" for st
    using that
  proof (induction rule: rtranclp_induct)
    case base
    show ?case by (auto simp: cp_inv_def cp_phase_def cp_start_def task_manager_new_def tq_wf_def)
  next
    case (step y z)
    then show ?case by (blast intro: cp_inv_step)
  qed
  from this [OF assms] show ?thesis by (auto simp: cp_inv_def cp_phase_def cp_calls_def tq_wf_def)
qed

text \<open>Both ends occur: a schedule that lets \<open>main\<close> stop first prints every line, one that lets the worker
  take \<open>TaskA\<close> alone ends in the exception of \<open>unlock\<close>, or in a wait without the lock.\<close>

fun cp_run :: "bool list \<Rightarrow> cp_state \<Rightarrow> (exn + cp_state) option" where
  "cp_run [] st = Some (Inr st)"
| "cp_run (True # bs) st = (case cp_next st of None \<Rightarrow> None | Some st' \<Rightarrow> cp_run bs st')"
| "cp_run (False # bs) st =
     (case tq_entry (snd st) of
        None \<Rightarrow> None
      | Some (Inl e) \<Rightarrow> Some (Inl e)
      | Some (Inr s') \<Rightarrow> cp_run bs (fst st, s'))"

lemma cp_main_prints_all:
  "\<exists>st. cp_run (replicate 7 True @ replicate 6 False @ [True]) cp_main = Some (Inr st) \<and> fst st = [] \<and>
     cp_output st = [''Task Run: TaskA'', ''Task Run: TaskB'', ''Task Run: TaskC'']"
  by (simp add: cp_main_def cp_start_def cp_calls_def numeral_eq_Suc tq_add_check_def tq_add_push_def tq_notify_def
      tq_stop_def tq_entry_def tq_wait_def task_manager_new_def cp_output_def)

lemma cp_main_fails:
  "cp_run ([True, True] @ replicate 3 False @ [True, True] @ [False]) cp_main = Some (Inl (Std_exception ''system_error''))"
  "cp_run ([True, True] @ replicate 4 False) cp_main = Some (Inl (Undefined ''wait on a lock that is not owned''))"
  by (simp_all add: cp_main_def cp_start_def cp_calls_def numeral_eq_Suc tq_add_check_def tq_add_push_def tq_notify_def
      tq_stop_def tq_entry_def tq_wait_def task_manager_new_def)

section \<open>The program of the thread object\<close>

text \<open>
  \<open>test_upthread.cc\<close>: the calls \<open>main\<close> has still to make, the last of which is the end of its
  \<open>shared_ptr\<close>, beside the steps of the thread. \<open>worker::run\<close> prints one line.
\<close>

type_synonym ut_state = "up_event list \<times> upthread"

definition ut_main :: ut_state where
  "ut_main = ([Up_create ''Worker'', Up_join, Up_drop], upthread_new True)"

definition worker_output :: "upthread \<Rightarrow> string list" where
  "worker_output s = map (\<lambda>_. ''Worker'') (up_ran s)"

definition is_thread_event :: "up_event \<Rightarrow> bool" where
  "is_thread_event e \<longleftrightarrow> e \<in> range Up_entry \<union> range Up_end"

inductive ut_step :: "ut_state \<Rightarrow> (exn + unit) \<times> ut_state \<Rightarrow> bool" where
  Ut_main: "up_enabled s e \<Longrightarrow> up_do e s = (r, s') \<Longrightarrow> ut_step (e # es, s) (r, (es, s'))"
| Ut_thread: "is_thread_event e \<Longrightarrow> up_enabled s e \<Longrightarrow> up_do e s = (r, s') \<Longrightarrow> ut_step (es, s) (r, (es, s'))"

inductive ut_reachable :: "ut_state \<Rightarrow> bool" where
  Ut_init: "ut_reachable ut_main"
| Ut_next: "ut_reachable st \<Longrightarrow> ut_step st (Inr (), st') \<Longrightarrow> ut_reachable st'"

definition ut_object :: "nat option \<Rightarrow> nat list \<Rightarrow> nat list \<Rightarrow> upthread" where
  "ut_object handle live entered =
     \<lparr>up_t_id = (if entered = [] then None else Some 0), up_t_name = ''Worker'', up_handle = handle, up_refs = Some 1,
      up_live = live, up_next = 1, up_alive = True, up_ran = entered\<rparr>"

text \<open>The states the program goes through, one after the other: \<open>join\<close> leaves no other order.\<close>

definition ut_states :: "ut_state list" where
  "ut_states =
     [ut_main,
      ([Up_join, Up_drop], ut_object (Some 0) [0] []),
      ([Up_join, Up_drop], ut_object (Some 0) [0] [0]),
      ([Up_join, Up_drop], ut_object (Some 0) [] [0]),
      ([Up_drop], ut_object None [] [0]),
      ([], (ut_object None [] [0])\<lparr>up_refs := Some 0, up_alive := False\<rparr>)]"

lemma ut_calls:
  "up_create ''Worker'' (upthread_new True) = (Inr (), ut_object (Some 0) [0] [])"
  "up_entry 0 (ut_object (Some 0) [0] []) = (Inr (), ut_object (Some 0) [0] [0])"
  "up_thread_end 0 (ut_object (Some 0) [0] [0]) = (Inr (), ut_object (Some 0) [] [0])"
  "up_join (ut_object (Some 0) [] [0]) = (Inr (), ut_object None [] [0])"
  "up_drop (ut_object None [] [0]) = (Inr (), (ut_object None [] [0])\<lparr>up_refs := Some 0, up_alive := False\<rparr>)"
  by (simp_all add: ut_object_def upthread_new_def up_defs Let_def)

lemma thread_enabled:
  assumes "is_thread_event e" and "up_enabled s e"
  shows "\<exists>t \<in> set (up_live s). e = (if t \<in> set (up_ran s) then Up_end t else Up_entry t)"
  using assms by (auto simp: is_thread_event_def)

lemma ut_object_simps [simp]:
  "up_live (ut_object handle live entered) = live" "up_ran (ut_object handle live entered) = entered"
  "up_handle (ut_object handle live entered) = handle" "up_refs (ut_object handle live entered) = Some 1"
  "up_live (upthread_new True) = []"
  by (simp_all add: ut_object_def upthread_new_def)

lemma ut_new_refs [simp]: "up_refs (upthread_new True) = Some 1"
  by (simp add: upthread_new_def)

lemma ut_states_step:
  assumes "st \<in> set ut_states" and "ut_step st (r, st')"
  shows "r = Inr () \<and> st' \<in> set ut_states"
  using assms(2)
proof (cases rule: ut_step.cases)
  case (Ut_main s e s' es)
  from assms(1) consider "st = ut_states ! 0" | "st = ut_states ! 1" | "st = ut_states ! 2" | "st = ut_states ! 3"
    | "st = ut_states ! 4" | "st = ut_states ! 5" by (auto simp: ut_states_def)
  then show ?thesis using Ut_main by cases (auto simp: ut_states_def ut_main_def ut_calls)
next
  case (Ut_thread e s s' es)
  from thread_enabled [OF Ut_thread(3,4)] obtain t where
    t: "t \<in> set (up_live s)" "e = (if t \<in> set (up_ran s) then Up_end t else Up_entry t)" by blast
  from assms(1) consider "st = ut_states ! 0" | "st = ut_states ! 1" | "st = ut_states ! 2" | "st = ut_states ! 3"
    | "st = ut_states ! 4" | "st = ut_states ! 5" by (auto simp: ut_states_def)
  then show ?thesis using Ut_thread t by cases (auto simp: ut_states_def ut_main_def ut_calls)
qed

lemma ut_progress:
  assumes "(es, s) \<in> set ut_states" and "es \<noteq> []"
  shows "up_enabled s (hd es) \<or> up_enabled s (Up_entry 0) \<or> up_enabled s (Up_end 0)"
  using assms by (auto simp: ut_states_def ut_main_def)

text \<open>
  The program never fails, prints its line at most once, and comes to rest only at its end, with
  the line printed and the object gone.
\<close>

lemma ut_main_runs:
  assumes "ut_reachable st"
  shows "ut_step st (r, st') \<Longrightarrow> r = Inr ()"
    and "(\<nexists>r st'. ut_step st (r, st')) \<Longrightarrow> fst st = [] \<and> worker_output (snd st) = [''Worker''] \<and> \<not> up_alive (snd st)"
proof -
  have st: "st \<in> set ut_states"
    using assms
  proof (induction rule: ut_reachable.induct)
    case Ut_init
    show ?case by (simp add: ut_states_def)
  next
    case (Ut_next st st')
    from ut_states_step [OF this(3,2)] show ?case by (rule conjunct2)
  qed
  then show "ut_step st (r, st') \<Longrightarrow> r = Inr ()" using ut_states_step by blast
  assume rest: "\<nexists>r st'. ut_step st (r, st')"
  obtain es s where es: "st = (es, s)" by fastforce
  have idle: "\<not> up_enabled s e" if "is_thread_event e" for e
    using rest es that by (metis Ut_thread surj_pair)
  have "es = []"
  proof (rule ccontr)
    assume "es \<noteq> []"
    then obtain e es' where e: "es = e # es'" by (cases es) auto
    have "\<not> up_enabled s e" using rest es e by (metis Ut_main surj_pair)
    with ut_progress [of es s] st es e idle [of "Up_entry 0"] idle [of "Up_end 0"] show False
      by (auto simp: is_thread_event_def)
  qed
  then have "fst st = []" using es by simp
  with st have "snd st = (ut_object None [] [0])\<lparr>up_refs := Some 0, up_alive := False\<rparr>"
    by (auto simp: ut_states_def ut_main_def)
  with \<open>fst st = []\<close> show "fst st = [] \<and> worker_output (snd st) = [''Worker''] \<and> \<not> up_alive (snd st)"
    by (simp add: worker_output_def)
qed

end
