(* ===== verification/Spec2Isabelle.thy ===== *)
theory Spec2Isabelle
  imports ServerRun BoostHttp ChatServer GrpcServer StreamTest LruMap ConstIterators TaskQueue ThreadRing
    SelectRuns UPThreads ListReverse CommonPrefix MaxProduct Searching PairSum TimeTest SmallPrograms
    EchoServers RegexMatch FaultPrograms Drivers
begin

text \<open>
  A verification library for the C++ programs of this repository: an HTTP front end over Boost.Asio,
  four more servers and streams, containers and thread classes, and some algorithm exercises. Each
  component is one theory that translates the code's data and operations and proves what makes it
  correct; this theory collects them.

  \<^bold>\<open>Conventions.\<close> The theory \<open>Prelude\<close> has what all share. An operation with effects is an
  \<open>action\<close>, a function from a state to a result and a state; the result is \<open>Inl\<close> of an exception or
  \<open>Inr\<close> of a value, and \<open>bindE\<close> is the sequence of two operations. A path on which C++ defines
  nothing (an access outside an array, the use of a freed object, a signed overflow) is the
  exception \<open>Undefined\<close>, so that a theorem with an \<open>Inr\<close> result also says that no such path is
  taken. Loops that need not end are \<open>partial_function (option)\<close>, with \<open>None\<close> for not returning; a
  theorem that a loop returns is proved as such, and no fuel is used anywhere. Classes are
  records, enumerations datatypes; \<open>size_t\<close> is \<open>64 word\<close> where its wrapping matters, \<open>int\<close> is
  checked against its range where it can overflow. Asynchronous and threaded code is an inductive
  step relation with the completions, or the threads, in any order; properties hold in all
  reachable states, by rule induction over an invariant. Fields that only record history (what was
  posted, printed, accepted) are marked as such where they are declared, and no operation reads
  them.

  \<^bold>\<open>The HTTP front end\<close> (\<open>boost_cpp/httpserver\<close>), from the socket up. \<open>BeastEnv\<close> is the outside
  world, one record of the operations of Boost.Asio, Boost.Beast and the clock, with what the code
  relies on as predicates. \<open>Bufferer\<close> is \<open>StaticOutputBufferer\<close> of \<open>client.hpp\<close> over its sink
  \<open>StreamIO::write_data\<close>: nothing is lost, repeated or reordered, and no store leaves the array.
  \<open>RestClient\<close> is the interface \<open>RestfulClient\<close> as a record of its virtual functions, the forwarding
  decorator, and the promises of a client as the locales \<open>counted_client\<close> (the values returned add
  up to the bytes generated) and \<open>total_client\<close>. \<open>ClientIO\<close> (\<open>asio_client.cc\<close>) implements it: the
  request environment and the calls that format a response. \<open>Filters\<close> (\<open>client_io_filter.hpp\<close>) is
  the four decorators and the stack \<open>handle_connection\<close> builds, each an interpretation of the
  locales. \<open>Process\<close> (\<open>process.cc\<close>) answers uploads. \<open>Connection\<close> is the request loop of
  \<open>asio_frontend.cc\<close> and \<open>Frontend\<close> the server around it: \<open>init\<close>, the list of connections (the
  locale \<open>registry\<close>), \<open>accept\<close>, \<open>stop\<close>, \<open>join\<close>, the signals and \<open>main\<close>. \<open>Transcript\<close> puts the
  parts together: a connection is equivalent to a reference that gives one reply per request, and a
  write or a read that fails only cuts the reference short, by the lemmas of \<open>Truncation\<close> on what is
  on the wire when an operation throws. \<open>ServerRun\<close> composes the server with the connections: its steps are those
  of \<open>Frontend\<close>, with what \<open>handle_connection\<close> makes of each peer, so every peer is answered as if it
  were alone, a connection that \<open>stop\<close> closes has sent a first part of that, and an exception of one
  connection ends the program for all.

  \<^bold>\<open>Other servers and streams.\<close> \<open>BoostHttp\<close> (\<open>httpserver/boost_http.cc\<close>) is the static file server:
  no target escapes the document root and a session answers its requests in order. \<open>ChatServer\<close>
  (\<open>tcp-chat-server.cpp\<close>) delivers every broadcast to every client in one order. \<open>GrpcServer\<close>
  (\<open>async.cc\<close>) is the state machine of the objects that serve calls and free themselves: none is
  used after that, and every caller is answered. \<open>PreBuffer\<close> (\<open>stream/prebufferstream.*\<close>) is a
  stream buffer over a file descriptor; its lemmas show writing and reading correct for
  descriptors that behave, the bounds of its pointers, and what short writes and short reads do.
  \<open>StreamTest\<close> (\<open>stream/teststream.cc\<close>) reads and prints integers through it: the reading of a stream
  is proved over any source of characters (the locale \<open>char_source\<close>), of which the buffer is one.

  \<^bold>\<open>Containers and threads.\<close> \<open>LruMap\<close> (\<open>ceph_test/lru_map.hpp\<close>) refines an abstract bounded cache
  (the locale \<open>bounded_cache\<close>); \<open>Buffers\<close> (\<open>ceph_test/test_iter.cc\<close>) is an intrusive list in an
  explicit heap that refines a sequence (the locale \<open>sequence_container\<close>), with the constant iterators
  of the same file in \<open>ConstIterators\<close>. \<open>TaskQueue\<close>
  (\<open>ceph_test/test_cp.cc\<close>) and \<open>ThreadRing\<close> (\<open>TestCPP/thread.cc\<close>) are threads with condition
  variables: order of the tasks and of the output, wakeups, and the end of the second program, whose
  steps lower a measure once it is told to stop (the locale \<open>ranked_system\<close>). \<open>SelectLoop\<close> (\<open>ceph_test/test_select.cc\<close>) is a thread that
  serves registered pipes with \<open>select\<close>, with any number of clients, and \<open>SelectRuns\<close> its runs:
  handlers are called only while registered, runs of orderly clients end (another instance of
  \<open>ranked_system\<close>), and a full signal pipe deadlocks. \<open>UPThreads\<close> (\<open>upthread/upthread.hpp\<close>) is the lifetime of an
  object that is kept alive by its own thread.

  \<^bold>\<open>Exercises.\<close> \<open>ListReverse\<close> (\<open>leetcode/25_rev.cpp\<close>), \<open>CommonPrefix\<close> (\<open>leetcode/lm.cpp\<close>),
  \<open>MaxProduct\<close> (\<open>algorithm.cc\<close>), \<open>Searching\<close> (\<open>sear_ld.cc\<close>), \<open>PairSum\<close> (\<open>leetcode/meeting.cpp\<close>) and
  \<open>TimeTest\<close> (\<open>TimeTest.cc\<close>): functional correctness where the code is correct, and the inputs on
  which it is not. \<open>EchoServers\<close> (\<open>test_async.cc\<close>, \<open>test_spawn.cc\<close>) returns what is sent, and the
  timer of the second cuts off idle peers and slow writes. \<open>SmallPrograms\<close> collects the programs
  around one feature each, with the race of the singleton and the threads that meet at a counter.
  \<open>RegexMatch\<close> (\<open>test_vec.cpp\<close>) is a dynamic program for patterns with \<open>.\<close> and \<open>*\<close>: equivalent to the
  meaning of the pattern when the first row of its table happens to be clear, and answering what
  the memory held as it is called. \<open>Drivers\<close> runs the tests that come with the containers in their
  models.

  \<^bold>\<open>Parameters.\<close> Boost, the gRPC runtime, the operating system's sockets, files and descriptors, the
  clocks, the order of scheduling and the content of memory that was never written are parameters
  or free choices of the model, with their documented behaviour as named hypotheses; each theorem
  with such a hypothesis has a witness with a concrete instance.

  \<^bold>\<open>Not modelled.\<close> Text logged to the standard output, except where it is the result of the program.
  Data races on plain fields are not tracked: a field read without its lock is read as it is.
  Of \<open>UPThread\<close> the cast helper, of the trie the copies of nodes. \<open>ceph_test/Thread.cpp\<close> and
  \<open>ceph_test/test_coroutine.cc\<close> do not compile. \<open>process.hpp\<close> and the other headers that hold declarations
  only have no definitions of their own.
\<close>

end
